(* ===== verification/Go_Prelude.thy ===== *)
theory Go_Prelude
  imports "HOL-Library.Word" "HOL-Library.Char_ord" "HOL-Library.List_Lexorder"
    "HOL-Library.Sublist"
begin

text \<open>
  What the components share: the Go types and the part of Go's standard library the
  pipeline uses, and the generic lemmas on them.

  A Go \<open>string\<close> or \<open>[]byte\<close> is a \<^typ>\<open>string\<close>: both are byte sequences, and so is a HOL
  \<open>char list\<close>. \<open>int64\<close> and \<open>int32\<close> are \<^typ>\<open>64 word\<close> and \<^typ>\<open>32 word\<close> where the program
  computes with them (\<open>sint\<close> reads them); an \<open>int\<close> that is only parsed, compared and
  counted is an \<^typ>\<open>int\<close> or \<^typ>\<open>nat\<close>, its range checked where the code checks it. A
  \<open>time.Time\<close> is the number of nanoseconds since Go's zero time, so that \<open>IsZero\<close> is
  \<open>t = 0\<close>; a \<open>time.Duration\<close> is a number of nanoseconds.

  \<^item> \<open>err\<close>: error values as the program builds them, with \<open>errors.Is\<close> and \<open>errors.As\<close>
    as a walk down the chain that \<open>fmt.Errorf("%w")\<close> builds, and \<open>Error()\<close> as \<open>err_text\<close>.
  \<^item> \<open>strconv.Itoa\<close> / \<open>strconv.Atoi\<close> and their round trip.
  \<^item> \<open>strings\<close>: \<open>TrimSpace\<close> (on the UTF-8 encodings of every Unicode space), \<open>Split\<close>,
    \<open>Cut\<close>, \<open>Join\<close>, \<open>HasPrefix\<close>, \<open>Contains\<close>.
\<close>

section \<open>Types\<close>

type_synonym bytes = string
type_synonym time = int
type_synonym duration = int
type_synonym i64 = "64 word"
type_synonym i32 = "32 word"

named_theorems err_simps \<open>evaluation of errors.Is, errors.As and the classifiers\<close>
named_theorems frame_simps \<open>what an operation leaves unchanged\<close>

abbreviation millisecond :: duration where "millisecond \<equiv> 1000000"
abbreviation second :: duration where "second \<equiv> 1000000000"
abbreviation minute :: duration where "minute \<equiv> 60000000000"

text \<open>An \<open>int64\<close> made of a number in range is that number.\<close>

lemma sint_of_int_i64: "- (2 ^ 63) \<le> x \<Longrightarrow> x < 2 ^ 63 \<Longrightarrow> sint (of_int x :: i64) = x"
  by (simp add: signed_of_int signed_take_bit_int_eq_self)

section \<open>Error values\<close>

text \<open>
  The sentinel errors the program compares against, PostgreSQL's server errors (a
  \<open>*pgconn.PgError\<close>: an SQLSTATE is five characters, of which the first two are its
  class), any other error by its text, and \<open>fmt.Errorf("pre%wpost", e)\<close>.
\<close>

datatype err =
    ErrCanceled           \<comment> \<open>\<open>context.Canceled\<close>\<close>
  | ErrDeadline           \<comment> \<open>\<open>context.DeadlineExceeded\<close>\<close>
  | ErrInvalid            \<comment> \<open>\<open>order.ErrInvalid\<close>\<close>
  | ErrInvalidArgument    \<comment> \<open>\<open>store.ErrInvalidArgument\<close>\<close>
  | ErrNotFound           \<comment> \<open>\<open>store.ErrNotFound\<close>\<close>
  | ErrNoRows             \<comment> \<open>\<open>pgx.ErrNoRows\<close>\<close>
  | PgError char char string
  | OtherErr string
  | Wrapf string err string

type_synonym 'a res = "err + 'a"

fun unwrap_all :: "err \<Rightarrow> err" where
  "unwrap_all (Wrapf _ e _) = unwrap_all e"
| "unwrap_all e = e"

text \<open>\<open>errors.Is(e, target)\<close> for a sentinel target: some error of the chain is it.\<close>

fun errors_is :: "err \<Rightarrow> err \<Rightarrow> bool" where
  "errors_is (Wrapf p e s) t = (Wrapf p e s = t \<or> errors_is e t)"
| "errors_is e t = (e = t)"

text \<open>\<open>errors.As(e, &pgErr)\<close>: the first server error of the chain, its class and the rest.\<close>

fun errors_as_pg :: "err \<Rightarrow> (string \<times> string) option" where
  "errors_as_pg (PgError a b rest) = Some ([a, b], rest)"
| "errors_as_pg (Wrapf p e s) = errors_as_pg e"
| "errors_as_pg e = None"

fun err_text :: "err \<Rightarrow> string" where
  "err_text ErrCanceled = ''context canceled''"
| "err_text ErrDeadline = ''context deadline exceeded''"
| "err_text ErrInvalid = ''invalid order''"
| "err_text ErrInvalidArgument = ''invalid argument''"
| "err_text ErrNotFound = ''order not found''"
| "err_text ErrNoRows = ''no rows in result set''"
| "err_text (PgError a b rest) = ''SQLSTATE '' @ a # b # rest"
| "err_text (OtherErr m) = m"
| "err_text (Wrapf p e s) = p @ err_text e @ s"

declare errors_is.simps [err_simps] errors_as_pg.simps [err_simps]

text \<open>A sentinel is never a wrapper, so \<open>errors.Is\<close> is decided by the innermost error.\<close>

fun is_wrap :: "err \<Rightarrow> bool" where
  "is_wrap (Wrapf _ _ _) = True"
| "is_wrap _ = False"

lemma errors_is_unwrap: "\<not> is_wrap t \<Longrightarrow> errors_is e t = (unwrap_all e = t)"
  by (induction e) auto

lemma errors_as_pg_unwrap:
  "errors_as_pg e = (case unwrap_all e of PgError a b r \<Rightarrow> Some ([a, b], r) | _ \<Rightarrow> None)"
  by (induction e) auto

section \<open>Numbers as text\<close>

definition digit_char :: "nat \<Rightarrow> char" where
  "digit_char d = char_of (48 + d)"

definition char_digit :: "char \<Rightarrow> nat option" where
  "char_digit c = (let n = of_char c :: nat in if 48 \<le> n \<and> n \<le> 57 then Some (n - 48) else None)"

lemma digit_char_eval [simp]:
  "digit_char 0 = CHR ''0''" "digit_char (Suc 0) = CHR ''1''" "digit_char 1 = CHR ''1''" "digit_char 2 = CHR ''2''"
  "digit_char 3 = CHR ''3''" "digit_char 4 = CHR ''4''" "digit_char 5 = CHR ''5''"
  "digit_char 6 = CHR ''6''" "digit_char 7 = CHR ''7''" "digit_char 8 = CHR ''8''"
  "digit_char 9 = CHR ''9''"
  by (simp_all add: digit_char_def char_of_def bit_Suc_0_iff)

fun nat_digits :: "nat \<Rightarrow> string" where
  "nat_digits n = (if n < 10 then [digit_char n]
                   else nat_digits (n div 10) @ [digit_char (n mod 10)])"

declare nat_digits.simps [simp del]

definition itoa :: "int \<Rightarrow> string" where
  "itoa n = (if n < 0 then CHR ''-'' # nat_digits (nat (- n)) else nat_digits (nat n))"

text \<open>The format \<open>%8d\<close>.\<close>

definition d8 :: "int \<Rightarrow> string" where
  "d8 n = replicate (8 - length (itoa n)) CHR '' '' @ itoa n"

fun parse_digits :: "nat \<Rightarrow> string \<Rightarrow> nat option" where
  "parse_digits acc [] = Some acc"
| "parse_digits acc (c # cs) =
     (case char_digit c of None \<Rightarrow> None | Some d \<Rightarrow> parse_digits (10 * acc + d) cs)"

text \<open>
  \<open>strconv.Atoi\<close> (and \<open>ParseInt(s, 10, 64)\<close>): an optional sign, at least one decimal digit and
  nothing else, and a value of the 64-bit range; \<open>None\<close> is the error.
\<close>

definition atoi :: "string \<Rightarrow> int option" where
  "atoi s =
     (let (neg, body) =
        (case s of [] \<Rightarrow> (False, [])
         | c # cs \<Rightarrow> if c = CHR ''-'' then (True, cs)
                     else if c = CHR ''+'' then (False, cs) else (False, c # cs))
      in if body = [] then None
         else case parse_digits 0 body of
                None \<Rightarrow> None
              | Some n \<Rightarrow> if neg then (if int n \<le> 2 ^ 63 then Some (- int n) else None)
                          else (if int n < 2 ^ 63 then Some (int n) else None))"

lemma char_digit_digit_char [simp]: "d < 10 \<Longrightarrow> char_digit (digit_char d) = Some d"
  by (simp add: char_digit_def digit_char_def Let_def)

lemma parse_digits_append:
  "parse_digits a (xs @ ys) = (case parse_digits a xs of None \<Rightarrow> None | Some b \<Rightarrow> parse_digits b ys)"
  by (induction xs arbitrary: a) (auto split: option.splits)

lemma parse_nat_digits: "parse_digits 0 (nat_digits n) = Some n"
proof (induction n rule: nat_digits.induct)
  case (1 n)
  show ?case
  proof (cases "n < 10")
    case True
    then show ?thesis by (subst nat_digits.simps) simp
  next
    case False
    with 1 have "parse_digits 0 (nat_digits (n div 10)) = Some (n div 10)" by blast
    with False show ?thesis by (subst nat_digits.simps) (simp add: parse_digits_append)
  qed
qed

lemma nat_digits_nonempty [simp]: "nat_digits n \<noteq> []"
  by (subst nat_digits.simps) simp

lemma hd_nat_digits_range: "48 \<le> (of_char (hd (nat_digits n)) :: nat) \<and> (of_char (hd (nat_digits n)) :: nat) \<le> 57"
proof (induction n rule: nat_digits.induct)
  case (1 n)
  show ?case
  proof (cases "n < 10")
    case True
    then show ?thesis by (subst nat_digits.simps, subst (2) nat_digits.simps) (simp add: digit_char_def)
  next
    case False
    then show ?thesis
      using 1 by (subst nat_digits.simps, subst (2) nat_digits.simps) (simp add: hd_append)
  qed
qed

lemma hd_nat_digits_not_sign: "hd (nat_digits n) \<noteq> CHR ''-''" "hd (nat_digits n) \<noteq> CHR ''+''"
  using hd_nat_digits_range[of n] by auto

lemma nat_digits_inj: "nat_digits m = nat_digits n \<longleftrightarrow> m = n"
  using parse_nat_digits by (metis option.inject)

lemma itoa_inj: "itoa m = itoa n \<longleftrightarrow> m = n"
proof -
  have "CHR ''-'' # xs \<noteq> nat_digits k" for xs k using hd_nat_digits_not_sign(1)[of k] by (metis list.sel(1))
  then show ?thesis by (auto simp: itoa_def nat_digits_inj) (metis list.sel(1) hd_nat_digits_not_sign(1))+
qed

text \<open>The round trip \<open>Atoi(Itoa(n)) = n\<close> on the range of an \<open>int\<close>.\<close>

lemma atoi_itoa:
  assumes "- (2 ^ 63) \<le> n" and "n < 2 ^ 63"
  shows "atoi (itoa n) = Some n"
proof (cases "n < 0")
  case True
  with assms show ?thesis
    by (simp add: atoi_def itoa_def Let_def parse_nat_digits nat_le_eq_zle)
next
  case False
  obtain c cs where c: "nat_digits (nat n) = c # cs"
    by (cases "nat_digits (nat n)") auto
  with hd_nat_digits_not_sign[of "nat n"] have "c \<noteq> CHR ''-''" "c \<noteq> CHR ''+''" by auto
  moreover have "parse_digits 0 (c # cs) = Some (nat n)" using parse_nat_digits[of "nat n"] c by simp
  ultimately show ?thesis using False assms
    by (simp add: atoi_def itoa_def Let_def c nat_less_iff)
qed

lemma atoi_range: "atoi s = Some n \<Longrightarrow> - (2 ^ 63) \<le> n \<and> n < 2 ^ 63"
  by (auto simp: atoi_def Let_def split: list.splits if_splits option.splits)

section \<open>The strings package\<close>

text \<open>
  \<open>unicode.IsSpace\<close> in UTF-8: the six ASCII spaces, U+0085, U+00A0, U+1680, U+2000 to U+200A,
  U+2028, U+2029, U+202F, U+205F and U+3000. Trimming at either end of the byte sequence
  removes these encodings, since UTF-8 decodes the same rune from both sides.
\<close>

definition space_encodings :: "string list" where
  "space_encodings =
     map (\<lambda>n. [char_of (n::nat)]) [9, 10, 11, 12, 13, 32] @
     [[CHR 0xC2, CHR 0x85], [CHR 0xC2, CHR 0xA0], [CHR 0xE1, CHR 0x9A, CHR 0x80]] @
     map (\<lambda>n. [CHR 0xE2, CHR 0x80, char_of (n::nat)])
       [128, 129, 130, 131, 132, 133, 134, 135, 136, 137, 138, 168, 169, 175] @
     [[CHR 0xE2, CHR 0x81, CHR 0x9F], [CHR 0xE3, CHR 0x80, CHR 0x80]]"

definition has_prefix :: "string \<Rightarrow> string \<Rightarrow> bool" where
  "has_prefix s p \<longleftrightarrow> take (length p) s = p"

fun strip_one :: "string list \<Rightarrow> string \<Rightarrow> string" where
  "strip_one [] s = s"
| "strip_one (p # ps) s = (if has_prefix s p then drop (length p) s else strip_one ps s)"

function trim_front :: "string list \<Rightarrow> string \<Rightarrow> string" where
  "trim_front ps s =
     (let s' = strip_one ps s in if length s' < length s then trim_front ps s' else s)"
  by pat_completeness auto
termination by (relation "measure (\<lambda>(ps, s). length s)") auto

declare trim_front.simps [simp del]

definition trim_space :: "string \<Rightarrow> string" where
  "trim_space s = rev (trim_front (map rev space_encodings) (rev (trim_front space_encodings s)))"

text \<open>\<open>strings.Split\<close> and \<open>strings.Cut\<close> at a one-byte separator, \<open>strings.Join\<close>.\<close>

fun split_on :: "char \<Rightarrow> string \<Rightarrow> string list" where
  "split_on sep [] = [[]]"
| "split_on sep (c # cs) =
     (if c = sep then [] # split_on sep cs
      else case split_on sep cs of [] \<Rightarrow> [[c]] | w # ws \<Rightarrow> (c # w) # ws)"

fun cut :: "char \<Rightarrow> string \<Rightarrow> string \<times> string \<times> bool" where
  "cut sep [] = ([], [], False)"
| "cut sep (c # cs) =
     (if c = sep then ([], cs, True)
      else let (before, aft, found) = cut sep cs in (c # before, aft, found))"

fun join :: "string \<Rightarrow> string list \<Rightarrow> string" where
  "join sep [] = []"
| "join sep [w] = w"
| "join sep (w # ws) = w @ sep @ join sep ws"

lemma split_on_nonempty [simp]: "split_on sep s \<noteq> []"
  by (induction s) (auto split: list.splits)

lemma split_on_no_sep: "sep \<notin> set s \<Longrightarrow> split_on sep s = [s]"
  by (induction s) auto

lemma join_split_on: "join [sep] (split_on sep s) = s"
proof (induction s)
  case (Cons c s)
  obtain w ws where "split_on sep s = w # ws"
    by (cases "split_on sep s") auto
  with Cons show ?case by (cases ws) auto
qed simp

lemma cut_found:
  "cut sep s = (b, a, f) \<Longrightarrow> (if f then s = b @ sep # a else s = b \<and> a = []) \<and> sep \<notin> set b"
  by (induction s arbitrary: b a f) (auto split: if_splits prod.splits)

lemma cut_append: "sep \<notin> set b \<Longrightarrow> cut sep (b @ sep # a) = (b, a, True)"
  by (induction b) auto

lemma cut_notin: "sep \<notin> set s \<Longrightarrow> cut sep s = (s, [], False)"
  by (induction s) auto

lemma strip_one_suffix: "\<exists>p. s = p @ strip_one ps s"
  by (induction ps) (auto simp: has_prefix_def intro: exI[of _ "take n s" for n], metis append_take_drop_id)

lemma set_strip_one: "set (strip_one ps s) \<subseteq> set s"
  by (metis Un_iff set_append strip_one_suffix subsetI)

lemma trim_front_suffix: "\<exists>p. s = p @ trim_front ps s"
proof (induction ps s rule: trim_front.induct)
  case (1 ps s)
  show ?case
  proof (cases "length (strip_one ps s) < length s")
    case True
    with 1 obtain p where "strip_one ps s = p @ trim_front ps (strip_one ps s)" by auto
    moreover obtain q where "s = q @ strip_one ps s" using strip_one_suffix by blast
    ultimately have "s = (q @ p) @ trim_front ps (strip_one ps s)" by simp
    moreover have "trim_front ps s = trim_front ps (strip_one ps s)"
      using True by (simp add: trim_front.simps[of ps s] Let_def)
    ultimately show ?thesis by metis
  next
    case False
    then show ?thesis by (subst trim_front.simps) (simp add: Let_def)
  qed
qed

lemma trim_space_infix: "\<exists>p q. s = p @ trim_space s @ q"
proof -
  let ?t = "trim_front space_encodings s"
  obtain p where p: "s = p @ ?t" using trim_front_suffix by blast
  obtain q where "rev ?t = q @ trim_front (map rev space_encodings) (rev ?t)"
    using trim_front_suffix by blast
  then have "?t = trim_space s @ rev q"
    by (metis rev_append rev_rev_ident trim_space_def)
  with p show ?thesis by metis
qed

lemma trim_space_Nil [simp]: "trim_space [] = []"
  by (simp add: trim_space_def trim_front.simps Let_def)

section \<open>Generic facts on lists and maps\<close>

lemma prefix_snocI: "prefix xs ys \<Longrightarrow> prefix xs (ys @ zs)"
  by (auto simp: prefix_def)

lemma distinct_map_filter: "distinct (map f xs) \<Longrightarrow> distinct (map f (filter P xs))"
  by (induction xs) auto

text \<open>A prefix of a window of a list, as a range of its indices.\<close>

lemma window_prefix:
  assumes "take n (drop k L) = ds @ rest" and "k \<le> length L"
  shows "k + length ds \<le> length L" "\<And>i. k \<le> i \<Longrightarrow> i < k + length ds \<Longrightarrow> L ! i = ds ! (i - k)"
proof -
  have len: "length ds \<le> length (take n (drop k L))" unfolding assms(1) by simp
  then show le: "k + length ds \<le> length L" using assms(2) by (simp, linarith)
  fix i assume i: "k \<le> i" "i < k + length ds"
  then have lt: "i - k < length ds" by linarith
  then have "ds ! (i - k) = take n (drop k L) ! (i - k)" by (simp add: assms(1) nth_append)
  also have "\<dots> = L ! i" using i lt len assms(2) by simp
  finally show "L ! i = ds ! (i - k)" by simp
qed

lemma window_last:
  assumes "take n (drop k L) = ds @ rest" and "k \<le> length L" and "ds \<noteq> []"
  shows "last ds = L ! (k + length ds - 1)" "k + length ds - 1 < length L"
proof -
  have pos: "0 < length ds" using assms(3) by simp
  then show "k + length ds - 1 < length L" using window_prefix(1)[OF assms(1,2)] by linarith
  have "L ! (k + length ds - 1) = ds ! (k + length ds - 1 - k)"
    by (rule window_prefix(2)[OF assms(1,2)]) (use pos in linarith)+
  then show "last ds = L ! (k + length ds - 1)" using assms(3) by (simp add: last_conv_nth)
qed

end
