(* ===== verification/Retry.thy ===== *)
theory Retry
  imports Go_Prelude
begin

text \<open>
  \<open>internal/retry/retry.go\<close>: the backoff policy, \<open>Delay\<close> and the loop of \<open>Do\<close>.

  \<open>Do\<close> is a higher-order function, and so is its model: the context, the clock, the random
  source, the timer and the callbacks \<open>fn\<close> and \<open>onRetry\<close> are the fields of \<open>retry_ops\<close>, each
  threading a state \<open>'s\<close> (everything those operations may change). A loop that does not return
  is \<^const>\<open>None\<close> of \<open>do_loop\<close>; that it returns is a lemma of the locale \<open>retry_clock\<close>.

  The durations of a policy are nanoseconds, non-negative and below \<open>2 ^ 53\<close> (104 days), the
  range in which the \<open>float64\<close> arithmetic of \<open>Delay\<close> is exact: scaling by a power of two only
  changes the exponent, and an overflow to \<open>+Inf\<close> exceeds \<open>Max\<close> as the integer does.
\<close>

record retry_policy =
  Base :: nat
  MaxDelay :: nat
  MaxElapsed :: nat

definition DefaultPolicy :: retry_policy where
  "DefaultPolicy =
     \<lparr>Base = 100 * 1000000, MaxDelay = 5 * 1000000000, MaxElapsed = 45 * 1000000000\<rparr>"

text \<open>The exponential backoff of an attempt (0-based), capped at \<open>Max\<close> (here \<open>MaxDelay\<close>).\<close>

definition backoff :: "retry_policy \<Rightarrow> nat \<Rightarrow> nat" where
  "backoff p attempt =
     (let b = Base p * 2 ^ attempt in if b > MaxDelay p then MaxDelay p else b)"

record 's retry_ops =
  fn :: "'s \<Rightarrow> err option \<times> 's"
  ctxErr :: "'s \<Rightarrow> bool \<times> 's"               \<comment> \<open>\<open>ctx.Err() != nil\<close>\<close>
  timeNow :: "'s \<Rightarrow> time \<times> 's"
  int64N :: "nat \<Rightarrow> 's \<Rightarrow> nat \<times> 's"          \<comment> \<open>\<open>rand.Int64N(n)\<close>\<close>
  waitTimer :: "nat \<Rightarrow> 's \<Rightarrow> bool \<times> 's"      \<comment> \<open>the \<open>select\<close>: did \<open>ctx.Done()\<close> win\<close>
  onRetry :: "nat \<Rightarrow> nat \<Rightarrow> err \<Rightarrow> 's \<Rightarrow> 's"

definition Delay :: "'s retry_ops \<Rightarrow> retry_policy \<Rightarrow> nat \<Rightarrow> 's \<Rightarrow> nat \<times> 's" where
  "Delay ops p attempt s = int64N ops (backoff p attempt + 1) s"

partial_function (option) do_loop ::
  "'s retry_ops \<Rightarrow> retry_policy \<Rightarrow> (err \<Rightarrow> bool) \<Rightarrow> time \<Rightarrow> nat \<Rightarrow> 's \<Rightarrow> (err option \<times> 's) option"
where
  "do_loop ops p retryable deadline attempt s =
     (case fn ops s of (r, s1) \<Rightarrow>
       (case r of
          None \<Rightarrow> Some (None, s1)
        | Some e \<Rightarrow>
          (case ctxErr ops s1 of (cancelled, s2) \<Rightarrow>
             if cancelled then Some (Some e, s2)
             else if \<not> retryable e then Some (Some e, s2)
             else
               (case Delay ops p attempt s2 of (delay, s3) \<Rightarrow>
               (case timeNow ops s3 of (t, s4) \<Rightarrow>
                  if t + int delay > deadline then Some (Some e, s4)
                  else
                    (case waitTimer ops delay (onRetry ops attempt delay e s4) of (stopped, s5) \<Rightarrow>
                       if stopped then Some (Some e, s5)
                       else do_loop ops p retryable deadline (Suc attempt) s5))))))"

declare do_loop.simps [code]

definition Do ::
  "'s retry_ops \<Rightarrow> retry_policy \<Rightarrow> (err \<Rightarrow> bool) \<Rightarrow> 's \<Rightarrow> (err option \<times> 's) option" where
  "Do ops p retryable s =
     (case timeNow ops s of (t, s1) \<Rightarrow>
        do_loop ops p retryable (t + int (MaxElapsed p)) 0 s1)"

section \<open>Delays\<close>

lemma backoff_le_MaxDelay: "backoff p n \<le> MaxDelay p"
  by (simp add: backoff_def Let_def)

lemma backoff_le_exp: "backoff p n \<le> Base p * 2 ^ n"
  by (simp add: backoff_def Let_def)

lemma backoff_mono: "m \<le> n \<Longrightarrow> backoff p m \<le> backoff p n"
proof -
  assume "m \<le> n"
  then have "Base p * 2 ^ m \<le> Base p * 2 ^ n" by (simp add: power_increasing)
  moreover have "(if b < x then b else x) \<le> (if b < y then b else y)" if "x \<le> y" for b x y :: nat
    using that by auto
  ultimately show ?thesis unfolding backoff_def Let_def by blast
qed

section \<open>The loop as an interface\<close>

text \<open>
  What a caller of \<open>Do\<close> supplies: operations that keep an invariant, a condition \<open>finished\<close> that
  \<open>fn\<close> establishes when it succeeds, and a condition \<open>failed e\<close> that it establishes when it
  returns the error \<open>e\<close> and that the operations after it keep.
\<close>

locale retry_client =
  fixes ops :: "'s retry_ops"
    and inv :: "'s \<Rightarrow> bool"
    and finished :: "'s \<Rightarrow> bool"
    and failed :: "err \<Rightarrow> 's \<Rightarrow> bool"
  assumes fn_ok: "inv s \<Longrightarrow> fn ops s = (None, s') \<Longrightarrow> inv s' \<and> finished s'"
    and fn_err: "inv s \<Longrightarrow> fn ops s = (Some e, s') \<Longrightarrow> inv s' \<and> failed e s'"
    and ctx_inv: "inv s \<Longrightarrow> ctxErr ops s = (c, s') \<Longrightarrow>
        inv s' \<and> (\<forall>e. failed e s \<longrightarrow> failed e s')"
    and now_inv: "inv s \<Longrightarrow> timeNow ops s = (t, s') \<Longrightarrow>
        inv s' \<and> (\<forall>e. failed e s \<longrightarrow> failed e s')"
    and rand_inv: "inv s \<Longrightarrow> int64N ops n s = (d, s') \<Longrightarrow>
        inv s' \<and> (\<forall>e. failed e s \<longrightarrow> failed e s')"
    and wait_inv: "inv s \<Longrightarrow> waitTimer ops d s = (c, s') \<Longrightarrow>
        inv s' \<and> (\<forall>e. failed e s \<longrightarrow> failed e s')"
    and onRetry_inv: "inv s \<Longrightarrow> inv (onRetry ops n d e s) \<and>
        (\<forall>e'. failed e' s \<longrightarrow> failed e' (onRetry ops n d e s))"
begin

definition outcome :: "err option \<Rightarrow> 's \<Rightarrow> bool" where
  "outcome r s = (inv s \<and> (case r of None \<Rightarrow> finished s | Some e \<Rightarrow> failed e s))"

lemma do_loop_outcome:
  assumes ret: "do_loop ops p retryable deadline attempt s = Some (r, s')" and "inv s"
  shows "outcome r s'"
proof -
  have step: "inv s \<longrightarrow> outcome (fst x) (snd x)"
    if "do_loop ops p retryable deadline attempt s = Some x" for x
  proof (rule do_loop.raw_induct[where
        P = "\<lambda>ops' p retryable deadline attempt s x. ops' = ops \<longrightarrow> inv s \<longrightarrow> outcome (fst x) (snd x)",
        OF _ that, THEN mp, OF _ refl])
    fix f :: "'s retry_ops \<Rightarrow> retry_policy \<Rightarrow> (err \<Rightarrow> bool) \<Rightarrow> time \<Rightarrow> nat \<Rightarrow> 's \<Rightarrow> (err option \<times> 's) option"
      and ops' p retryable deadline attempt s x
    assume IH: "\<And>ops' p retryable deadline attempt s x.
        f ops' p retryable deadline attempt s = Some x \<Longrightarrow>
        ops' = ops \<longrightarrow> inv s \<longrightarrow> outcome (fst x) (snd x)"
    assume eq: "(case fn ops' s of (r, s1) \<Rightarrow>
       (case r of None \<Rightarrow> Some (None, s1)
        | Some e \<Rightarrow>
          (case ctxErr ops' s1 of (cancelled, s2) \<Rightarrow>
             if cancelled then Some (Some e, s2)
             else if \<not> retryable e then Some (Some e, s2)
             else
               (case Delay ops' p attempt s2 of (delay, s3) \<Rightarrow>
               (case timeNow ops' s3 of (t, s4) \<Rightarrow>
                  if t + int delay > deadline then Some (Some e, s4)
                  else
                    (case waitTimer ops' delay (onRetry ops' attempt delay e s4) of (stopped, s5) \<Rightarrow>
                       if stopped then Some (Some e, s5)
                       else f ops' p retryable deadline (Suc attempt) s5)))))) = Some x"
    show "ops' = ops \<longrightarrow> inv s \<longrightarrow> outcome (fst x) (snd x)"
    proof (intro impI)
      assume o: "ops' = ops" and i: "inv s"
      obtain r s1 where f1: "fn ops s = (r, s1)" by fastforce
      show "outcome (fst x) (snd x)"
      proof (cases r)
        case None
        with eq o f1 fn_ok[OF i] show ?thesis by (auto simp: outcome_def)
      next
        case (Some e)
        with fn_err[OF i] f1 have i1: "inv s1" "failed e s1" by auto
        obtain c s2 where f2: "ctxErr ops s1 = (c, s2)" by fastforce
        with ctx_inv[OF i1(1)] i1 have i2: "inv s2" "failed e s2" by blast+
        obtain d s3 where f3: "Delay ops p attempt s2 = (d, s3)" by fastforce
        with rand_inv[OF i2(1)] i2 have i3: "inv s3" "failed e s3"
          unfolding Delay_def by blast+
        obtain t s4 where f4: "timeNow ops s3 = (t, s4)" by fastforce
        with now_inv[OF i3(1)] i3 have i4: "inv s4" "failed e s4" by blast+
        then have i4': "inv (onRetry ops attempt d e s4)" "failed e (onRetry ops attempt d e s4)"
          using onRetry_inv by blast+
        obtain st s5 where f5: "waitTimer ops d (onRetry ops attempt d e s4) = (st, s5)" by fastforce
        with wait_inv[OF i4'(1)] i4' have i5: "inv s5" "failed e s5" by blast+
        from eq o f1 f2 f3 f4 f5 Some i2 i4 i5 IH show ?thesis
          by (auto simp: outcome_def split: if_splits)
      qed
    qed
  qed
  then show ?thesis using assms by fastforce
qed

lemma Do_outcome:
  assumes "Do ops p retryable s = Some (r, s')" and "inv s"
  shows "outcome r s'"
  using assms do_loop_outcome now_inv
  by (auto simp: Do_def split: prod.splits)

end

text \<open>
  A caller whose clock moves: each call of \<open>fn\<close> takes at least a nanosecond and no operation
  turns the clock back. Then the budget runs out and \<open>Do\<close> returns.
\<close>

locale retry_clock =
  fixes ops :: "'s retry_ops" and clk :: "'s \<Rightarrow> time"
  assumes fn_clk: "fn ops s = (r, s') \<Longrightarrow> clk s < clk s'"
    and ctx_clk: "ctxErr ops s = (c, s') \<Longrightarrow> clk s \<le> clk s'"
    and now_clk: "timeNow ops s = (t, s') \<Longrightarrow> clk s \<le> t \<and> t \<le> clk s'"
    and rand_clk: "int64N ops n s = (d, s') \<Longrightarrow> clk s \<le> clk s'"
    and wait_clk: "waitTimer ops d s = (c, s') \<Longrightarrow> clk s \<le> clk s'"
    and onRetry_clk: "clk s \<le> clk (onRetry ops n d e s)"
begin

lemma do_loop_returns: "\<exists>x. do_loop ops p retryable deadline attempt s = Some x"
proof (induction "nat (deadline + 1 - clk s)" arbitrary: attempt s rule: less_induct)
  case less
  obtain r s1 where f1: "fn ops s = (r, s1)" by fastforce
  obtain c s2 where f2: "ctxErr ops s1 = (c, s2)" by fastforce
  obtain d s3 where f3: "Delay ops p attempt s2 = (d, s3)" by fastforce
  obtain t s4 where f4: "timeNow ops s3 = (t, s4)" by fastforce
  show ?case
  proof (cases r)
    case None
    with f1 show ?thesis by (simp add: do_loop.simps)
  next
    case (Some e)
    obtain st s5 where f5: "waitTimer ops d (onRetry ops attempt d e s4) = (st, s5)" by fastforce
    show ?thesis
    proof (cases "c \<or> \<not> retryable e \<or> t + int d > deadline \<or> st")
      case True
      with f1 f2 f3 f4 f5 Some show ?thesis by (subst do_loop.simps) auto
    next
      case False
      have "clk s2 \<le> clk s3" using rand_clk f3 unfolding Delay_def by blast
      then have "clk s < t" "t \<le> clk s5"
        using fn_clk[OF f1] ctx_clk[OF f2] now_clk[OF f4]
          onRetry_clk[of s4 attempt d e] wait_clk[OF f5] by auto
      moreover from False have "t \<le> deadline" by auto
      ultimately have "nat (deadline + 1 - clk s5) < nat (deadline + 1 - clk s)" by auto
      then obtain x where "do_loop ops p retryable deadline (Suc attempt) s5 = Some x"
        using less by blast
      with False f1 f2 f3 f4 f5 Some show ?thesis by (subst do_loop.simps) auto
    qed
  qed
qed

lemma Do_returns: "\<exists>x. Do ops p retryable s = Some x"
  using do_loop_returns by (auto simp: Do_def split: prod.splits)

end

section \<open>Properties\<close>


definition sample_ops :: "nat retry_ops" where
  "sample_ops = \<lparr>fn = (\<lambda>s. (None, s)), ctxErr = (\<lambda>s. (False, s)), timeNow = (\<lambda>s. (int s, Suc s)),
     int64N = (\<lambda>n s. (s mod n, s)), waitTimer = (\<lambda>d s. (False, s + d)), onRetry = (\<lambda>_ _ _ s. s)\<rparr>"


end
