(* ===== verification/Store_Errors.thy ===== *)
theory Store_Errors
  imports Go_Prelude
begin

text \<open>
  \<open>internal/store/errors.go\<close>: which failures the worker retries (\<open>IsRetryable\<close>) and which the
  query service blames on its caller (\<open>IsCallerError\<close>). A \<open>nil\<close> error is \<^const>\<open>None\<close>.
\<close>

definition IsRetryable :: "err option \<Rightarrow> bool" where
  "IsRetryable x =
     (case x of
        None \<Rightarrow> False
      | Some e \<Rightarrow>
          if errors_is e ErrCanceled then False
          else if errors_is e ErrInvalidArgument then False
          else if errors_is e ErrDeadline then True
          else case errors_as_pg e of
                 Some (class, _) \<Rightarrow>
                   if class \<in> {''23'', ''22'', ''42''} then False
                   else if class \<in> {''08'', ''53'', ''57'', ''58''} then True
                   else if class = ''40'' then True
                   else False
               | None \<Rightarrow> True)"

definition IsCallerError :: "err option \<Rightarrow> bool" where
  "IsCallerError x =
     (case x of
        None \<Rightarrow> False
      | Some e \<Rightarrow>
          if errors_is e ErrInvalidArgument then True
          else case errors_as_pg e of Some (class, _) \<Rightarrow> class = ''22'' | None \<Rightarrow> False)"

section \<open>Lemmas\<close>

text \<open>Both classifiers depend on the innermost error only: no wrapping changes the answer.\<close>

lemmas leaf_simps = errors_is_unwrap[of ErrCanceled] errors_is_unwrap[of ErrInvalidArgument]
  errors_is_unwrap[of ErrDeadline] errors_as_pg_unwrap

lemma unwrap_all_idem [simp]: "unwrap_all (unwrap_all e) = unwrap_all e"
  by (induction e) auto

lemma IsRetryable_wrap [err_simps]: "IsRetryable (Some (Wrapf p e s)) = IsRetryable (Some e)"
  by (simp add: IsRetryable_def leaf_simps)

lemma IsCallerError_wrap [err_simps]: "IsCallerError (Some (Wrapf p e s)) = IsCallerError (Some e)"
  by (simp add: IsCallerError_def leaf_simps)

lemma IsRetryable_leaf [err_simps]:
  "\<not> IsRetryable None"
  "\<not> IsRetryable (Some ErrCanceled)"
  "\<not> IsRetryable (Some ErrInvalidArgument)"
  "IsRetryable (Some ErrDeadline)"
  "IsRetryable (Some (OtherErr m))"
  "IsRetryable (Some (PgError a b r)) \<longleftrightarrow> [a, b] \<in> {''08'', ''53'', ''57'', ''58'', ''40''}"
  by (auto simp: IsRetryable_def)

lemma IsCallerError_leaf [err_simps]:
  "\<not> IsCallerError None"
  "IsCallerError (Some ErrInvalidArgument)"
  "\<not> IsCallerError (Some (OtherErr m))"
  "IsCallerError (Some (PgError a b r)) \<longleftrightarrow> [a, b] = ''22''"
  by (auto simp: IsCallerError_def)

lemma caller_not_retryable: "IsCallerError x \<Longrightarrow> \<not> IsRetryable x"
  by (cases x; cases "unwrap_all (the x)")
    (auto simp: IsCallerError_def IsRetryable_def leaf_simps split: if_splits)

text \<open>
  The classification of errors. The answer depends only on the innermost error of the wrapping
  chain; what is the caller's fault is never retried; and of the server's errors exactly the
  classes 08, 53, 57, 58 (the server or the connection) and 40 (a lost race) are retried, while
  an error that did not come from the server (the network) always is unless it is a
  cancellation or an invalid argument.
\<close>

theorem classification:
  "IsRetryable (Some e) = IsRetryable (Some (unwrap_all e)) \<and>
   IsCallerError (Some e) = IsCallerError (Some (unwrap_all e)) \<and>
   \<not> (IsCallerError (Some e) \<and> IsRetryable (Some e)) \<and>
   (IsRetryable (Some e) \<longleftrightarrow>
     (case errors_as_pg e of
        Some (class, _) \<Rightarrow> class \<in> {''08'', ''53'', ''57'', ''58'', ''40''}
      | None \<Rightarrow> \<not> errors_is e ErrCanceled \<and> \<not> errors_is e ErrInvalidArgument))"
proof -
  have "IsRetryable (Some e) = IsRetryable (Some (unwrap_all e))" "IsCallerError (Some e) = IsCallerError (Some (unwrap_all e))"
    by (induction e) (simp_all add: err_simps)
  moreover have "\<not> (IsCallerError (Some e) \<and> IsRetryable (Some e))" using caller_not_retryable by blast
  moreover have "IsRetryable (Some e) \<longleftrightarrow>
     (case errors_as_pg e of
        Some (class, _) \<Rightarrow> class \<in> {''08'', ''53'', ''57'', ''58'', ''40''}
      | None \<Rightarrow> \<not> errors_is e ErrCanceled \<and> \<not> errors_is e ErrInvalidArgument)"
    by (cases "unwrap_all e") (auto simp: IsRetryable_def leaf_simps split: if_splits)
  ultimately show ?thesis by blast
qed

end
