(* ===== verification/Order_Domain.thy ===== *)
theory Order_Domain
  imports Go_Prelude
begin

text \<open>
  \<open>internal/order/order.go\<close>: the request and event types, \<open>Validate\<close>, \<open>NewEvent\<close> and
  \<open>ValidateIdempotencyKey\<close>. A \<open>nil\<close> error is \<^const>\<open>None\<close>. The two fresh UUIDs and the clock
  reading that \<open>NewEvent\<close> takes are arguments, and so is \<open>uuid.NewSHA1\<close> of the
  \<open>google/uuid\<close> package (\<open>new_sha1\<close>, from a namespace and a name to the text of a UUID).
\<close>

section \<open>Types\<close>

definition EventTypeCreated :: string where
  "EventTypeCreated = ''order.created''"

record item =
  SKU :: string
  Quantity :: i64
  UnitPriceCents :: i64

record create_request =
  ReqCustomerID :: string
  ReqItems :: "item list"

record event =
  EventID :: string
  EventType :: string
  OrderID :: string
  OccurredAt :: time
  CustomerID :: string
  Items :: "item list"
  TotalCents :: i64

section \<open>Validation\<close>

definition item_label :: "nat \<Rightarrow> string" where
  "item_label i = ''items['' @ itoa (int i) @ '']''"

fun item_problems :: "nat \<Rightarrow> item list \<Rightarrow> string list" where
  "item_problems i [] = []"
| "item_problems i (it # its) =
     (if trim_space (SKU it) = '''' then [item_label i @ ''.sku is required''] else []) @
     (if sint (Quantity it) \<le> 0 then [item_label i @ ''.quantity must be > 0''] else []) @
     (if sint (UnitPriceCents it) < 0
      then [item_label i @ ''.unit_price_cents must be >= 0''] else []) @
     item_problems (Suc i) its"

definition problems :: "create_request \<Rightarrow> string list" where
  "problems r =
     (if trim_space (ReqCustomerID r) = '''' then [''customer_id is required''] else []) @
     (if ReqItems r = [] then [''at least one item is required''] else []) @
     item_problems 0 (ReqItems r)"

definition Validate :: "create_request \<Rightarrow> err option" where
  "Validate r =
     (let ps = problems r in
      if length ps > 0 then Some (Wrapf '''' ErrInvalid ('': '' @ join ''; '' ps)) else None)"

section \<open>Events\<close>

definition idempotencyNamespace :: string where
  "idempotencyNamespace = ''6f9619ff-8b86-d011-b42d-00c04fc964ff''"

definition MaxIdempotencyKeyLen :: nat where
  "MaxIdempotencyKeyLen = 255"

definition derive :: "(string \<Rightarrow> string \<Rightarrow> string) \<Rightarrow> string \<Rightarrow> string" where
  "derive new_sha1 s = new_sha1 idempotencyNamespace s"

fun total_cents :: "i64 \<Rightarrow> item list \<Rightarrow> i64" where
  "total_cents tot [] = tot"
| "total_cents tot (it # its) = total_cents (tot + UnitPriceCents it * Quantity it) its"

definition NewEvent ::
  "(string \<Rightarrow> string \<Rightarrow> string) \<Rightarrow> string \<Rightarrow> string \<Rightarrow> time \<Rightarrow> create_request \<Rightarrow> string \<Rightarrow> event" where
  "NewEvent new_sha1 uuid1 uuid2 now r idempotencyKey =
     (let tot = total_cents 0 (ReqItems r);
          (orderID, eventID) =
            (if idempotencyKey \<noteq> ''''
             then (derive new_sha1 (''order:'' @ idempotencyKey),
                   derive new_sha1 (''event:'' @ idempotencyKey))
             else (uuid1, uuid2))
      in \<lparr>EventID = eventID, EventType = EventTypeCreated, OrderID = orderID,
          OccurredAt = now, CustomerID = ReqCustomerID r, Items = ReqItems r,
          TotalCents = tot\<rparr>)"

text \<open>
  The loop of \<open>ValidateIdempotencyKey\<close> ranges over runes. An ASCII byte is its own rune; any other
  byte belongs to a rune above \<open>0x7e\<close> (a decoded rune of at least \<open>0x80\<close>, or U+FFFD for an invalid
  encoding), so the test on runes is the test on bytes.
\<close>

definition printable :: "char \<Rightarrow> bool" where
  "printable c \<longleftrightarrow> \<not> ((of_char c :: nat) < 0x21 \<or> (of_char c :: nat) > 0x7e)"

definition ValidateIdempotencyKey :: "string \<Rightarrow> err option" where
  "ValidateIdempotencyKey key =
     (if key = '''' then None
      else if length key > MaxIdempotencyKeyLen
      then Some (Wrapf '''' ErrInvalid
             ('': Idempotency-Key must be at most '' @ itoa (int MaxIdempotencyKeyLen) @ '' characters''))
      else if list_all printable key then None
      else Some (Wrapf '''' ErrInvalid
             '': Idempotency-Key must be printable ASCII without spaces''))"

section \<open>Lemmas\<close>

definition valid_item :: "item \<Rightarrow> bool" where
  "valid_item it \<longleftrightarrow>
     trim_space (SKU it) \<noteq> '''' \<and> 0 < sint (Quantity it) \<and> 0 \<le> sint (UnitPriceCents it)"

definition valid_request :: "create_request \<Rightarrow> bool" where
  "valid_request r \<longleftrightarrow>
     trim_space (ReqCustomerID r) \<noteq> '''' \<and> ReqItems r \<noteq> [] \<and> list_all valid_item (ReqItems r)"

lemma item_problems_empty: "item_problems i its = [] \<longleftrightarrow> list_all valid_item its"
  by (induction its arbitrary: i) (auto simp: valid_item_def)

lemma problems_empty: "problems r = [] \<longleftrightarrow> valid_request r"
  by (auto simp: problems_def valid_request_def item_problems_empty)

lemma Validate_None: "Validate r = None \<longleftrightarrow> valid_request r"
  by (simp add: Validate_def problems_empty Let_def)

lemma Validate_error_is_ErrInvalid: "Validate r = Some e \<Longrightarrow> errors_is e ErrInvalid"
  by (auto simp: Validate_def Let_def split: if_splits)

text \<open>The true sum in cents, of which \<open>TotalCents\<close> is the 64-bit residue.\<close>

definition cents_sum :: "item list \<Rightarrow> int" where
  "cents_sum its = (\<Sum>it\<leftarrow>its. sint (UnitPriceCents it) * sint (Quantity it))"

lemma total_cents_of_int: "total_cents t its = t + of_int (cents_sum its)"
proof (induction its arbitrary: t)
  case (Cons it its)
  have "(of_int (sint (UnitPriceCents it) * sint (Quantity it)) :: i64) = UnitPriceCents it * Quantity it"
    by simp
  with Cons show ?case by (simp add: cents_sum_def algebra_simps)
qed (simp add: cents_sum_def)

lemma cents_sum_nonneg: "list_all valid_item its \<Longrightarrow> 0 \<le> cents_sum its"
  by (induction its) (auto simp: cents_sum_def valid_item_def)

lemma sint_total_cents:
  assumes "list_all valid_item its" and "cents_sum its < 2 ^ 63"
  shows "sint (total_cents 0 its) = cents_sum its"
  using assms cents_sum_nonneg[of its] by (simp add: total_cents_of_int sint_of_int_i64)

lemma NewEvent_keyed_ids:
  assumes "key \<noteq> ''''"
  shows "OrderID (NewEvent h u v t r key) = derive h (''order:'' @ key)"
    and "EventID (NewEvent h u v t r key) = derive h (''event:'' @ key)"
  using assms by (simp_all add: NewEvent_def Let_def)

lemma NewEvent_body:
  "EventType (NewEvent h u v t r key) = EventTypeCreated"
  "OccurredAt (NewEvent h u v t r key) = t"
  "CustomerID (NewEvent h u v t r key) = ReqCustomerID r"
  "Items (NewEvent h u v t r key) = ReqItems r"
  "TotalCents (NewEvent h u v t r key) = total_cents 0 (ReqItems r)"
  by (auto simp: NewEvent_def Let_def split: prod.splits)

lemma ValidateIdempotencyKey_None:
  "ValidateIdempotencyKey key = None \<longleftrightarrow>
     length key \<le> MaxIdempotencyKeyLen \<and> (\<forall>c \<in> set key. printable c)"
  by (auto simp: ValidateIdempotencyKey_def list_all_iff MaxIdempotencyKeyLen_def)

section \<open>Properties\<close>

text \<open>
  C30. \<open>Validate\<close> accepts a request exactly if the customer is not blank, there is at least one
  item, and every item has a SKU that is not blank, a positive quantity and a price that is not
  negative; and whatever it refuses it refuses with an error that \<open>errors.Is\<close> recognises as
  \<open>ErrInvalid\<close> and that lists at least one problem.
\<close>

theorem Validate_correct:
  "case Validate r of
     None \<Rightarrow> trim_space (ReqCustomerID r) \<noteq> '''' \<and> ReqItems r \<noteq> [] \<and>
       (\<forall>i < length (ReqItems r). trim_space (SKU (ReqItems r ! i)) \<noteq> '''' \<and>
          0 < sint (Quantity (ReqItems r ! i)) \<and> 0 \<le> sint (UnitPriceCents (ReqItems r ! i)))
   | Some e \<Rightarrow> \<not> valid_request r \<and> errors_is e ErrInvalid \<and>
       (\<exists>ps. ps \<noteq> [] \<and> err_text e = ''invalid order: '' @ join ''; '' ps)"
proof (cases "Validate r")
  case None
  then have "valid_request r" by (simp add: Validate_None)
  with None show ?thesis by (auto simp: valid_request_def list_all_length valid_item_def)
next
  case (Some e)
  then have "problems r \<noteq> []" "e = Wrapf '''' ErrInvalid ('': '' @ join ''; '' (problems r))"
    by (auto simp: Validate_def Let_def split: if_splits)
  moreover have "\<not> valid_request r" using Some Validate_None[of r] by simp
  ultimately show ?thesis using Some by auto
qed

definition sample_request :: create_request where
  "sample_request = \<lparr>ReqCustomerID = ''cust-1'', ReqItems =
     [\<lparr>SKU = ''WIDGET-1'', Quantity = 2, UnitPriceCents = 1999\<rparr>, \<lparr>SKU = ''GADGET'', Quantity = 1, UnitPriceCents = 500\<rparr>]\<rparr>"

lemma Validate_correct_witness:
  "Validate sample_request = None \<and> trim_space (ReqCustomerID sample_request) \<noteq> ''''"
proof -
  have v: "Validate sample_request = None" by code_simp
  with Validate_correct[of sample_request] show ?thesis by simp
qed

text \<open>
  C31. The total of a validated request is exact as long as the sum of price times quantity fits an
  \<open>int64\<close>: then \<open>NewEvent\<close> computes that very sum, and it is not negative.
\<close>

theorem total_exact:
  assumes "Validate r = None"
    and "(\<Sum>it\<leftarrow>ReqItems r. sint (UnitPriceCents it) * sint (Quantity it)) < 2 ^ 63"
  shows "sint (TotalCents (NewEvent h u v t r key)) =
      (\<Sum>it\<leftarrow>ReqItems r. sint (UnitPriceCents it) * sint (Quantity it)) \<and>
    0 \<le> sint (TotalCents (NewEvent h u v t r key))"
proof -
  have v: "list_all valid_item (ReqItems r)" using assms(1) by (simp add: Validate_None valid_request_def)
  have "sint (total_cents 0 (ReqItems r)) = cents_sum (ReqItems r)"
    by (rule sint_total_cents[OF v]) (use assms(2) in \<open>simp add: cents_sum_def\<close>)
  with cents_sum_nonneg[OF v] show ?thesis by (simp add: NewEvent_body cents_sum_def)
qed

lemma total_exact_witness:
  "sint (TotalCents (NewEvent (\<lambda>_ n. n) ''u'' ''v'' 0 sample_request '''')) = 4498"
proof -
  have v: "Validate sample_request = None" by code_simp
  have s: "(\<Sum>it\<leftarrow>ReqItems sample_request. sint (UnitPriceCents it) * sint (Quantity it)) = 4498"
    by (simp add: sample_request_def)
  from total_exact[OF v] s show ?thesis by simp
qed

text \<open>
  Without that bound the total wraps: a request that \<open>Validate\<close> accepts can yield an event with
  a negative total.
\<close>

theorem total_wraps:
  "\<exists>r. Validate r = None \<and> sint (TotalCents (NewEvent h u v t r key)) < 0"
proof -
  let ?r = "\<lparr>ReqCustomerID = ''c'', ReqItems = [\<lparr>SKU = ''s'', Quantity = 2, UnitPriceCents = 2 ^ 62\<rparr>]\<rparr>"
  have "Validate ?r = None" by code_simp
  moreover have "sint (total_cents 0 (ReqItems ?r)) < 0" by code_simp
  ultimately show ?thesis by (auto simp: NewEvent_body intro!: exI[of _ ?r])
qed

text \<open>
  Retrying with an idempotency key yields the same event identity. For keyed requests the two
  identifiers depend on the key alone, not on the fresh UUIDs, the clock or the body; the order
  and the event identifier differ; and requests with different keys have different identifiers.
  The hypothesis on \<open>uuid.NewSHA1\<close> is that it does not collide on the four names involved.
\<close>

theorem keyed_identity:
  assumes "key \<noteq> ''''" and "key' \<noteq> ''''"
    and "inj_on (h idempotencyNamespace)
      {''order:'' @ key, ''event:'' @ key, ''order:'' @ key', ''event:'' @ key'}"
  shows "(EventID (NewEvent h u v t r key) = EventID (NewEvent h u' v' t' r' key') \<longleftrightarrow> key = key') \<and>
    (OrderID (NewEvent h u v t r key) = OrderID (NewEvent h u' v' t' r' key') \<longleftrightarrow> key = key') \<and>
    OrderID (NewEvent h u v t r key) \<noteq> EventID (NewEvent h u' v' t' r' key')"
  using assms(3)
  by (simp add: NewEvent_keyed_ids[OF assms(1)] NewEvent_keyed_ids[OF assms(2)] derive_def inj_on_def) auto

lemma keyed_identity_witness:
  "EventID (NewEvent (\<lambda>_ n. n) ''u1'' ''v1'' 5 sample_request ''retry-1'') =
   EventID (NewEvent (\<lambda>_ n. n) ''u2'' ''v2'' 9 sample_request ''retry-1'')"
  using keyed_identity[of "''retry-1''" "''retry-1''" "\<lambda>_ n. n" "''u1''" "''v1''" 5 sample_request "''u2''" "''v2''" 9 sample_request]
  by (simp add: inj_on_def)

text \<open>
  \<open>ValidateIdempotencyKey\<close> accepts exactly the strings of at most 255 bytes in the range of
  visible ASCII (\<open>0x21\<close> to \<open>0x7e\<close>), the empty one included.
\<close>

theorem ValidateIdempotencyKey_correct:
  "ValidateIdempotencyKey key = None \<longleftrightarrow>
     length key \<le> 255 \<and> set key \<subseteq> {c. 0x21 \<le> (of_char c :: nat) \<and> (of_char c :: nat) \<le> 0x7e}"
  by (auto simp: ValidateIdempotencyKey_None MaxIdempotencyKeyLen_def printable_def not_less)

end
