(* ===== verification/Broker.thy ===== *)
theory Broker
  imports Order_Domain "HOL-Library.AList"
begin

text \<open>
  \<open>internal/broker\<close>: records and headers, the producer (\<open>producer.go\<close>), the dead-letter queue
  (\<open>dlq.go\<close>) and the partition assignment of a group member (\<open>consumer.go\<close>).

  The Kafka client is the \<open>franz-go\<close> package. The one call the producer makes,
  \<open>Client.ProduceSync\<close>, is the parameter \<open>produce\<close> of \<open>PublishRecord\<close>: it threads a state \<open>'k\<close> and
  returns the partition and offset, or an error. \<open>Time.Format\<close> with RFC3339Nano is the
  parameter \<open>fmt_time\<close>, \<open>json.Marshal\<close> of an event the parameter \<open>marshal\<close>; the text of a
  timestamp is never read back. \<open>NewProducer\<close>, \<open>NewConsumerGroup\<close>'s options, \<open>Ping\<close> and
  \<open>Close\<close> are client configuration and connection handling.
\<close>

section \<open>Records\<close>

type_synonym header = "string \<times> bytes"

record krec =
  Topic :: string
  Key :: bytes
  Value :: bytes
  Headers :: "header list"
  Partition :: nat
  Offset :: nat

definition HeaderReason :: string where "HeaderReason = ''dlq_reason''"
definition HeaderError :: string where "HeaderError = ''dlq_error''"
definition HeaderAttempts :: string where "HeaderAttempts = ''dlq_attempts''"
definition HeaderSourceTopic :: string where "HeaderSourceTopic = ''dlq_source_topic''"
definition HeaderSourcePartition :: string where "HeaderSourcePartition = ''dlq_source_partition''"
definition HeaderSourceOffset :: string where "HeaderSourceOffset = ''dlq_source_offset''"
definition HeaderFailedAt :: string where "HeaderFailedAt = ''dlq_failed_at''"
definition HeaderReplayCount :: string where "HeaderReplayCount = ''replay_count''"
definition HeaderReplayAt :: string where "HeaderReplayAt = ''replay_at''"
definition HeaderReplayOfPartition :: string where "HeaderReplayOfPartition = ''replay_of_dlq_partition''"
definition HeaderReplayOfOffset :: string where "HeaderReplayOfOffset = ''replay_of_dlq_offset''"

lemmas header_defs = HeaderReason_def HeaderError_def HeaderAttempts_def HeaderSourceTopic_def
  HeaderSourcePartition_def HeaderSourceOffset_def HeaderFailedAt_def HeaderReplayCount_def
  HeaderReplayAt_def HeaderReplayOfPartition_def HeaderReplayOfOffset_def

definition ReasonPoison :: string where "ReasonPoison = ''poison''"
definition ReasonRetriesExhausted :: string where "ReasonRetriesExhausted = ''retries_exhausted''"

section \<open>The producer\<close>

definition PublishRecord ::
  "(krec \<Rightarrow> 'k \<Rightarrow> (nat \<times> nat) res \<times> 'k) \<Rightarrow> string \<Rightarrow> krec \<Rightarrow> 'k \<Rightarrow> (nat \<times> nat) res \<times> 'k" where
  "PublishRecord produce topic rec k =
     (let rec' = (if Topic rec = '''' then rec\<lparr>Topic := topic\<rparr> else rec)
      in case produce rec' k of
           (Inl e, k') \<Rightarrow> (Inl (Wrapf ''produce: '' e ''''), k')
         | (Inr at, k') \<Rightarrow> (Inr at, k'))"

definition Publish ::
  "(event \<Rightarrow> bytes res) \<Rightarrow> (krec \<Rightarrow> 'k \<Rightarrow> (nat \<times> nat) res \<times> 'k) \<Rightarrow> string \<Rightarrow> string \<Rightarrow> event \<Rightarrow> 'k \<Rightarrow>
   (nat \<times> nat) res \<times> 'k" where
  "Publish marshal produce topic key v k =
     (case marshal v of
        Inl e \<Rightarrow> (Inl (Wrapf ''marshal event: '' e ''''), k)
      | Inr payload \<Rightarrow>
          PublishRecord produce topic
            \<lparr>Topic = topic, Key = key, Value = payload, Headers = [], Partition = 0, Offset = 0\<rparr> k)"

section \<open>The dead-letter queue\<close>

definition replay_header_keys :: "string list" where
  "replay_header_keys =
     [HeaderReplayCount, HeaderReplayAt, HeaderReplayOfPartition, HeaderReplayOfOffset]"

fun carryForward :: "header list \<Rightarrow> header list" where
  "carryForward [] = []"
| "carryForward (h # hs) =
     (if fst h \<in> set replay_header_keys then h # carryForward hs else carryForward hs)"

definition dead_record :: "krec \<Rightarrow> string \<Rightarrow> err \<Rightarrow> nat \<Rightarrow> string \<Rightarrow> krec" where
  "dead_record rec reason cause attempts failed_at =
     \<lparr>Topic = '''', Key = Key rec, Value = Value rec,
      Headers = carryForward (Headers rec) @
        [(HeaderReason, reason),
         (HeaderError, err_text cause),
         (HeaderAttempts, itoa (int attempts)),
         (HeaderSourceTopic, Topic rec),
         (HeaderSourcePartition, itoa (int (Partition rec))),
         (HeaderSourceOffset, itoa (int (Offset rec))),
         (HeaderFailedAt, failed_at)],
      Partition = 0, Offset = 0\<rparr>"

definition Send ::
  "(krec \<Rightarrow> 'k \<Rightarrow> (nat \<times> nat) res \<times> 'k) \<Rightarrow> (time \<Rightarrow> string) \<Rightarrow> string \<Rightarrow> time \<Rightarrow>
   krec \<Rightarrow> string \<Rightarrow> err \<Rightarrow> nat \<Rightarrow> 'k \<Rightarrow> err option \<times> 'k" where
  "Send produce fmt_time topic now rec reason cause attempts k =
     (case PublishRecord produce topic (dead_record rec reason cause attempts (fmt_time now)) k of
        (Inl e, k') \<Rightarrow> (Some (Wrapf ''publish to dlq: '' e ''''), k')
      | (Inr _, k') \<Rightarrow> (None, k'))"

lemma carryForward_filter: "carryForward hs = filter (\<lambda>h. fst h \<in> set replay_header_keys) hs"
  by (induction hs) auto

lemma carryForward_idem: "carryForward (carryForward hs) = carryForward hs"
  by (simp add: carryForward_filter)

lemma map_of_carryForward:
  "k \<in> set replay_header_keys \<Longrightarrow> map_of (carryForward hs) k = map_of hs k"
  "k \<notin> set replay_header_keys \<Longrightarrow> map_of (carryForward hs) k = None"
  by (induction hs) auto

section \<open>The assignment of a group member\<close>

text \<open>
  \<open>map[string]map[int32]bool\<close> as an association list from topics to the partitions owned. The
  maps handed to the callbacks are association lists too, in the order in which Go ranges
  over them; the laws below say that the order does not matter.
\<close>

type_synonym assignment = "(string \<times> nat list) list"

definition owned_of :: "assignment \<Rightarrow> string \<Rightarrow> nat list" where
  "owned_of a t = (case map_of a t of None \<Rightarrow> [] | Some ps \<Rightarrow> ps)"

fun add_parts :: "nat list \<Rightarrow> nat list \<Rightarrow> nat list" where
  "add_parts [] own = own"
| "add_parts (p # ps) own = add_parts ps (if p \<in> set own then own else own @ [p])"

fun asg_add :: "(string \<times> nat list) list \<Rightarrow> assignment \<Rightarrow> assignment" where
  "asg_add [] a = a"
| "asg_add ((topic, parts) # m) a =
     asg_add m (AList.update topic (add_parts parts (owned_of a topic)) a)"

fun asg_remove :: "(string \<times> nat list) list \<Rightarrow> assignment \<Rightarrow> assignment" where
  "asg_remove [] a = a"
| "asg_remove ((topic, parts) # m) a =
     (let left = filter (\<lambda>p. p \<notin> set parts) (owned_of a topic)
      in asg_remove m (if left = [] then AList.delete topic a else AList.update topic left a))"

definition asg_count :: "assignment \<Rightarrow> nat" where
  "asg_count a = sum_list (map (\<lambda>(t, ps). length ps) a)"

definition fmt_parts :: "nat list \<Rightarrow> string" where
  "fmt_parts ps = ''['' @ join '' '' (map (\<lambda>p. itoa (int p)) (sort ps)) @ '']''"

definition fmt_assignment :: "(string \<times> nat list) list \<Rightarrow> string" where
  "fmt_assignment m =
     (let ws = map (\<lambda>t. t @ '':'' @ fmt_parts (owned_of m t)) (sort (map fst m));
          out = join '' '' ws
      in if out = '''' then ''none'' else out)"

definition asg_string :: "assignment \<Rightarrow> string" where
  "asg_string a = fmt_assignment (filter (\<lambda>(t, ps). ps \<noteq> []) a)"

text \<open>The three rebalance callbacks: an empty delta changes nothing.\<close>

definition onPartitionsAssigned :: "(string \<times> nat list) list \<Rightarrow> assignment \<Rightarrow> assignment" where
  "onPartitionsAssigned assigned a = (if length assigned = 0 then a else asg_add assigned a)"

definition onPartitionsRevoked :: "(string \<times> nat list) list \<Rightarrow> assignment \<Rightarrow> assignment" where
  "onPartitionsRevoked revoked a = (if length revoked = 0 then a else asg_remove revoked a)"

definition onPartitionsLost :: "(string \<times> nat list) list \<Rightarrow> assignment \<Rightarrow> assignment" where
  "onPartitionsLost lost a = (if length lost = 0 then a else asg_remove lost a)"

subsection \<open>The assignment as a set of topic-partitions\<close>

definition delta :: "(string \<times> nat list) list \<Rightarrow> (string \<times> nat) set" where
  "delta m = (\<Union>(t, ps) \<in> set m. {t} \<times> set ps)"

definition owns :: "assignment \<Rightarrow> (string \<times> nat) set" where
  "owns a = {(t, p). p \<in> set (owned_of a t)}"

definition asg_ok :: "assignment \<Rightarrow> bool" where
  "asg_ok a \<longleftrightarrow> distinct (map fst a) \<and> (\<forall>(t, ps) \<in> set a. distinct ps)"

lemma delta_Cons [simp]: "delta ((t, ps) # m) = {t} \<times> set ps \<union> delta m"
  by (auto simp: delta_def)

lemma delta_Nil [simp]: "delta [] = {}"
  by (simp add: delta_def)

lemma set_add_parts [simp]: "set (add_parts ps own) = set ps \<union> set own"
  by (induction ps arbitrary: own) auto

lemma distinct_add_parts [simp]: "distinct own \<Longrightarrow> distinct (add_parts ps own)"
  by (induction ps arbitrary: own) auto

lemma owned_of_update: "owned_of (AList.update t ps a) t' = (if t' = t then ps else owned_of a t')"
  by (simp add: owned_of_def update_conv')

lemma owned_of_delete: "owned_of (AList.delete t a) t' = (if t' = t then [] else owned_of a t')"
  by (simp add: owned_of_def delete_conv')

lemma asg_ok_alt: "asg_ok a \<longleftrightarrow> distinct (map fst a) \<and> (\<forall>t. distinct (owned_of a t))"
proof (cases "distinct (map fst a)")
  case True
  then have "(t, ps) \<in> set a \<longleftrightarrow> map_of a t = Some ps" for t ps
    by (auto dest: map_of_SomeD)
  then have "(\<forall>(t, ps) \<in> set a. distinct ps) \<longleftrightarrow> (\<forall>t. distinct (owned_of a t))"
    by (fastforce simp: owned_of_def split: option.splits)
  with True show ?thesis by (simp add: asg_ok_def)
qed (simp add: asg_ok_def)

lemma asg_ok_Nil [simp]: "asg_ok []" "owns [] = {}"
  by (auto simp: asg_ok_def owns_def owned_of_def)

lemma asg_ok_update: "asg_ok a \<Longrightarrow> distinct ps \<Longrightarrow> asg_ok (AList.update t ps a)"
  by (auto simp: asg_ok_alt distinct_update owned_of_update)

lemma asg_ok_delete: "asg_ok a \<Longrightarrow> asg_ok (AList.delete t a)"
  by (auto simp: asg_ok_alt distinct_delete owned_of_delete)

lemma asg_add_ok: "asg_ok a \<Longrightarrow> asg_ok (asg_add m a)"
proof (induction m a rule: asg_add.induct)
  case (2 topic parts m a)
  then have "distinct (owned_of a topic)" by (simp add: asg_ok_alt)
  with 2 show ?case by (simp add: asg_ok_update)
qed simp

lemma asg_remove_ok: "asg_ok a \<Longrightarrow> asg_ok (asg_remove m a)"
proof (induction m a rule: asg_remove.induct)
  case (2 topic parts m a)
  let ?l = "filter (\<lambda>p. p \<notin> set parts) (owned_of a topic)"
  have "distinct ?l" using 2(2) by (simp add: asg_ok_alt)
  with 2 show ?case by (simp add: Let_def asg_ok_update asg_ok_delete)
qed simp

lemma owns_add: "owns (asg_add m a) = owns a \<union> delta m"
proof (induction m a rule: asg_add.induct)
  case (2 topic parts m a)
  have "owns (AList.update topic (add_parts parts (owned_of a topic)) a) = owns a \<union> {topic} \<times> set parts"
    by (auto simp: owns_def owned_of_update split: if_splits)
  with 2 show ?case by auto
qed simp

lemma owns_remove: "owns (asg_remove m a) = owns a - delta m"
proof (induction m a rule: asg_remove.induct)
  case (2 topic parts m a)
  let ?l = "filter (\<lambda>p. p \<notin> set parts) (owned_of a topic)"
  have "owns (if ?l = [] then AList.delete topic a else AList.update topic ?l a) = owns a - {topic} \<times> set parts"
    by (auto simp: owns_def owned_of_update owned_of_delete filter_empty_conv split: if_splits)
  with 2 show ?case by (auto simp: Let_def)
qed simp

lemma owned_of_Cons [simp]: "owned_of ((t, ps) # a) t' = (if t' = t then ps else owned_of a t')"
  by (simp add: owned_of_def)

lemma owns_finite: "finite (owns a)"
proof (induction a)
  case (Cons x a)
  obtain t ps where x: "x = (t, ps)" by fastforce
  have "owns (x # a) \<subseteq> {t} \<times> set ps \<union> owns a"
    by (auto simp: owns_def x split: if_splits)
  then show ?case by (rule finite_subset) (simp add: Cons)
qed simp

lemma count_card: "asg_ok a \<Longrightarrow> asg_count a = card (owns a)"
proof (induction a)
  case (Cons x a)
  obtain t ps where x: "x = (t, ps)" by fastforce
  from Cons.prems have ok: "asg_ok a" and d: "distinct ps" and t: "t \<notin> fst ` set a"
    by (auto simp: asg_ok_def x)
  from t have none: "owned_of a t = []" by (simp add: owned_of_def map_of_eq_None_iff[THEN iffD2])
  then have split: "owns (x # a) = {t} \<times> set ps \<union> owns a" "({t} \<times> set ps) \<inter> owns a = {}"
    by (auto simp: owns_def x split: if_splits)
  have "card (owns (x # a)) = card ({t} \<times> set ps) + card (owns a)"
    unfolding split(1) by (rule card_Un_disjoint) (use split(2) owns_finite in auto)
  also have "card ({t} \<times> set ps) = length ps"
    using d by (simp add: card_cartesian_product distinct_card)
  finally show ?case using Cons.IH[OF ok] by (simp add: asg_count_def x)
qed (simp add: asg_count_def)

subsection \<open>Sets of partitions as an interface\<close>

text \<open>
  The running total a group member keeps (\<open>Assignment\<close>) and the set of partitions its worker has
  paused (\<open>pausedSet\<close>) promise the same: adding and removing deltas is set union and
  difference, and the count is the size of the set.
\<close>

locale partition_set =
  fixes abs :: "'s \<Rightarrow> 'p set"
    and ok :: "'s \<Rightarrow> bool"
    and empty :: "'s"
    and add :: "'d \<Rightarrow> 's \<Rightarrow> 's"
    and count :: "'s \<Rightarrow> nat"
    and dset :: "'d \<Rightarrow> 'p set"
  assumes abs_empty: "abs empty = {}" and ok_empty: "ok empty"
    and abs_add: "abs (add d s) = abs s \<union> dset d"
    and ok_add: "ok s \<Longrightarrow> ok (add d s)"
    and count_abs: "ok s \<Longrightarrow> count s = card (abs s)"
    and finite_abs: "finite (abs s)"
begin

lemma count_empty: "count empty = 0"
  by (simp add: abs_empty ok_empty count_abs)

lemma count_zero: "ok s \<Longrightarrow> count s = 0 \<longleftrightarrow> abs s = {}"
  by (simp add: count_abs finite_abs)

lemma add_idem: "ok s \<Longrightarrow> abs (add d (add d s)) = abs (add d s) \<and> count (add d (add d s)) = count (add d s)"
  by (simp add: abs_add ok_add count_abs Un_assoc)

lemma add_commute: "ok s \<Longrightarrow> count (add d (add d' s)) = count (add d' (add d s))"
  by (simp add: abs_add ok_add count_abs Un_ac)

lemma count_add_mono: "ok s \<Longrightarrow> count s \<le> count (add d s)"
  using finite_abs[of "add d s"] by (simp add: count_abs ok_add abs_add card_mono)

end

text \<open>A set from which deltas can be taken back.\<close>

locale revocable_set = partition_set +
  fixes remove :: "'b \<Rightarrow> 'a \<Rightarrow> 'a"
  assumes abs_remove: "abs (remove d s) = abs s - dset d"
    and ok_remove: "ok s \<Longrightarrow> ok (remove d s)"
begin

lemma add_then_remove:
  "ok s \<Longrightarrow> dset d \<inter> abs s = {} \<Longrightarrow> abs (remove d (add d s)) = abs s \<and> count (remove d (add d s)) = count s"
  by (auto simp: abs_add abs_remove ok_add ok_remove count_abs Un_Diff Diff_triv inf_commute)

lemma remove_all: "ok s \<Longrightarrow> abs s \<subseteq> dset d \<Longrightarrow> count (remove d s) = 0"
  by (simp add: count_abs ok_remove abs_remove Diff_eq_empty_iff[THEN iffD2])

end

interpretation asg: revocable_set owns asg_ok "[]" asg_add asg_count delta asg_remove
  by unfold_locales
    (auto simp: owns_add owns_remove asg_add_ok asg_remove_ok count_card owns_finite)

section \<open>Properties\<close>

text \<open>The callbacks as events, and what they mean for the set.\<close>

datatype rebalance_event = Assigned "(string \<times> nat list) list" | Revoked "(string \<times> nat list) list"
  | LostParts "(string \<times> nat list) list"

fun on_event :: "rebalance_event \<Rightarrow> assignment \<Rightarrow> assignment" where
  "on_event (Assigned m) a = onPartitionsAssigned m a"
| "on_event (Revoked m) a = onPartitionsRevoked m a"
| "on_event (LostParts m) a = onPartitionsLost m a"

fun event_set :: "rebalance_event \<Rightarrow> (string \<times> nat) set \<Rightarrow> (string \<times> nat) set" where
  "event_set (Assigned m) S = S \<union> delta m"
| "event_set (Revoked m) S = S - delta m"
| "event_set (LostParts m) S = S - delta m"

lemma on_event_refines:
  "asg_ok a \<Longrightarrow> asg_ok (on_event ev a) \<and> owns (on_event ev a) = event_set ev (owns a)"
  by (cases ev)
    (auto simp: onPartitionsAssigned_def onPartitionsRevoked_def onPartitionsLost_def
      asg.ok_add asg.ok_remove asg.abs_add asg.abs_remove)

text \<open>
  C24. The assignment is the set of partitions owned, whatever deltas arrive. After any sequence of
  rebalance callbacks (an assignment adds, a revocation or a loss removes; an empty delta is
  ignored) the running total owns exactly the partitions the deltas leave, in each order in which
  Go may range over the maps, and \<open>Count\<close> is the number of those partitions.
\<close>

theorem assignment_refines_set:
  "owns (fold on_event evs []) = fold event_set evs {} \<and>
   asg_count (fold on_event evs []) = card (fold event_set evs {})"
proof -
  have "asg_ok a \<Longrightarrow> asg_ok (fold on_event evs a) \<and> owns (fold on_event evs a) = fold event_set evs (owns a)" for a
    by (induction evs arbitrary: a) (simp_all add: on_event_refines)
  from this[of "[]"] show ?thesis by (simp add: asg.count_abs)
qed

text \<open>
  The dead-letter record keeps what is needed to replay it: key and bytes are those of the
  failed record; of its headers exactly the replay provenance is carried, in order, before the
  fresh diagnosis; and parking a record again neither duplicates nor drops provenance.
\<close>

theorem dead_record_preserves:
  "Key (dead_record rec reason cause n t) = Key rec \<and> Value (dead_record rec reason cause n t) = Value rec \<and>
   carryForward (Headers (dead_record rec reason cause n t)) =
     filter (\<lambda>h. fst h \<in> {''replay_count'', ''replay_at'', ''replay_of_dlq_partition'', ''replay_of_dlq_offset''}) (Headers rec) \<and>
   map fst (drop (length (carryForward (Headers rec))) (Headers (dead_record rec reason cause n t))) =
     [''dlq_reason'', ''dlq_error'', ''dlq_attempts'', ''dlq_source_topic'', ''dlq_source_partition'',
      ''dlq_source_offset'', ''dlq_failed_at'']"
  by (simp add: dead_record_def carryForward_filter replay_header_keys_def header_defs insert_commute)

end
