(* ===== verification/Worker.thy ===== *)
theory Worker
  imports Retry Store_Errors Broker
begin

text \<open>
  \<open>cmd/worker/main.go\<close>, the processing half: \<open>handle\<close>, \<open>deadLetter\<close>, \<open>recordOutcome\<close>,
  \<open>oneByOne\<close>, \<open>processChunk\<close> and \<open>processPartition\<close>, and the set of paused partitions.

  As in the source, the worker reaches the database and the dead-letter queue through the two
  interfaces \<open>orderStore\<close> and \<open>deadLetterQueue\<close>: they are fields of the record \<open>worker\<close>, with the
  context, the clock, the random source and the timer that \<open>retry.Do\<close> uses and with
  \<open>json.Unmarshal\<close> into an event. All of them thread a state \<open>'w\<close>. The state of the worker's
  own code is \<open>'w st\<close>: that state, the counters, and the variables \<open>attempts\<close> and \<open>inserted\<close> which
  the closures given to \<open>retry.Do\<close> capture.

  \<^const>\<open>None\<close> is a call that does not return; \<open>Panic\<close> is a run-time panic. Log lines and
  Prometheus observations (and the clock readings that only feed them) have no effect on this
  state and are left out.

  The locale \<open>worker_deps\<close> states what the collaborators promise and proves, once, what the
  worker's code makes of it; \<open>Pipeline\<close> interprets it on the store and the queue.
\<close>

section \<open>State and collaborators\<close>

record counters =
  processed :: nat
  duplicates :: nat
  retries :: nat
  dlq :: nat
  paused :: nat
  resumed :: nat

definition zero_counters :: counters where
  "zero_counters =
     \<lparr>processed = 0, duplicates = 0, retries = 0, dlq = 0, paused = 0, resumed = 0\<rparr>"

record 'w st =
  world :: 'w
  cnt :: counters
  attempts :: nat
  inserted :: "string list"

record 'w worker =
  insertOrder :: "event \<Rightarrow> 'w \<Rightarrow> bool res \<times> 'w"
  insertOrders :: "event list \<Rightarrow> 'w \<Rightarrow> string list res \<times> 'w"
  dlqSend :: "krec \<Rightarrow> string \<Rightarrow> err \<Rightarrow> nat \<Rightarrow> 'w \<Rightarrow> err option \<times> 'w"
  unmarshal :: "bytes \<Rightarrow> event res"
  policy :: retry_policy
  batchSize :: int
  wCtxErr :: "'w \<Rightarrow> bool \<times> 'w"
  wNow :: "'w \<Rightarrow> time \<times> 'w"
  wRand :: "nat \<Rightarrow> 'w \<Rightarrow> nat \<times> 'w"
  wWait :: "nat \<Rightarrow> 'w \<Rightarrow> bool \<times> 'w"

datatype 'a go = Val 'a | Panic

definition lift :: "('w \<Rightarrow> 'a \<times> 'w) \<Rightarrow> 'w st \<Rightarrow> 'a \<times> 'w st" where
  "lift f s = (case f (world s) of (a, w) \<Rightarrow> (a, s\<lparr>world := w\<rparr>))"

section \<open>One record\<close>

definition recordOutcome :: "bool \<Rightarrow> 'w st \<Rightarrow> 'w st" where
  "recordOutcome new s =
     (if new then s\<lparr>cnt := (cnt s)\<lparr>processed := processed (cnt s) + 1\<rparr>\<rparr>
      else s\<lparr>cnt := (cnt s)\<lparr>duplicates := duplicates (cnt s) + 1\<rparr>\<rparr>)"

definition logRetry :: "nat \<Rightarrow> nat \<Rightarrow> err \<Rightarrow> 'w st \<Rightarrow> 'w st" where
  "logRetry attempt delay e s = s\<lparr>cnt := (cnt s)\<lparr>retries := retries (cnt s) + 1\<rparr>\<rparr>"

definition deadLetter :: "'w worker \<Rightarrow> krec \<Rightarrow> string \<Rightarrow> err \<Rightarrow> nat \<Rightarrow> 'w st \<Rightarrow> bool \<times> 'w st" where
  "deadLetter W rec reason cause n s =
     (case lift (dlqSend W rec reason cause n) s of
        (Some e, s1) \<Rightarrow> (False, s1)
      | (None, s1) \<Rightarrow> (True, s1\<lparr>cnt := (cnt s1)\<lparr>dlq := dlq (cnt s1) + 1\<rparr>\<rparr>))"

definition retry_with :: "'w worker \<Rightarrow> ('w st \<Rightarrow> err option \<times> 'w st) \<Rightarrow> 'w st retry_ops" where
  "retry_with W f =
     \<lparr>fn = f, ctxErr = lift (wCtxErr W), timeNow = lift (wNow W), int64N = (\<lambda>n. lift (wRand W n)),
      waitTimer = (\<lambda>d. lift (wWait W d)), onRetry = logRetry\<rparr>"

definition insert_one :: "'w worker \<Rightarrow> event \<Rightarrow> 'w st \<Rightarrow> err option \<times> 'w st" where
  "insert_one W evt s =
     (case lift (insertOrder W evt) (s\<lparr>attempts := attempts s + 1\<rparr>) of
        (Inl e, s1) \<Rightarrow> (Some e, s1)
      | (Inr new, s1) \<Rightarrow> (None, recordOutcome new s1))"

definition retryable :: "err \<Rightarrow> bool" where
  "retryable e = IsRetryable (Some e)"

definition handle :: "'w worker \<Rightarrow> krec \<Rightarrow> 'w st \<Rightarrow> (bool \<times> 'w st) option" where
  "handle W rec s =
     (case unmarshal W (Value rec) of
        Inl e \<Rightarrow> Some (deadLetter W rec ReasonPoison e 0 s)
      | Inr evt \<Rightarrow>
          (case Do (retry_with W (insert_one W evt)) (policy W) retryable (s\<lparr>attempts := 0\<rparr>) of
             None \<Rightarrow> None
           | Some (None, s1) \<Rightarrow> Some (True, s1)
           | Some (Some e, s1) \<Rightarrow>
               (case lift (wCtxErr W) s1 of (cancelled, s2) \<Rightarrow>
                  if cancelled then Some (False, s2)
                  else
                    let reason = (if \<not> retryable e then ReasonPoison else ReasonRetriesExhausted)
                    in Some (deadLetter W rec reason e (attempts s2) s2))))"

section \<open>A chunk\<close>

fun oneByOne :: "'w worker \<Rightarrow> krec option \<Rightarrow> krec list \<Rightarrow> 'w st \<Rightarrow> ((krec option \<times> bool) \<times> 'w st) option" where
  "oneByOne W lst [] s = Some ((lst, False), s)"
| "oneByOne W lst (rec # recs) s =
     (case handle W rec s of
        None \<Rightarrow> None
      | Some (ok, s1) \<Rightarrow>
          if \<not> ok then Some ((lst, True), s1) else oneByOne W (Some rec) recs s1)"

fun unmarshal_all :: "'w worker \<Rightarrow> krec list \<Rightarrow> event list option" where
  "unmarshal_all W [] = Some []"
| "unmarshal_all W (rec # recs) =
     (case unmarshal W (Value rec) of
        Inl e \<Rightarrow> None
      | Inr evt \<Rightarrow> map_option (\<lambda>es. evt # es) (unmarshal_all W recs))"

definition insert_batch :: "'w worker \<Rightarrow> event list \<Rightarrow> 'w st \<Rightarrow> err option \<times> 'w st" where
  "insert_batch W evts s =
     (case lift (insertOrders W evts) (s\<lparr>attempts := attempts s + 1\<rparr>) of
        (Inl e, s1) \<Rightarrow> (Some e, s1\<lparr>inserted := []\<rparr>)
      | (Inr ids, s1) \<Rightarrow> (None, s1\<lparr>inserted := ids\<rparr>))"

fun record_outcomes :: "event list \<Rightarrow> 'w st \<Rightarrow> 'w st" where
  "record_outcomes [] s = s"
| "record_outcomes (evt # evts) s =
     record_outcomes evts (recordOutcome (EventID evt \<in> set (inserted s)) s)"

definition processChunk :: "'w worker \<Rightarrow> krec list \<Rightarrow> 'w st \<Rightarrow> ((krec option \<times> bool) go \<times> 'w st) option" where
  "processChunk W chunk s =
     (case chunk of
        [rec] \<Rightarrow>
          (case handle W rec s of
             None \<Rightarrow> None
           | Some (ok, s1) \<Rightarrow> Some (Val (if \<not> ok then (None, True) else (Some rec, False)), s1))
      | _ \<Rightarrow>
          (case unmarshal_all W chunk of
             None \<Rightarrow> map_option (map_prod Val id) (oneByOne W None chunk s)
           | Some evts \<Rightarrow>
               (case Do (retry_with W (insert_batch W evts)) (policy W) retryable
                       (s\<lparr>attempts := 0, inserted := []\<rparr>) of
                  None \<Rightarrow> None
                | Some (Some e, s1) \<Rightarrow>
                    (case lift (wCtxErr W) s1 of (cancelled, s2) \<Rightarrow>
                       if cancelled then Some (Val (None, True), s2)
                       else map_option (map_prod Val id) (oneByOne W None chunk s2))
                | Some (None, s1) \<Rightarrow>
                    Some (if chunk = [] then Panic else Val (Some (last chunk), False),
                          record_outcomes evts s1))))"

section \<open>A partition\<close>

text \<open>
  The loop over \<open>start\<close>, as recursion on the records from \<open>start\<close> on. With a batch size below 1
  the source panics: at a size of 0 the chunk is empty, its insert of no rows succeeds and
  \<open>chunk[len(chunk)-1]\<close> is out of range; at a negative size the slice bounds are reversed.
\<close>

function process_from ::
  "'w worker \<Rightarrow> krec option \<Rightarrow> krec list \<Rightarrow> 'w st \<Rightarrow> ((krec option \<times> bool) go \<times> 'w st) option" where
  "process_from W lst recs s =
     (if recs = [] then Some (Val (lst, False), s)
      else
        (case lift (wCtxErr W) s of (cancelled, s1) \<Rightarrow>
           if cancelled then Some (Val (lst, False), s1)
           else if batchSize W < 1 then Some (Panic, s1)
           else
             (case processChunk W (take (nat (batchSize W)) recs) s1 of
                None \<Rightarrow> None
              | Some (Panic, s2) \<Rightarrow> Some (Panic, s2)
              | Some (Val (finished, stall), s2) \<Rightarrow>
                  let lst' = (if finished \<noteq> None then finished else lst)
                  in if stall then Some (Val (lst', True), s2)
                     else process_from W lst' (drop (nat (batchSize W)) recs) s2)))"
  by pat_completeness auto
termination
  by (relation "measure (\<lambda>(W, lst, recs, s). length recs)") auto

declare process_from.simps [simp del]

definition processPartition :: "'w worker \<Rightarrow> krec list \<Rightarrow> 'w st \<Rightarrow> ((krec option \<times> bool) go \<times> 'w st) option" where
  "processPartition W recs s = process_from W None recs s"

section \<open>Paused partitions\<close>

type_synonym pausedSet = "nat list"

definition newPausedSet :: pausedSet where "newPausedSet = []"

fun paused_add :: "nat list \<Rightarrow> pausedSet \<Rightarrow> pausedSet" where
  "paused_add [] s = s"
| "paused_add (p # ps) s = paused_add ps (if p \<in> set s then s else s @ [p])"

definition paused_take :: "pausedSet \<Rightarrow> nat list \<times> pausedSet" where
  "paused_take s = (if length s = 0 then ([], s) else (s, []))"

definition paused_count :: "pausedSet \<Rightarrow> nat" where
  "paused_count s = length s"

lemma set_paused_add: "set (paused_add ps s) = set s \<union> set ps"
  by (induction ps arbitrary: s) auto

lemma distinct_paused_add: "distinct s \<Longrightarrow> distinct (paused_add ps s)"
  by (induction ps arbitrary: s) auto

interpretation pset: partition_set set distinct newPausedSet paused_add paused_count set
  by unfold_locales
    (auto simp: newPausedSet_def set_paused_add distinct_paused_add paused_count_def distinct_card)

lemma paused_take_all: "paused_take s = (ps, s') \<Longrightarrow> ps = s \<and> s' = []"
  by (auto simp: paused_take_def split: if_splits)

section \<open>Frame and unfolding lemmas\<close>

lemma world_counters [simp]:
  "world (recordOutcome new s) = world s" "world (logRetry n d e s) = world s"
  by (simp_all add: recordOutcome_def logRetry_def)

lemma world_record_outcomes [simp]: "world (record_outcomes evts s) = world s"
  by (induction evts s rule: record_outcomes.induct) auto

lemma process_from_Nil [simp]: "process_from W lst [] s = Some (Val (lst, False), s)"
  by (simp add: process_from.simps)

lemma process_from_step:
  assumes "recs \<noteq> []" and "lift (wCtxErr W) s = (c, s1)" and "1 \<le> batchSize W"
  shows "process_from W lst recs s =
    (if c then Some (Val (lst, False), s1)
     else case processChunk W (take (nat (batchSize W)) recs) s1 of
            None \<Rightarrow> None
          | Some (Panic, s2) \<Rightarrow> Some (Panic, s2)
          | Some (Val (l, b), s2) \<Rightarrow>
              if b then Some (Val (if l \<noteq> None then l else lst, True), s2)
              else process_from W (if l \<noteq> None then l else lst) (drop (nat (batchSize W)) recs) s2)"
  using assms by (subst process_from.simps) (auto simp: Let_def split: option.splits go.splits)

text \<open>A chunk of one record, and a chunk of several.\<close>

lemma processChunk_single:
  "processChunk W [rec] s =
     (case handle W rec s of
        None \<Rightarrow> None
      | Some (ok, s1) \<Rightarrow> Some (Val (if ok then (Some rec, False) else (None, True)), s1))"
  by (simp add: processChunk_def split: option.splits)

lemma processChunk_many:
  assumes "length chunk > 1"
  shows "processChunk W chunk s =
     (case unmarshal_all W chunk of
        None \<Rightarrow> map_option (map_prod Val id) (oneByOne W None chunk s)
      | Some evts \<Rightarrow>
          (case Do (retry_with W (insert_batch W evts)) (policy W) retryable
                  (s\<lparr>attempts := 0, inserted := []\<rparr>) of
             None \<Rightarrow> None
           | Some (Some e, s1) \<Rightarrow>
               (case lift (wCtxErr W) s1 of (cancelled, s2) \<Rightarrow>
                  if cancelled then Some (Val (None, True), s2)
                  else map_option (map_prod Val id) (oneByOne W None chunk s2))
           | Some (None, s1) \<Rightarrow> Some (Val (Some (last chunk), False), record_outcomes evts s1)))"
proof -
  obtain a b cs where c: "chunk = a # b # cs"
    using assms by (cases chunk; cases "tl chunk") auto
  show ?thesis unfolding c processChunk_def by simp
qed

section \<open>What the worker makes of its collaborators' promises\<close>

text \<open>
  \<open>inv\<close> holds of the collaborators' state, \<open>le\<close> is the order in which that state grows,
  \<open>persisted\<close> and \<open>parked\<close> are the two durable outcomes of a record: its event is in the
  database, or the record is in the dead-letter queue with a reason. \<open>stopped\<close> says that the
  work context is cancelled, which is permanent.
\<close>

locale worker_deps =
  fixes W :: "'w worker"
    and inv :: "'w \<Rightarrow> bool"
    and le :: "'w \<Rightarrow> 'w \<Rightarrow> bool"
    and persisted :: "event \<Rightarrow> 'w \<Rightarrow> bool"
    and parked :: "krec \<Rightarrow> string \<Rightarrow> 'w \<Rightarrow> bool"
    and stopped :: "'w \<Rightarrow> bool"
  assumes le_refl: "le w w"
    and le_trans: "le w w1 \<Longrightarrow> le w1 w2 \<Longrightarrow> le w w2"
    and persisted_mono: "le w w' \<Longrightarrow> persisted e w \<Longrightarrow> persisted e w'"
    and parked_mono: "le w w' \<Longrightarrow> parked rec reason w \<Longrightarrow> parked rec reason w'"
    and insertOrder_law: "inv w \<Longrightarrow> insertOrder W evt w = (r, w') \<Longrightarrow>
        inv w' \<and> le w w' \<and> (\<forall>new. r = Inr new \<longrightarrow> persisted evt w')"
    and insertOrders_law: "inv w \<Longrightarrow> insertOrders W evts w = (r', w') \<Longrightarrow>
        inv w' \<and> le w w' \<and> (\<forall>ids. r' = Inr ids \<longrightarrow> (\<forall>e \<in> set evts. persisted e w'))"
    and dlqSend_law: "inv w \<Longrightarrow> dlqSend W rec reason cause n w = (x, w') \<Longrightarrow>
        inv w' \<and> le w w' \<and> (x = None \<longrightarrow> parked rec reason w')"
    and ctx_law: "inv w \<Longrightarrow> wCtxErr W w = (c, w') \<Longrightarrow> inv w' \<and> le w w'"
    and ctx_stopped: "wCtxErr W w = (c, w') \<Longrightarrow> c = stopped w'"
    and stopped_mono: "le w w' \<Longrightarrow> stopped w \<Longrightarrow> stopped w'"
    and now_law: "inv w \<Longrightarrow> wNow W w = (t, w') \<Longrightarrow> inv w' \<and> le w w'"
    and rand_law: "inv w \<Longrightarrow> wRand W k w = (d, w') \<Longrightarrow> inv w' \<and> le w w'"
    and wait_law: "inv w \<Longrightarrow> wWait W d w = (c, w') \<Longrightarrow> inv w' \<and> le w w'"
begin

definition accounted :: "krec \<Rightarrow> 'w \<Rightarrow> bool" where
  "accounted rec w =
     (case unmarshal W (Value rec) of
        Inl _ \<Rightarrow> parked rec ReasonPoison w
      | Inr evt \<Rightarrow> persisted evt w \<or> parked rec ReasonPoison w \<or> parked rec ReasonRetriesExhausted w)"

lemma accounted_mono: "le w w' \<Longrightarrow> accounted rec w \<Longrightarrow> accounted rec w'"
  by (auto simp: accounted_def split: sum.splits dest: persisted_mono parked_mono)

text \<open>The state of the worker grew from \<open>w0\<close> and keeps the invariant.\<close>

definition grown :: "'w \<Rightarrow> 'w st \<Rightarrow> bool" where
  "grown w0 s = (inv (world s) \<and> le w0 (world s))"

lemma grown_refl: "inv (world s) \<Longrightarrow> grown (world s) s"
  by (simp add: grown_def le_refl)

lemma grown_trans: "grown w0 s \<Longrightarrow> grown (world s) s' \<Longrightarrow> grown w0 s'"
  by (auto simp: grown_def intro: le_trans)

lemma grown_counters [simp]:
  "grown w0 (recordOutcome new s) = grown w0 s" "grown w0 (logRetry n d e s) = grown w0 s"
  "world (recordOutcome new s) = world s" "world (logRetry n d e s) = world s"
  by (simp_all add: grown_def recordOutcome_def logRetry_def)

lemma lift_grown:
  assumes "grown w0 s" and "lift f s = (a, s')"
    and "\<And>w'. f (world s) = (a, w') \<Longrightarrow> inv w' \<and> le (world s) w' \<and> P w'"
  shows "grown w0 s' \<and> P (world s')"
  using assms by (auto simp: lift_def grown_def split: prod.splits intro: le_trans)

lemma op_grown:
  assumes "grown w0 s" and "lift f s = (a, s')"
    and "\<And>w w'. inv w \<Longrightarrow> f w = (a, w') \<Longrightarrow> inv w' \<and> le w w'"
  shows "grown w0 s'"
proof -
  have "grown w0 s' \<and> True"
    using assms(1,3) by (intro lift_grown[OF assms(1,2)]) (metis grown_def)
  then show ?thesis by simp
qed

lemma ctx_grown: "grown w0 s \<Longrightarrow> lift (wCtxErr W) s = (c, s') \<Longrightarrow> grown w0 s'"
  by (erule (1) op_grown) (rule ctx_law)

lemma now_grown: "grown w0 s \<Longrightarrow> lift (wNow W) s = (c, s') \<Longrightarrow> grown w0 s'"
  by (erule (1) op_grown) (rule now_law)

lemma rand_grown: "grown w0 s \<Longrightarrow> lift (wRand W k) s = (c, s') \<Longrightarrow> grown w0 s'"
  by (erule (1) op_grown) (rule rand_law)

lemma wait_grown: "grown w0 s \<Longrightarrow> lift (wWait W d) s = (c, s') \<Longrightarrow> grown w0 s'"
  by (erule (1) op_grown) (rule wait_law)

text \<open>Every closure the worker gives to \<open>retry.Do\<close> that grows the state is a client of it.\<close>

lemma retry_with_client:
  assumes "\<And>s s'. grown w0 s \<Longrightarrow> f s = (None, s') \<Longrightarrow> grown w0 s' \<and> Q s'"
    and "\<And>s s' e. grown w0 s \<Longrightarrow> f s = (Some e, s') \<Longrightarrow> grown w0 s'"
  shows "retry_client (retry_with W f) (grown w0) Q (\<lambda>e s. True)"
  by unfold_locales
    (auto simp: retry_with_def dest: assms ctx_grown now_grown rand_grown wait_grown)

lemma Do_grown:
  assumes "Do (retry_with W f) p ret s = Some (r, s')" and "grown w0 s"
    and "\<And>s s'. grown w0 s \<Longrightarrow> f s = (None, s') \<Longrightarrow> grown w0 s' \<and> Q s'"
    and "\<And>s s' e. grown w0 s \<Longrightarrow> f s = (Some e, s') \<Longrightarrow> grown w0 s'"
  shows "grown w0 s' \<and> (r = None \<longrightarrow> Q s')"
  using retry_client.Do_outcome[OF retry_with_client[OF assms(3,4)] assms(1,2)]
  by (auto simp: retry_client.outcome_def[OF retry_with_client[OF assms(3,4)]] split: option.splits)

lemma insert_one_grown:
  assumes "grown w0 s" and "insert_one W evt s = (r, s')"
  shows "grown w0 s' \<and> (r = None \<longrightarrow> persisted evt (world s'))"
proof -
  let ?s = "s\<lparr>attempts := attempts s + 1\<rparr>"
  obtain x s1 where x: "lift (insertOrder W evt) ?s = (x, s1)" by fastforce
  have "grown w0 s1 \<and> (\<forall>new. x = Inr new \<longrightarrow> persisted evt (world s1))"
    by (rule lift_grown[OF _ x]) (use assms(1) insertOrder_law in \<open>auto simp: grown_def\<close>)
  with assms(2) x show ?thesis by (auto simp: insert_one_def split: sum.splits)
qed

lemma insert_batch_grown:
  assumes "grown w0 s" and "insert_batch W evts s = (r, s')"
  shows "grown w0 s' \<and> (r = None \<longrightarrow> (\<forall>e \<in> set evts. persisted e (world s')))"
proof -
  let ?s = "s\<lparr>attempts := attempts s + 1\<rparr>"
  obtain x s1 where x: "lift (insertOrders W evts) ?s = (x, s1)" by fastforce
  have "grown w0 s1 \<and> (\<forall>ids. x = Inr ids \<longrightarrow> (\<forall>e \<in> set evts. persisted e (world s1)))"
    by (rule lift_grown[OF _ x]) (use assms(1) insertOrders_law in \<open>auto simp: grown_def\<close>)
  with assms(2) x show ?thesis by (auto simp: insert_batch_def grown_def split: sum.splits)
qed

lemma deadLetter_grown:
  assumes "grown w0 s" and "deadLetter W rec reason cause n s = (ok, s')"
  shows "grown w0 s' \<and> (ok \<longrightarrow> parked rec reason (world s'))"
proof -
  obtain x s1 where x: "lift (dlqSend W rec reason cause n) s = (x, s1)" by fastforce
  have "grown w0 s1 \<and> (x = None \<longrightarrow> parked rec reason (world s1))"
    by (rule lift_grown[OF assms(1) x]) (use assms(1) dlqSend_law in \<open>auto simp: grown_def\<close>)
  with assms(2) x show ?thesis by (auto simp: deadLetter_def grown_def split: option.splits)
qed

lemma handle_grown:
  assumes "grown w0 s" and "handle W rec s = Some (ok, s')"
  shows "grown w0 s' \<and> (ok \<longrightarrow> accounted rec (world s'))"
proof (cases "unmarshal W (Value rec)")
  case (Inl e)
  with assms deadLetter_grown[OF assms(1)] show ?thesis
    by (auto simp: handle_def accounted_def)
next
  case (Inr evt)
  let ?f = "insert_one W evt"
  from assms(2) Inr obtain r s1 where
    d: "Do (retry_with W ?f) (policy W) retryable (s\<lparr>attempts := 0\<rparr>) = Some (r, s1)"
    by (auto simp: handle_def split: option.splits)
  have "grown w0 (s\<lparr>attempts := 0\<rparr>)" using assms(1) by (simp add: grown_def)
  from Do_grown[OF d this, of "\<lambda>s. persisted evt (world s)"] insert_one_grown
  have g: "grown w0 s1 \<and> (r = None \<longrightarrow> persisted evt (world s1))" by blast
  show ?thesis
  proof (cases r)
    case None
    with assms(2) Inr d g show ?thesis by (auto simp: handle_def accounted_def)
  next
    case (Some e)
    obtain c s2 where c: "lift (wCtxErr W) s1 = (c, s2)" by fastforce
    then have g2: "grown w0 s2" using g ctx_grown by blast
    show ?thesis
    proof (cases c)
      case True
      with assms(2) Inr d Some c g2 show ?thesis by (auto simp: handle_def)
    next
      case False
      then show ?thesis using assms(2) Inr d Some c deadLetter_grown[OF g2]
        by (auto simp: handle_def accounted_def Let_def split: if_splits)
    qed
  qed
qed

text \<open>
  The result of a list of records: a prefix is accounted for, its last record is what is
  returned (\<open>lst\<close> if the prefix is empty), and the rest is not empty if the partition must stop.
\<close>

definition progress :: "krec option \<Rightarrow> krec list \<Rightarrow> 'w \<Rightarrow> krec option \<Rightarrow> krec list \<Rightarrow> bool" where
  "progress lst recs w l rest =
     (\<exists>ds. recs = ds @ rest \<and> (\<forall>r \<in> set ds. accounted r w) \<and> l = (if ds = [] then lst else Some (last ds)))"

lemma progress_none: "progress lst recs w lst recs"
  by (simp add: progress_def)

lemma progress_all: "(\<forall>r \<in> set recs. accounted r w) \<Longrightarrow> recs \<noteq> [] \<Longrightarrow> progress lst recs w (Some (last recs)) []"
  by (simp add: progress_def)

lemma progress_append:
  assumes "progress lst xs w l []" and "progress l ys w' l' rest" and "le w w'"
  shows "progress lst (xs @ ys) w' l' rest"
  using assms accounted_mono[OF assms(3)]
  by (auto simp: progress_def split: if_splits intro!: exI[of _ "xs @ ds" for ds])

lemma progress_mono:
  assumes "progress lst xs w l rest" and "le w w'"
  shows "progress lst xs w' l rest"
  using assms accounted_mono[OF assms(2)] unfolding progress_def by blast

lemma progress_more: "progress lst xs w l rest \<Longrightarrow> progress lst (xs @ ys) w l (rest @ ys)"
  by (auto simp: progress_def)

lemma oneByOne_grown:
  "grown w0 s \<Longrightarrow> oneByOne W lst recs s = Some ((l, b), s') \<Longrightarrow>
   grown w0 s' \<and> (\<exists>rest. progress lst recs (world s') l rest \<and> (b \<longleftrightarrow> rest \<noteq> []))"
proof (induction recs arbitrary: lst s w0)
  case Nil
  then show ?case by (auto intro: progress_none)
next
  case (Cons rec recs)
  from Cons.prems(2) obtain ok s1 where h: "handle W rec s = Some (ok, s1)"
    by (auto split: option.splits)
  from handle_grown[OF Cons.prems(1) h] have g: "grown w0 s1" "ok \<longrightarrow> accounted rec (world s1)" by auto
  show ?case
  proof (cases ok)
    case False
    with Cons.prems(2) h g show ?thesis by (auto intro!: exI[of _ "rec # recs"] progress_none)
  next
    case True
    with Cons.prems(2) h have o: "oneByOne W (Some rec) recs s1 = Some ((l, b), s')" by simp
    have "grown (world s1) s1" using g(1) by (simp add: grown_def le_refl)
    from Cons.IH[OF this o] obtain rest where
      r: "grown (world s1) s'" "progress (Some rec) recs (world s') l rest" "b \<longleftrightarrow> rest \<noteq> []" by blast
    have "progress lst [rec] (world s1) (Some rec) []"
      using g(2) True by (simp add: progress_def)
    from progress_append[OF this r(2)] r(1) have "progress lst ([rec] @ recs) (world s') l rest"
      by (simp add: grown_def)
    with r(1,3) g(1) show ?thesis by (auto intro: grown_trans)
  qed
qed

lemma unmarshal_all_Some:
  "unmarshal_all W recs = Some evts \<Longrightarrow>
   length evts = length recs \<and> (\<forall>r \<in> set recs. \<exists>e \<in> set evts. unmarshal W (Value r) = Inr e)"
  by (induction recs arbitrary: evts) (auto split: sum.splits)

lemma processChunk_grown:
  assumes g0: "grown w0 s" and ret: "processChunk W chunk s = Some (x, s')" and ne: "chunk \<noteq> []"
  shows "\<exists>l b rest. x = Val (l, b) \<and> grown w0 s' \<and> progress None chunk (world s') l rest \<and> (b \<longleftrightarrow> rest \<noteq> [])"
proof (cases "length chunk > 1")
  case False
  with ne obtain rec where c: "chunk = [rec]" by (cases chunk) auto
  with ret obtain ok where h: "handle W rec s = Some (ok, s')"
    and x: "x = Val (if ok then (Some rec, False) else (None, True))"
    by (auto simp: processChunk_single split: option.splits)
  have g: "grown w0 s'" "ok \<longrightarrow> accounted rec (world s')" using handle_grown[OF g0 h] by auto
  show ?thesis
  proof (cases ok)
    case True
    with g have "progress None chunk (world s') (Some rec) []" by (simp add: progress_def c)
    with True x g(1) show ?thesis by auto
  next
    case False
    with x g(1) ne progress_none[of None chunk "world s'"] show ?thesis by auto
  qed
next
  case many: True
  note eq = ret[unfolded processChunk_many[OF many]]
  have fall: ?thesis if "grown w0 s1" and "map_option (map_prod Val id) (oneByOne W None chunk s1) = Some (x, s')" for s1
  proof -
    from that(2) obtain l b where o: "oneByOne W None chunk s1 = Some ((l, b), s')" and "x = Val (l, b)"
      by (auto simp: map_prod_def)
    with oneByOne_grown[OF that(1) o] show ?thesis by blast
  qed
  show ?thesis
  proof (cases "unmarshal_all W chunk")
    case None
    with eq fall[OF g0] show ?thesis by simp
  next
    case evts: (Some evts)
    let ?s = "s\<lparr>attempts := 0, inserted := []\<rparr>"
    from eq evts obtain r s1 where
      d: "Do (retry_with W (insert_batch W evts)) (policy W) retryable ?s = Some (r, s1)"
      by (auto split: option.splits)
    have "grown w0 ?s" using g0 by (simp add: grown_def)
    from Do_grown[OF d this, of "\<lambda>s. \<forall>e \<in> set evts. persisted e (world s)"] insert_batch_grown
    have g: "grown w0 s1 \<and> (r = None \<longrightarrow> (\<forall>e \<in> set evts. persisted e (world s1)))" by blast
    show ?thesis
    proof (cases r)
      case None
      with eq evts d have x: "x = Val (Some (last chunk), False)" "s' = record_outcomes evts s1"
        by auto
      have "\<forall>r \<in> set chunk. accounted r (world s1)"
        using unmarshal_all_Some[OF evts] g None by (fastforce simp: accounted_def)
      with x g progress_all[OF _ ne, of "world s1" None] show ?thesis by (auto simp: grown_def)
    next
      case (Some e)
      obtain c s2 where c: "lift (wCtxErr W) s1 = (c, s2)" by fastforce
      with g ctx_grown have g2: "grown w0 s2" by blast
      show ?thesis
      proof (cases c)
        case True
        with eq evts d Some c have "x = Val (None, True)" "s' = s2" by auto
        with g2 ne progress_none show ?thesis by blast
      next
        case False
        with eq evts d Some c fall[OF g2] show ?thesis by simp
      qed
    qed
  qed
qed

lemma progress_rebase:
  assumes "progress None xs w l rest"
  shows "progress lst xs w (if l \<noteq> None then l else lst) rest"
  using assms by (auto simp: progress_def split: if_splits)

lemma process_from_grown:
  assumes "1 \<le> batchSize W"
  shows "grown w0 s \<Longrightarrow> process_from W lst recs s = Some (x, s') \<Longrightarrow>
    \<exists>l b rest. x = Val (l, b) \<and> grown w0 s' \<and> progress lst recs (world s') l rest \<and>
      (b \<longrightarrow> rest \<noteq> []) \<and> (\<not> b \<longrightarrow> rest \<noteq> [] \<longrightarrow> stopped (world s'))"
proof (induction recs arbitrary: lst s w0 rule: length_induct)
  case (1 recs)
  let ?n = "nat (batchSize W)"
  show ?case
  proof (cases "recs = []")
    case True
    with "1.prems" show ?thesis by (auto intro: progress_none)
  next
    case ne: False
    obtain c s1 where c: "lift (wCtxErr W) s = (c, s1)" by fastforce
    note eq = "1.prems"(2)[unfolded process_from_step[OF ne c assms]]
    from "1.prems"(1) c ctx_grown have g1: "grown w0 s1" by blast
    show ?thesis
    proof (cases c)
      case True
      with eq have "x = Val (lst, False)" "s' = s1" by auto
      moreover have "stopped (world s1)"
        using c True ctx_stopped by (auto simp: lift_def split: prod.splits)
      ultimately show ?thesis using g1 progress_none by blast
    next
      case False
      have tne: "take ?n recs \<noteq> []" using ne assms by simp
      obtain y s2 where pc: "processChunk W (take ?n recs) s1 = Some (y, s2)"
        using eq False by (auto split: option.splits)
      from processChunk_grown[OF g1 pc tne] obtain l1 b1 rest1 where
        y: "y = Val (l1, b1)" "grown w0 s2" "progress None (take ?n recs) (world s2) l1 rest1" "b1 \<longleftrightarrow> rest1 \<noteq> []"
        by blast
      let ?l = "if l1 \<noteq> None then l1 else lst"
      have p1: "progress lst (take ?n recs) (world s2) ?l rest1" by (rule progress_rebase[OF y(3)])
      show ?thesis
      proof (cases b1)
        case True
        with eq False pc y(1) have x: "x = Val (?l, True)" "s' = s2" by auto
        have "progress lst recs (world s2) ?l (rest1 @ drop ?n recs)"
          using progress_more[OF p1, of "drop ?n recs"] by simp
        with x y(2,4) True show ?thesis by blast
      next
        case nb: False
        with eq False pc y(1) have rec: "process_from W ?l (drop ?n recs) s2 = Some (x, s')" by simp
        have shorter: "length (drop ?n recs) < length recs" using ne assms by simp
        have g2: "grown (world s2) s2" using y(2) by (simp add: grown_def le_refl)
        obtain l b rest where ih: "x = Val (l, b)" "grown (world s2) s'"
          "progress ?l (drop ?n recs) (world s') l rest"
          "b \<longrightarrow> rest \<noteq> []" "\<not> b \<longrightarrow> rest \<noteq> [] \<longrightarrow> stopped (world s')"
          using "1.IH"[rule_format, OF shorter g2 rec] by blast
        have "progress lst (take ?n recs @ drop ?n recs) (world s') l rest"
          by (rule progress_append[OF _ ih(3)]) (use p1 nb y(4) ih(2) in \<open>auto simp: grown_def\<close>)
        with ih grown_trans[OF y(2)] show ?thesis by auto
      qed
    qed
  qed
qed

text \<open>Once the work context is cancelled, nothing more is accounted for or committed.\<close>

lemma process_from_cancelled:
  assumes "stopped (world s)" and "inv (world s)" and "recs \<noteq> []"
  shows "\<exists>s'. process_from W lst recs s = Some (Val (lst, False), s')"
proof -
  obtain c s1 where c: "lift (wCtxErr W) s = (c, s1)" by fastforce
  then obtain w1 where "wCtxErr W (world s) = (c, w1)" by (auto simp: lift_def split: prod.splits)
  then have c by (metis assms(1,2) ctx_law ctx_stopped stopped_mono)
  with c assms(3) show ?thesis by (subst process_from.simps) simp
qed

end

end
