(* ===== verification/Store.thy ===== *)
theory Store
  imports Order_Domain Store_Errors
begin

text \<open>
  \<open>internal/store/store.go\<close> and \<open>schema.sql\<close>: the orders table and the two idempotent writes.

  The table is the list of its rows. Its two constraints are the invariant \<open>table_ok\<close>, and the
  statement \<open>INSERT \<dots> ON CONFLICT (event_id) DO NOTHING\<close> is \<open>insert_row\<close>: a row whose
  \<open>event_id\<close> exists is skipped, one whose \<open>order_id\<close> exists is SQLSTATE 23505, any other row is
  added. A statement of several rows is atomic (\<open>insert_rows\<close>).

  PostgreSQL's input functions are not code of the repository; they are the parameter \<open>pg\<close>:
  \<open>uuid_in\<close> reads a UUID and returns its canonical text, \<open>ts_in\<close> brings a timestamp to the
  resolution of the column (microseconds), \<open>col_check\<close>
  says with which SQLSTATE the server refuses one of the other columns. What the network did
  to a statement is a \<open>reply\<close>: the answer arrived, the statement never reached the server, or the
  server executed it and the answer was lost.

  \<open>json.Marshal\<close> of an \<open>[]Item\<close> has no failing case (only channels, functions, complex numbers
  and non-finite floats fail), so the items column holds the items. \<open>New\<close>, \<open>Migrate\<close>,
  \<open>Ping\<close> and \<open>Close\<close> are connection handling.
\<close>

section \<open>The table\<close>

record row =
  row_order_id :: string
  row_event_id :: string
  row_customer_id :: string
  row_items :: "item list"
  row_total_cents :: i64
  row_occurred_at :: time
  row_processed_at :: time

type_synonym table = "row list"

definition table_ok :: "table \<Rightarrow> bool" where
  "table_ok T \<longleftrightarrow> distinct (map row_order_id T) \<and> distinct (map row_event_id T)"

record pg =
  uuid_in :: "string \<Rightarrow> string option"
  ts_in :: "time \<Rightarrow> time"
  col_check :: "event \<Rightarrow> (char \<times> char \<times> string) option"

datatype reply = Answered | NotSent err | Lost err

definition invalid_text :: err where
  "invalid_text = PgError CHR ''2'' CHR ''2'' ''P02''"

definition unique_violation :: err where
  "unique_violation = PgError CHR ''2'' CHR ''3'' ''505''"

text \<open>The server's reading of the six bound parameters, and the default of \<open>processed_at\<close>.\<close>

definition typed_row :: "pg \<Rightarrow> time \<Rightarrow> event \<Rightarrow> row res" where
  "typed_row pg tm e =
     (case uuid_in pg (OrderID e) of
        None \<Rightarrow> Inl invalid_text
      | Some oid \<Rightarrow>
         (case uuid_in pg (EventID e) of
            None \<Rightarrow> Inl invalid_text
          | Some eid \<Rightarrow>
             (case col_check pg e of
                Some (a, b, r) \<Rightarrow> Inl (PgError a b r)
              | None \<Rightarrow>
                 Inr \<lparr>row_order_id = oid, row_event_id = eid, row_customer_id = CustomerID e,
                      row_items = Items e, row_total_cents = TotalCents e,
                      row_occurred_at = ts_in pg (OccurredAt e), row_processed_at = ts_in pg tm\<rparr>)))"

fun typed_rows :: "pg \<Rightarrow> time \<Rightarrow> event list \<Rightarrow> row list res" where
  "typed_rows pg tm [] = Inr []"
| "typed_rows pg tm (e # es) =
     (case typed_row pg tm e of
        Inl x \<Rightarrow> Inl x
      | Inr r \<Rightarrow> (case typed_rows pg tm es of Inl x \<Rightarrow> Inl x | Inr rs \<Rightarrow> Inr (r # rs)))"

definition insert_row :: "row \<Rightarrow> table \<Rightarrow> (bool \<times> table) res" where
  "insert_row r T =
     (if row_event_id r \<in> set (map row_event_id T) then Inr (False, T)
      else if row_order_id r \<in> set (map row_order_id T) then Inl unique_violation
      else Inr (True, T @ [r]))"

text \<open>Several rows in one statement: the identifiers \<open>RETURNING\<close> gives, in order.\<close>

fun insert_rows :: "row list \<Rightarrow> table \<Rightarrow> (string list \<times> table) res" where
  "insert_rows [] T = Inr ([], T)"
| "insert_rows (r # rs) T =
     (case insert_row r T of
        Inl x \<Rightarrow> Inl x
      | Inr (new, T1) \<Rightarrow>
          (case insert_rows rs T1 of
             Inl x \<Rightarrow> Inl x
           | Inr (ids, T2) \<Rightarrow> Inr ((if new then [row_event_id r] else []) @ ids, T2)))"

text \<open>A statement under a reply: a failed statement leaves the table as it was.\<close>

fun run_stmt :: "reply \<Rightarrow> ('a \<times> table) res \<Rightarrow> table \<Rightarrow> 'a res \<times> table" where
  "run_stmt (NotSent e) st T = (Inl e, T)"
| "run_stmt (Lost e) st T = (Inl e, (case st of Inl _ \<Rightarrow> T | Inr (_, T') \<Rightarrow> T'))"
| "run_stmt Answered st T = (case st of Inl e \<Rightarrow> (Inl e, T) | Inr (a, T') \<Rightarrow> (Inr a, T'))"

section \<open>The writes\<close>

definition insertColumns :: nat where "insertColumns = 6"
definition MaxInsertBatch :: nat where "MaxInsertBatch = 1000"

definition InsertOrder :: "pg \<Rightarrow> reply \<Rightarrow> time \<Rightarrow> event \<Rightarrow> table \<Rightarrow> bool res \<times> table" where
  "InsertOrder pg rp tm evt T =
     (let st = (case typed_row pg tm evt of Inl e \<Rightarrow> Inl e | Inr r \<Rightarrow> insert_row r T)
      in case run_stmt rp st T of
           (Inl e, T') \<Rightarrow> (Inl (Wrapf ''insert order: '' e ''''), T')
         | (Inr new, T') \<Rightarrow> (Inr new, T'))"

text \<open>
  The text of the multi-row statement: row \<open>i\<close> is \<open>($6i+1, \<dots>, $6i+6)\<close>, numbered from the
  arguments already bound.
\<close>

definition row_placeholders :: "nat \<Rightarrow> string" where
  "row_placeholders args =
     ''('' @ join '', '' (map (\<lambda>c. CHR ''$'' # itoa (int (args + c + 1))) [0..<insertColumns]) @ '')''"

fun values_clause :: "nat \<Rightarrow> nat \<Rightarrow> event list \<Rightarrow> string \<times> nat" where
  "values_clause i args [] = ('''', args)"
| "values_clause i args (e # es) =
     (let (rest, n) = values_clause (Suc i) (args + insertColumns) es
      in ((if i > 0 then '', '' else '''') @ row_placeholders args @ rest, n))"

definition insert_orders_sql :: "event list \<Rightarrow> string \<times> nat" where
  "insert_orders_sql evts =
     (let (vs, n) = values_clause 0 0 evts
      in (''INSERT INTO orders (order_id, event_id, customer_id, items, total_cents, occurred_at) VALUES ''
          @ vs @ '' ON CONFLICT (event_id) DO NOTHING RETURNING event_id'', n))"

definition InsertOrders :: "pg \<Rightarrow> reply \<Rightarrow> time \<Rightarrow> event list \<Rightarrow> table \<Rightarrow> string list res \<times> table" where
  "InsertOrders pg rp tm evts T =
     (if evts = [] then (Inr [], T)
      else if length evts > MaxInsertBatch
      then (Inl (Wrapf '''' ErrInvalidArgument
              ('': batch of '' @ itoa (int (length evts)) @ '' exceeds the '' @
               itoa (int MaxInsertBatch) @ '' row limit'')), T)
      else
        let st = (case typed_rows pg tm evts of Inl e \<Rightarrow> Inl e | Inr rs \<Rightarrow> insert_rows rs T)
        in case run_stmt rp st T of
             (Inl e, T') \<Rightarrow> (Inl (Wrapf ''insert orders: '' e ''''), T')
           | (Inr ids, T') \<Rightarrow> (Inr ids, T'))"

definition CountOrders :: "table \<Rightarrow> nat" where
  "CountOrders T = length T"

section \<open>What the writes keep and establish\<close>

text \<open>An event is stored when a row carries its identifier as the server reads it.\<close>

definition stored :: "pg \<Rightarrow> event \<Rightarrow> table \<Rightarrow> bool" where
  "stored pg e T \<longleftrightarrow> (\<exists>r \<in> set T. uuid_in pg (EventID e) = Some (row_event_id r))"

lemma stored_mono: "stored pg e T \<Longrightarrow> prefix T T' \<Longrightarrow> stored pg e T'"
  by (auto simp: stored_def prefix_def)

lemma typed_row_Inr:
  "typed_row pg tm e = Inr r \<Longrightarrow>
     uuid_in pg (OrderID e) = Some (row_order_id r) \<and> uuid_in pg (EventID e) = Some (row_event_id r) \<and>
     row_customer_id r = CustomerID e \<and> row_items r = Items e \<and> row_total_cents r = TotalCents e"
  by (auto simp: typed_row_def split: option.splits prod.splits)

lemma insert_row_cases:
  assumes "insert_row r T = Inr (new, T')"
  shows "prefix T T'" "table_ok T \<Longrightarrow> table_ok T'"
    "row_event_id r \<in> set (map row_event_id T')" "\<not> new \<Longrightarrow> T' = T" "new \<Longrightarrow> T' = T @ [r]"
  using assms by (auto simp: insert_row_def table_ok_def split: if_splits)

lemma insert_rows_prefix: "insert_rows rs T = Inr (ids, T') \<Longrightarrow> prefix T T'"
  by (induction rs arbitrary: T ids)
    (auto split: sum.splits prod.splits dest!: insert_row_cases(1) intro: prefix_order.trans)

lemma insert_rows_ok: "insert_rows rs T = Inr (ids, T') \<Longrightarrow> table_ok T \<Longrightarrow> table_ok T'"
  by (induction rs arbitrary: T ids)
    (auto split: sum.splits prod.splits dest!: insert_row_cases(2))

lemma insert_rows_all:
  "insert_rows rs T = Inr (ids, T') \<Longrightarrow> r \<in> set rs \<Longrightarrow> row_event_id r \<in> set (map row_event_id T')"
proof (induction rs arbitrary: T ids)
  case (Cons x rs)
  from Cons.prems(1) obtain new T1 ids' where
    x: "insert_row x T = Inr (new, T1)" "insert_rows rs T1 = Inr (ids', T')"
    by (auto split: sum.splits prod.splits)
  from insert_rows_prefix[OF x(2)] insert_row_cases(3)[OF x(1)]
  have "row_event_id x \<in> set (map row_event_id T')" by (auto simp: prefix_def)
  with Cons.IH[OF x(2)] Cons.prems(2) show ?case by auto
qed simp

text \<open>The identifiers returned are those of the rows added, in order.\<close>

lemma insert_rows_new:
  "insert_rows rs T = Inr (ids, T') \<Longrightarrow> map row_event_id T' = map row_event_id T @ ids"
proof (induction rs arbitrary: T ids)
  case (Cons x rs)
  from Cons.prems obtain new T1 ids' where
    x: "insert_row x T = Inr (new, T1)" "insert_rows rs T1 = Inr (ids', T')"
      "ids = (if new then [row_event_id x] else []) @ ids'"
    by (auto split: sum.splits prod.splits)
  have "map row_event_id T1 = map row_event_id T @ (if new then [row_event_id x] else [])"
    using insert_row_cases(4,5)[OF x(1)] by (cases new) auto
  with Cons.IH[OF x(2)] x(3) show ?case by simp
qed simp

lemma run_stmt_table:
  assumes "run_stmt rp st T = (res, T')"
  shows "T' = T \<or> (\<exists>a. st = Inr (a, T'))"
  using assms by (cases rp) (auto split: sum.splits)

lemma run_stmt_Inr: "run_stmt rp st T = (Inr a, T') \<Longrightarrow> rp = Answered \<and> st = Inr (a, T')"
  by (cases rp) (auto split: sum.splits)

lemma InsertOrder_table:
  assumes "InsertOrder pg rp tm evt T = (res, T')"
  shows "T' = T \<or> (\<exists>r new. typed_row pg tm evt = Inr r \<and> insert_row r T = Inr (new, T'))"
proof -
  obtain x where
    "run_stmt rp (case typed_row pg tm evt of Inl e \<Rightarrow> Inl e | Inr r \<Rightarrow> insert_row r T) T = (x, T')"
    using assms by (auto simp: InsertOrder_def Let_def split: prod.splits sum.splits)
  from run_stmt_table[OF this] show ?thesis by (auto split: sum.splits)
qed

lemma InsertOrder_prefix: "InsertOrder pg rp tm evt T = (res, T') \<Longrightarrow> prefix T T'"
  using InsertOrder_table insert_row_cases(1) by fastforce

lemma InsertOrder_ok: "InsertOrder pg rp tm evt T = (res, T') \<Longrightarrow> table_ok T \<Longrightarrow> table_ok T'"
  using InsertOrder_table insert_row_cases(2) by fastforce

lemma InsertOrder_Inr:
  assumes "InsertOrder pg rp tm evt T = (Inr new, T')"
  obtains r where "typed_row pg tm evt = Inr r" "insert_row r T = Inr (new, T')"
proof -
  have "run_stmt rp (case typed_row pg tm evt of Inl e \<Rightarrow> Inl e | Inr r \<Rightarrow> insert_row r T) T = (Inr new, T')"
    using assms by (auto simp: InsertOrder_def Let_def split: prod.splits sum.splits)
  from run_stmt_Inr[OF this] that show ?thesis by (auto split: sum.splits)
qed

lemma InsertOrder_stored:
  assumes "InsertOrder pg rp tm evt T = (Inr new, T')"
  shows "stored pg evt T'"
  using assms
proof (rule InsertOrder_Inr)
  fix r assume r: "typed_row pg tm evt = Inr r" "insert_row r T = Inr (new, T')"
  with insert_row_cases(3)[OF r(2)] typed_row_Inr[OF r(1)] show ?thesis
    by (auto simp: stored_def)
qed

lemma typed_rows_set:
  "typed_rows pg tm es = Inr rs \<Longrightarrow> e \<in> set es \<Longrightarrow> \<exists>r \<in> set rs. typed_row pg tm e = Inr r"
  by (induction es arbitrary: rs) (auto split: sum.splits)

lemma InsertOrders_table:
  assumes "InsertOrders pg rp tm evts T = (res, T')"
  shows "T' = T \<or> (\<exists>rs ids. typed_rows pg tm evts = Inr rs \<and> insert_rows rs T = Inr (ids, T'))"
proof (cases "evts = [] \<or> length evts > MaxInsertBatch")
  case True
  with assms show ?thesis by (auto simp: InsertOrders_def split: if_splits)
next
  case False
  then obtain x where
    "run_stmt rp (case typed_rows pg tm evts of Inl e \<Rightarrow> Inl e | Inr rs \<Rightarrow> insert_rows rs T) T = (x, T')"
    using assms by (auto simp: InsertOrders_def Let_def split: prod.splits sum.splits)
  from run_stmt_table[OF this] show ?thesis by (auto split: sum.splits)
qed

lemma InsertOrders_prefix: "InsertOrders pg rp tm evts T = (res, T') \<Longrightarrow> prefix T T'"
  using InsertOrders_table insert_rows_prefix by fastforce

lemma InsertOrders_ok: "InsertOrders pg rp tm evts T = (res, T') \<Longrightarrow> table_ok T \<Longrightarrow> table_ok T'"
  using InsertOrders_table insert_rows_ok by fastforce

lemma InsertOrders_stored:
  assumes "InsertOrders pg rp tm evts T = (Inr ids, T')" and e: "e \<in> set evts"
  shows "stored pg e T'"
proof -
  from e have ne: "evts \<noteq> []" by auto
  have "run_stmt rp (case typed_rows pg tm evts of Inl e \<Rightarrow> Inl e | Inr rs \<Rightarrow> insert_rows rs T) T
      = (Inr ids, T')"
    using assms(1) ne by (auto simp: InsertOrders_def Let_def split: prod.splits sum.splits if_splits)
  from run_stmt_Inr[OF this] obtain rs where
    rs: "typed_rows pg tm evts = Inr rs" "insert_rows rs T = Inr (ids, T')"
    by (auto split: sum.splits)
  from typed_rows_set[OF rs(1) e] obtain r where "r \<in> set rs" "typed_row pg tm e = Inr r" by blast
  with insert_rows_all[OF rs(2)] typed_row_Inr show ?thesis by (fastforce simp: stored_def)
qed

section \<open>The batch write against the single-row write\<close>

text \<open>The reference for \<open>InsertOrders\<close>: \<open>InsertOrder\<close> on each event in turn, stopping at an error.\<close>

fun insert_serial :: "pg \<Rightarrow> time \<Rightarrow> event list \<Rightarrow> table \<Rightarrow> (bool list \<times> table) res" where
  "insert_serial pg tm [] T = Inr ([], T)"
| "insert_serial pg tm (e # es) T =
     (case InsertOrder pg Answered tm e T of
        (Inl x, T1) \<Rightarrow> Inl x
      | (Inr new, T1) \<Rightarrow>
          (case insert_serial pg tm es T1 of
             Inl x \<Rightarrow> Inl x
           | Inr (bs, T2) \<Rightarrow> Inr (new # bs, T2)))"

definition new_ids :: "pg \<Rightarrow> event list \<Rightarrow> bool list \<Rightarrow> string list" where
  "new_ids pg es bs = map (\<lambda>p. the (uuid_in pg (EventID (fst p)))) (filter snd (zip es bs))"

lemma new_ids_Cons [simp]:
  "new_ids pg (e # es) (b # bs) =
     (if b then [the (uuid_in pg (EventID e))] else []) @ new_ids pg es bs"
  "new_ids pg [] bs = []"
  by (simp_all add: new_ids_def)

lemma InsertOrder_answered:
  "InsertOrder pg Answered tm e T =
     (case typed_row pg tm e of
        Inl x \<Rightarrow> (Inl (Wrapf ''insert order: '' x ''''), T)
      | Inr r \<Rightarrow>
          (case insert_row r T of
             Inl x \<Rightarrow> (Inl (Wrapf ''insert order: '' x ''''), T)
           | Inr (new, T') \<Rightarrow> (Inr new, T')))"
  by (simp add: InsertOrder_def Let_def split: sum.splits)

text \<open>The rows of a batch against the serial writes: they fail together, or agree.\<close>

lemma rows_serial:
  "case insert_serial pg tm es T of
     Inl x \<Rightarrow> (\<exists>y. (case typed_rows pg tm es of Inl e \<Rightarrow> Inl e | Inr rs \<Rightarrow> insert_rows rs T) = Inl y)
   | Inr (bs, T') \<Rightarrow> length bs = length es \<and>
       (\<exists>rs. typed_rows pg tm es = Inr rs \<and> insert_rows rs T = Inr (new_ids pg es bs, T'))"
proof (induction es arbitrary: T)
  case (Cons e es)
  show ?case
  proof (cases "typed_row pg tm e")
    case (Inl x)
    then show ?thesis by (simp add: InsertOrder_answered)
  next
    case r: (Inr r)
    show ?thesis
    proof (cases "insert_row r T")
      case (Inl x)
      with r show ?thesis by (auto simp: InsertOrder_answered split: sum.splits)
    next
      case (Inr p)
      obtain new T1 where p: "p = (new, T1)" by fastforce
      have "the (uuid_in pg (EventID e)) = row_event_id r" using typed_row_Inr[OF r] by simp
      with r Inr p Cons[of T1] show ?thesis
        by (auto simp: InsertOrder_answered split: sum.splits)
    qed
  qed
qed simp

lemma InsertOrders_as_rows:
  assumes "length evts \<le> MaxInsertBatch"
  shows "InsertOrders pg Answered tm evts T =
    (case (case typed_rows pg tm evts of Inl e \<Rightarrow> Inl e | Inr rs \<Rightarrow> insert_rows rs T) of
       Inl e \<Rightarrow> (Inl (Wrapf ''insert orders: '' e ''''), T)
     | Inr (ids, T') \<Rightarrow> (Inr ids, T'))"
  using assms by (auto simp: InsertOrders_def Let_def split: sum.splits)

section \<open>Properties\<close>


definition sample_pg :: pg where
  "sample_pg = \<lparr>uuid_in = (\<lambda>s. if s = '''' then None else Some s), ts_in = (\<lambda>t. t), col_check = (\<lambda>_. None)\<rparr>"

definition sample_event :: "string \<Rightarrow> event" where
  "sample_event i =
     \<lparr>EventID = ''e'' @ i, EventType = EventTypeCreated, OrderID = ''o'' @ i, OccurredAt = 5,
      CustomerID = ''cust-1'', Items = [\<lparr>SKU = ''WIDGET-1'', Quantity = 2, UnitPriceCents = 1999\<rparr>],
      TotalCents = 3998\<rparr>"


text \<open>
  Redelivery is harmless. When a write of an event has succeeded, with a new row or not,
  every later write of the same event succeeds, reports no new row and leaves the table as it
  is. And when the answer to the first write is lost, the table is the one the answered write
  would have left, so that the retry finds it done.
\<close>

theorem InsertOrder_redelivery:
  assumes "InsertOrder pg Answered tm e T = (Inr new, T1)"
  shows "InsertOrder pg Answered tm' e T1 = (Inr False, T1) \<and>
    InsertOrder pg (Lost x) tm e T = (Inl (Wrapf ''insert order: '' x ''''), T1)"
proof
  from assms obtain r where r: "typed_row pg tm e = Inr r" "insert_row r T = Inr (new, T1)"
    by (rule InsertOrder_Inr)
  then obtain r' where r': "typed_row pg tm' e = Inr r'" "row_event_id r' = row_event_id r"
    by (auto simp: typed_row_def split: option.splits prod.splits)
  with insert_row_cases(3)[OF r(2)] have "insert_row r' T1 = Inr (False, T1)"
    by (simp add: insert_row_def)
  with r'(1) show "InsertOrder pg Answered tm' e T1 = (Inr False, T1)"
    by (simp add: InsertOrder_answered)
  show "InsertOrder pg (Lost x) tm e T = (Inl (Wrapf ''insert order: '' x ''''), T1)"
    by (simp add: InsertOrder_def Let_def r)
qed

lemma InsertOrder_redelivery_witness:
  "\<exists>T1. InsertOrder sample_pg Answered 9 (sample_event ''1'') [] = (Inr True, T1) \<and>
     InsertOrder sample_pg Answered 10 (sample_event ''1'') T1 = (Inr False, T1) \<and>
     length T1 = 1"
proof -
  obtain T1 where a: "InsertOrder sample_pg Answered 9 (sample_event ''1'') [] = (Inr True, T1)" "length T1 = 1"
    by (simp add: InsertOrder_answered typed_row_def insert_row_def sample_pg_def sample_event_def)
  with InsertOrder_redelivery[OF a(1)] show ?thesis by blast
qed

text \<open>
  Whatever the network does to the statement, a write keeps the primary key and the unique
  constraint of the table and never removes, reorders or changes a row; a batch that returns an
  answer has added exactly the rows whose identifiers it returns, and none of those existed.
\<close>

theorem InsertOrders_table_invariant:
  assumes "table_ok T" and "InsertOrders pg rp tm evts T = (r, T')"
  shows "table_ok T' \<and> prefix T T' \<and>
    (case r of Inl _ \<Rightarrow> True
     | Inr ids \<Rightarrow> map row_event_id T' = map row_event_id T @ ids \<and> distinct ids \<and>
                  set ids \<inter> set (map row_event_id T) = {})"
proof -
  have ok: "table_ok T'" "prefix T T'"
    using InsertOrders_ok[OF assms(2,1)] InsertOrders_prefix[OF assms(2)] by auto
  have "map row_event_id T' = map row_event_id T @ ids" if "r = Inr ids" for ids
    using assms(2) that run_stmt_Inr insert_rows_new
    by (fastforce simp: InsertOrders_def Let_def split: if_splits prod.splits sum.splits)
  moreover from this ok(1) have "distinct ids \<and> set ids \<inter> set (map row_event_id T) = {}" if "r = Inr ids" for ids
    using that by (auto simp: table_ok_def)
  ultimately show ?thesis using ok by (simp split: sum.splits)
qed

lemma InsertOrders_table_invariant_witness:
  "table_ok (snd (InsertOrders sample_pg Answered 9 [sample_event ''1'', sample_event ''2''] []))"
proof -
  have "table_ok []" by (simp add: table_ok_def)
  from InsertOrders_table_invariant[OF this, of sample_pg Answered 9 "[sample_event ''1'', sample_event ''2'']"]
  show ?thesis by (metis prod.collapse)
qed

lemma values_clause_numbering:
  "values_clause i args evts =
     ((if i > 0 \<and> evts \<noteq> [] then '', '' else '''') @
        join '', '' (map (\<lambda>k. row_placeholders (args + insertColumns * k)) [0..<length evts]),
      args + insertColumns * length evts)"
proof (induction evts arbitrary: i args)
  case (Cons e es)
  have "map (\<lambda>k. row_placeholders (args + insertColumns * k)) [0..<length (e # es)] =
      row_placeholders args # map (\<lambda>k. row_placeholders (args + insertColumns + insertColumns * k)) [0..<length es]"
    by (simp only: length_Cons map_upt_Suc) (simp add: algebra_simps comp_def)
  with Cons show ?case
    by (cases "[0..<length es]") (auto simp: algebra_simps)
qed simp

text \<open>
  The multi-row statement binds six arguments per event and numbers them consecutively: row
  \<open>k\<close> (from 0) reads \<open>($6k+1, \<dots>, $6k+6)\<close>. A batch that \<open>InsertOrders\<close> accepts stays below
  the 65535 arguments of PostgreSQL's wire protocol.
\<close>

theorem insert_orders_sql_numbering:
  assumes "length evts \<le> MaxInsertBatch"
  shows "insert_orders_sql evts =
    (''INSERT INTO orders (order_id, event_id, customer_id, items, total_cents, occurred_at) VALUES '' @
     join '', '' (map (\<lambda>k. ''('' @ join '', '' (map (\<lambda>c. CHR ''$'' # itoa (int (6 * k + c)))
                                              [1, 2, 3, 4, 5, 6]) @ '')'') [0..<length evts]) @
     '' ON CONFLICT (event_id) DO NOTHING RETURNING event_id'', 6 * length evts) \<and>
    6 * length evts < 65535"
proof -
  have "row_placeholders (6 * k) =
      ''('' @ join '', '' (map (\<lambda>c. CHR ''$'' # itoa (int (6 * k + c))) [1, 2, 3, 4, 5, 6]) @ '')''" for k
    by (simp add: row_placeholders_def insertColumns_def upt_rec algebra_simps)
  then show ?thesis
    using assms by (simp add: insert_orders_sql_def values_clause_numbering insertColumns_def MaxInsertBatch_def)
qed

lemma insert_orders_sql_numbering_witness:
  "insert_orders_sql [sample_event ''1'', sample_event ''2''] =
    (''INSERT INTO orders (order_id, event_id, customer_id, items, total_cents, occurred_at) VALUES ($1, $2, $3, $4, $5, $6), ($7, $8, $9, $10, $11, $12) ON CONFLICT (event_id) DO NOTHING RETURNING event_id'', 12)"
proof -
  have "length [sample_event ''1'', sample_event ''2''] \<le> MaxInsertBatch" by (simp add: MaxInsertBatch_def)
  from insert_orders_sql_numbering[OF this] show ?thesis
    by (simp add: upt_rec itoa_def nat_digits.simps)
qed

end
