(* ===== verification/Pipeline.thy ===== *)
theory Pipeline
  imports Worker Store
begin

text \<open>
  The worker wired to its collaborators, as \<open>main\<close> of \<open>cmd/worker/main.go\<close> does: the store of
  \<open>Store\<close> as its database, the queue of \<open>Broker\<close> as its dead-letter queue.

  \<open>env\<close> is everything the program does not decide, indexed by the number of operations performed
  so far: how long an operation takes, whether the context is cancelled by then
  (cancellation is permanent), the random numbers, what the network does to a statement, and
  what the broker answers to a produce request. \<open>live\<close> is the state those operations share: the
  clock, the orders table, and the dead letters the broker has acknowledged. Every operation
  takes at least a nanosecond.
\<close>

record env =
  tick :: "nat \<Rightarrow> nat"
  cancel_at :: "nat option"
  rnd :: "nat \<Rightarrow> nat"
  db_reply :: "nat \<Rightarrow> reply"
  kafka_reply :: "nat \<Rightarrow> (nat \<times> nat) res"

record live =
  steps :: nat
  now :: time
  tbl :: table
  dead :: "krec list"

definition advance :: "env \<Rightarrow> live \<Rightarrow> live" where
  "advance env w =
     w\<lparr>steps := Suc (steps w), now := now w + 1 + int (tick env (steps w))\<rparr>"

definition cancelled :: "env \<Rightarrow> live \<Rightarrow> bool" where
  "cancelled env w = (case cancel_at env of None \<Rightarrow> False | Some n \<Rightarrow> n \<le> steps w)"

definition live_ctxErr :: "env \<Rightarrow> live \<Rightarrow> bool \<times> live" where
  "live_ctxErr env w = (let w1 = advance env w in (cancelled env w1, w1))"

definition live_now :: "env \<Rightarrow> live \<Rightarrow> time \<times> live" where
  "live_now env w = (let w1 = advance env w in (now w1, w1))"

definition live_rand :: "env \<Rightarrow> nat \<Rightarrow> live \<Rightarrow> nat \<times> live" where
  "live_rand env n w = (let w1 = advance env w in (rnd env (steps w1) mod n, w1))"

definition live_wait :: "env \<Rightarrow> nat \<Rightarrow> live \<Rightarrow> bool \<times> live" where
  "live_wait env d w =
     (let w1 = advance env w
      in if cancelled env w1 then (True, w1) else (False, w1\<lparr>now := now w1 + int d\<rparr>))"

definition live_insertOrder :: "env \<Rightarrow> pg \<Rightarrow> event \<Rightarrow> live \<Rightarrow> bool res \<times> live" where
  "live_insertOrder env pg evt w =
     (let w1 = advance env w
      in case InsertOrder pg (db_reply env (steps w1)) (now w1) evt (tbl w1) of
           (r, T) \<Rightarrow> (r, w1\<lparr>tbl := T\<rparr>))"

definition live_insertOrders :: "env \<Rightarrow> pg \<Rightarrow> event list \<Rightarrow> live \<Rightarrow> string list res \<times> live" where
  "live_insertOrders env pg evts w =
     (let w1 = advance env w
      in case InsertOrders pg (db_reply env (steps w1)) (now w1) evts (tbl w1) of
           (r, T) \<Rightarrow> (r, w1\<lparr>tbl := T\<rparr>))"

definition live_produce :: "env \<Rightarrow> krec \<Rightarrow> live \<Rightarrow> (nat \<times> nat) res \<times> live" where
  "live_produce env rec w =
     (let w1 = advance env w
      in case kafka_reply env (steps w1) of
           Inl e \<Rightarrow> (Inl e, w1)
         | Inr at \<Rightarrow> (Inr at, w1\<lparr>dead := dead w1 @ [rec]\<rparr>))"

definition live_send ::
  "env \<Rightarrow> (time \<Rightarrow> string) \<Rightarrow> string \<Rightarrow> krec \<Rightarrow> string \<Rightarrow> err \<Rightarrow> nat \<Rightarrow> live \<Rightarrow> err option \<times> live" where
  "live_send env fmt_time topic rec reason cause n w =
     Send (live_produce env) fmt_time topic (now w) rec reason cause n w"

record deps =
  d_pg :: pg
  d_unmarshal :: "bytes \<Rightarrow> event res"
  d_fmt_time :: "time \<Rightarrow> string"
  d_dlq_topic :: string

definition live_worker :: "env \<Rightarrow> deps \<Rightarrow> retry_policy \<Rightarrow> int \<Rightarrow> live worker" where
  "live_worker env dp pol batch =
     \<lparr>insertOrder = live_insertOrder env (d_pg dp),
      insertOrders = live_insertOrders env (d_pg dp),
      dlqSend = live_send env (d_fmt_time dp) (d_dlq_topic dp),
      unmarshal = d_unmarshal dp,
      policy = pol, batchSize = batch,
      wCtxErr = live_ctxErr env, wNow = live_now env, wRand = live_rand env, wWait = live_wait env\<rparr>"

lemmas live_defs = live_ctxErr_def live_now_def live_rand_def live_wait_def Let_def

section \<open>What the collaborators promise\<close>

definition live_le :: "live \<Rightarrow> live \<Rightarrow> bool" where
  "live_le w w' \<longleftrightarrow> prefix (tbl w) (tbl w') \<and> prefix (dead w) (dead w') \<and> steps w \<le> steps w'"

definition live_ok :: "live \<Rightarrow> bool" where
  "live_ok w \<longleftrightarrow> table_ok (tbl w)"

definition dead_letter_of :: "string \<Rightarrow> krec \<Rightarrow> string \<Rightarrow> krec \<Rightarrow> bool" where
  "dead_letter_of topic rec reason d \<longleftrightarrow>
     Topic d = topic \<and> Key d = Key rec \<and> Value d = Value rec \<and>
     map_of (Headers d) HeaderReason = Some reason \<and>
     map_of (Headers d) HeaderSourceTopic = Some (Topic rec) \<and>
     map_of (Headers d) HeaderSourcePartition = Some (itoa (int (Partition rec))) \<and>
     map_of (Headers d) HeaderSourceOffset = Some (itoa (int (Offset rec))) \<and>
     carryForward (Headers d) = carryForward (Headers rec)"

definition live_persisted :: "deps \<Rightarrow> event \<Rightarrow> live \<Rightarrow> bool" where
  "live_persisted dp e w = stored (d_pg dp) e (tbl w)"

definition live_parked :: "deps \<Rightarrow> krec \<Rightarrow> string \<Rightarrow> live \<Rightarrow> bool" where
  "live_parked dp rec reason w = (\<exists>d \<in> set (dead w). dead_letter_of (d_dlq_topic dp) rec reason d)"

lemma advance_frame [frame_simps, simp]:
  "tbl (advance env w) = tbl w" "dead (advance env w) = dead w" "now w < now (advance env w)"
  "steps (advance env w) = Suc (steps w)"
  by (simp_all add: advance_def)

lemma now_advance_le [simp]: "now w \<le> now (advance env w) + int d"
  by (simp add: advance_def)

lemma dead_record_header:
  "k \<notin> set replay_header_keys \<Longrightarrow>
   map_of (Headers (dead_record rec reason cause n t)) k =
   map_of [(HeaderReason, reason), (HeaderError, err_text cause), (HeaderAttempts, itoa (int n)),
     (HeaderSourceTopic, Topic rec), (HeaderSourcePartition, itoa (int (Partition rec))),
     (HeaderSourceOffset, itoa (int (Offset rec))), (HeaderFailedAt, t)] k"
  by (simp add: dead_record_def map_add_def map_of_carryForward(2))

lemma dead_record_carried: "carryForward (Headers (dead_record rec reason cause n t)) = carryForward (Headers rec)"
  by (simp add: dead_record_def carryForward_filter replay_header_keys_def header_defs)

lemma dead_record_is_dead_letter:
  "dead_letter_of topic rec reason ((dead_record rec reason cause n t)\<lparr>Topic := topic\<rparr>)"
proof -
  have k: "HeaderReason \<notin> set replay_header_keys" "HeaderSourceTopic \<notin> set replay_header_keys"
    "HeaderSourcePartition \<notin> set replay_header_keys" "HeaderSourceOffset \<notin> set replay_header_keys"
    by (simp_all add: replay_header_keys_def header_defs)
  show ?thesis
    using dead_record_header[OF k(1), of rec reason cause n t] dead_record_header[OF k(2), of rec reason cause n t]
      dead_record_header[OF k(3), of rec reason cause n t] dead_record_header[OF k(4), of rec reason cause n t]
      dead_record_carried[of rec reason cause n t]
    by (simp add: dead_letter_of_def header_defs) (simp add: dead_record_def)
qed

lemma live_send_cases:
  assumes "live_send env f topic rec reason cause n w = (x, w')"
  obtains e where "x = Some e" "w' = advance env w"
  | d where "x = None" "w' = (advance env w)\<lparr>dead := dead w @ [d]\<rparr>" "dead_letter_of topic rec reason d"
proof (cases "kafka_reply env (Suc (steps w))")
  case (Inl e)
  with assms that(1) show ?thesis
    by (auto simp: live_send_def Send_def PublishRecord_def live_produce_def Let_def dead_record_def)
next
  case (Inr at)
  let ?d = "(dead_record rec reason cause n (f (now w)))\<lparr>Topic := topic\<rparr>"
  have t: "Topic (dead_record rec reason cause n (f (now w))) = ''''" by (simp add: dead_record_def)
  with assms Inr have "x = None" "w' = (advance env w)\<lparr>dead := dead w @ [?d]\<rparr>"
    by (auto simp: live_send_def Send_def PublishRecord_def live_produce_def Let_def)
  with that(2) dead_record_is_dead_letter show ?thesis by blast
qed

interpretation live: worker_deps "live_worker env dp pol batch" live_ok live_le
  "live_persisted dp" "live_parked dp" "cancelled env"
  for env dp pol batch
proof unfold_locales
  show "live_le w w" for w by (simp add: live_le_def)
  show "live_le w w1 \<Longrightarrow> live_le w1 w2 \<Longrightarrow> live_le w w2" for w w1 w2
    by (auto simp: live_le_def)
  show "live_le w w' \<Longrightarrow> live_persisted dp e w \<Longrightarrow> live_persisted dp e w'" for w w' e
    by (auto simp: live_le_def live_persisted_def intro: stored_mono)
  show "live_le w w' \<Longrightarrow> live_parked dp rec reason w \<Longrightarrow> live_parked dp rec reason w'" for w w' rec reason
    by (auto simp: live_le_def live_parked_def prefix_def)
  show "live_ok w' \<and> live_le w w' \<and> (\<forall>new. r = Inr new \<longrightarrow> live_persisted dp evt w')"
    if "live_ok w" "insertOrder (live_worker env dp pol batch) evt w = (r, w')" for w evt r w'
    using that InsertOrder_ok InsertOrder_prefix InsertOrder_stored
    by (fastforce simp: live_worker_def live_insertOrder_def live_ok_def live_le_def live_persisted_def
        Let_def split: prod.splits)
  show "live_ok w' \<and> live_le w w' \<and> (\<forall>ids. r' = Inr ids \<longrightarrow> (\<forall>e \<in> set evts. live_persisted dp e w'))"
    if "live_ok w" "insertOrders (live_worker env dp pol batch) evts w = (r', w')" for w evts r' w'
    using that InsertOrders_ok InsertOrders_prefix InsertOrders_stored
    by (fastforce simp: live_worker_def live_insertOrders_def live_ok_def live_le_def live_persisted_def
        Let_def split: prod.splits)
  show "live_ok w' \<and> live_le w w' \<and> (x = None \<longrightarrow> live_parked dp rec reason w')"
    if "live_ok w" "dlqSend (live_worker env dp pol batch) rec reason cause n w = (x, w')"
    for w rec reason cause n x w'
  proof -
    from that(2) have "live_send env (d_fmt_time dp) (d_dlq_topic dp) rec reason cause n w = (x, w')"
      by (simp add: live_worker_def)
    then show ?thesis
      by (rule live_send_cases) (use that(1) in \<open>auto simp: live_ok_def live_le_def live_parked_def\<close>)
  qed
  show "live_le w w' \<Longrightarrow> cancelled env w \<Longrightarrow> cancelled env w'" for w w'
    by (auto simp: live_le_def cancelled_def split: option.splits)
qed (auto simp: live_worker_def live_defs live_ok_def live_le_def split: if_splits)

text \<open>
  The two closures that the worker passes to \<open>retry.Do\<close>: whatever \<open>Do\<close> answers, the table only grew,
  and on success the event, or every event of the batch, is in it.
\<close>

interpretation one_client: retry_client
  "retry_with (live_worker env dp pol batch) (insert_one (live_worker env dp pol batch) evt)"
  "live.grown w0" "\<lambda>s. live_persisted dp evt (world s)" "\<lambda>e s. True"
  for env dp pol batch evt w0
  by (rule live.retry_with_client) (auto dest: live.insert_one_grown)

interpretation batch_client: retry_client
  "retry_with (live_worker env dp pol batch) (insert_batch (live_worker env dp pol batch) evts)"
  "live.grown w0" "\<lambda>s. \<forall>e \<in> set evts. live_persisted dp e (world s)" "\<lambda>e s. True"
  for env dp pol batch evts w0
  by (rule live.retry_with_client) (auto dest: live.insert_batch_grown)

text \<open>The clock moves, so every retry loop of the worker returns.\<close>

interpretation one_clock: retry_clock
  "retry_with (live_worker env dp pol batch) (insert_one (live_worker env dp pol batch) evt)" "\<lambda>s. now (world s)"
  for env dp pol batch evt
  by unfold_locales
    (auto simp: retry_with_def insert_one_def lift_def live_worker_def live_insertOrder_def live_defs
      logRetry_def recordOutcome_def less_imp_le split: prod.splits sum.splits if_splits)

interpretation batch_clock: retry_clock
  "retry_with (live_worker env dp pol batch) (insert_batch (live_worker env dp pol batch) evts)" "\<lambda>s. now (world s)"
  for env dp pol batch evts
  by unfold_locales
    (auto simp: retry_with_def insert_batch_def lift_def live_worker_def live_insertOrders_def live_defs
      logRetry_def less_imp_le split: prod.splits sum.splits if_splits)

lemma handle_returns: "\<exists>x. handle (live_worker env dp pol batch) rec s = Some x"
proof (cases "unmarshal (live_worker env dp pol batch) (Value rec)")
  case (Inr evt)
  let ?W = "live_worker env dp pol batch"
  obtain r s1 where "Do (retry_with ?W (insert_one ?W evt)) (policy ?W) retryable (s\<lparr>attempts := 0\<rparr>) = Some (r, s1)"
    using one_clock.Do_returns by fastforce
  with Inr show ?thesis by (auto simp: handle_def Let_def split: prod.splits option.splits)
next
  case (Inl e)
  let ?W = "live_worker env dp pol batch"
  from Inl have "handle ?W rec s = Some (deadLetter ?W rec ReasonPoison e 0 s)"
    by (simp add: handle_def)
  then show ?thesis by blast
qed

lemma oneByOne_returns: "\<exists>x. oneByOne (live_worker env dp pol batch) lst recs s = Some x"
proof (induction recs arbitrary: lst s)
  case (Cons rec recs)
  obtain ok s1 where "handle (live_worker env dp pol batch) rec s = Some (ok, s1)"
    using handle_returns by fastforce
  with Cons show ?case by (cases ok) auto
qed auto

lemma processChunk_returns:
  assumes "chunk \<noteq> []"
  shows "\<exists>x. processChunk (live_worker env dp pol batch) chunk s = Some x"
proof (cases "length chunk > 1")
  let ?W = "live_worker env dp pol batch"
  case False
  with assms obtain rec where "chunk = [rec]" by (cases chunk) auto
  moreover obtain ok s1 where "handle ?W rec s = Some (ok, s1)" using handle_returns by fastforce
  ultimately show ?thesis by (simp add: processChunk_single)
next
  let ?W = "live_worker env dp pol batch"
  case True
  have o: "\<exists>x. map_option (map_prod Val id) (oneByOne ?W None chunk s1) = Some x" for s1
    using oneByOne_returns by fastforce
  show ?thesis
  proof (cases "unmarshal_all ?W chunk")
    case None
    with o show ?thesis by (simp add: processChunk_many[OF True])
  next
    case (Some evts)
    obtain r s1 where "Do (retry_with ?W (insert_batch ?W evts)) (policy ?W) retryable
        (s\<lparr>attempts := 0, inserted := []\<rparr>) = Some (r, s1)"
      using batch_clock.Do_returns by fastforce
    with Some o show ?thesis
      by (auto simp: processChunk_many[OF True] split: option.splits prod.splits)
  qed
qed

lemma process_from_returns: "\<exists>x. process_from (live_worker env dp pol batch) lst recs s = Some x"
proof (induction recs arbitrary: lst s rule: length_induct)
  case (1 recs)
  let ?W = "live_worker env dp pol batch"
  obtain c s1 where c: "lift (wCtxErr ?W) s = (c, s1)" by fastforce
  show ?case
  proof (cases "recs = [] \<or> batchSize ?W < 1")
    case True
    then show ?thesis by (subst process_from.simps) (auto simp: c)
  next
    case False
    then have b: "1 \<le> batchSize ?W" and ne: "recs \<noteq> []" by auto
    then have "take (nat (batchSize ?W)) recs \<noteq> []" by simp
    then obtain y s2 where "processChunk ?W (take (nat (batchSize ?W)) recs) s1 = Some (y, s2)"
      using processChunk_returns by fastforce
    moreover have "length (drop (nat (batchSize ?W)) recs) < length recs" using b ne by simp
    ultimately show ?thesis using "1.IH"
      by (auto simp: process_from_step[OF ne c b] split: go.splits)
  qed
qed

section \<open>A sample installation\<close>

text \<open>
  Concrete collaborators on which the definitions are evaluated: one decodable payload per event
  identifier, a database and a broker that answer (the broker refuses the calls listed), a
  retry budget of twenty nanoseconds.
\<close>

definition sample_deps :: deps where
  "sample_deps = \<lparr>d_pg = sample_pg,
     d_unmarshal = (\<lambda>v. case v of [] \<Rightarrow> Inl (OtherErr ''unexpected end of JSON input'')
                                | c # cs \<Rightarrow> if c = CHR ''='' then Inr (sample_event cs) else Inl (OtherErr ''invalid character'')),
     d_fmt_time = (\<lambda>_. ''t''), d_dlq_topic = ''orders.dlq''\<rparr>"

definition sample_env :: "nat list \<Rightarrow> env" where
  "sample_env refused = \<lparr>tick = (\<lambda>_. 0), cancel_at = None, rnd = (\<lambda>_. 0), db_reply = (\<lambda>_. Answered),
     kafka_reply = (\<lambda>n. if n \<in> set refused then Inl (OtherErr ''broker down'') else Inr (0, 0))\<rparr>"

definition sample_rec :: "bytes \<Rightarrow> nat \<Rightarrow> krec" where
  "sample_rec v i =
     \<lparr>Topic = ''orders.created'', Key = ''k'', Value = v, Headers = [], Partition = 0, Offset = i\<rparr>"

definition sample_policy :: retry_policy where
  "sample_policy = \<lparr>Base = 1, MaxDelay = 4, MaxElapsed = 20\<rparr>"

definition sample_st :: "live st" where
  "sample_st = \<lparr>world = \<lparr>steps = 0, now = 0, tbl = [], dead = []\<rparr>, cnt = zero_counters, attempts = 0, inserted = []\<rparr>"

definition sample_worker :: "nat list \<Rightarrow> int \<Rightarrow> live worker" where
  "sample_worker refused batch = live_worker (sample_env refused) sample_deps sample_policy batch"

section \<open>Properties\<close>

text \<open>
  C3. Every record gets an answer, and a positive answer is durable. For any behaviour of the
  clock, the network, the database and the broker, \<open>handle\<close> returns; the table only grows and
  keeps its constraints; and if \<open>handle\<close> says the record is dealt with, then its event is in the
  database or the record itself, bytes and provenance intact, is in the dead-letter queue (as
  poison, if it could not even be decoded).
\<close>

theorem handle_outcome:
  assumes "table_ok (tbl (world s))"
  shows "\<exists>ok s'. handle (live_worker env dp pol batch) rec s = Some (ok, s') \<and>
    table_ok (tbl (world s')) \<and> prefix (tbl (world s)) (tbl (world s')) \<and> prefix (dead (world s)) (dead (world s')) \<and>
    (ok \<longrightarrow>
       (case d_unmarshal dp (Value rec) of
          Inl _ \<Rightarrow> \<exists>d \<in> set (dead (world s')). dead_letter_of (d_dlq_topic dp) rec ReasonPoison d
        | Inr evt \<Rightarrow> stored (d_pg dp) evt (tbl (world s')) \<or>
            (\<exists>d \<in> set (dead (world s')). dead_letter_of (d_dlq_topic dp) rec ReasonPoison d \<or>
                                           dead_letter_of (d_dlq_topic dp) rec ReasonRetriesExhausted d)))"
proof -
  let ?W = "live_worker env dp pol batch"
  obtain ok s' where h: "handle ?W rec s = Some (ok, s')" using handle_returns by fastforce
  have "live.grown (world s) s" using assms by (intro live.grown_refl) (simp add: live_ok_def)
  from live.handle_grown[OF this h] have g: "live_ok (world s')" "live_le (world s) (world s')"
    and a: "ok \<longrightarrow> live.accounted env dp pol batch rec (world s')" by (auto simp: live.grown_def)
  have "unmarshal ?W = d_unmarshal dp" by (simp add: live_worker_def)
  with a have "ok \<longrightarrow>
       (case d_unmarshal dp (Value rec) of
          Inl _ \<Rightarrow> \<exists>d \<in> set (dead (world s')). dead_letter_of (d_dlq_topic dp) rec ReasonPoison d
        | Inr evt \<Rightarrow> stored (d_pg dp) evt (tbl (world s')) \<or>
            (\<exists>d \<in> set (dead (world s')). dead_letter_of (d_dlq_topic dp) rec ReasonPoison d \<or>
                                           dead_letter_of (d_dlq_topic dp) rec ReasonRetriesExhausted d))"
    unfolding live.accounted_def live_persisted_def live_parked_def by (cases "d_unmarshal dp (Value rec)") auto
  with h g show ?thesis unfolding live_ok_def live_le_def by blast
qed

lemma handle_outcome_witness:
  "\<exists>s'. handle (sample_worker [] 1) (sample_rec ''=1'' 0) sample_st = Some (True, s') \<and>
     stored sample_pg (sample_event ''1'') (tbl (world s'))"
proof -
  have t: "table_ok (tbl (world sample_st))" by (simp add: sample_st_def table_ok_def)
  have u: "d_unmarshal sample_deps (Value (sample_rec ''=1'' 0)) = Inr (sample_event ''1'')" "d_pg sample_deps = sample_pg"
    by (simp_all add: sample_deps_def sample_rec_def)
  have "map_option (\<lambda>(ok, s'). (ok, dead (world s'))) (handle (sample_worker [] 1) (sample_rec ''=1'' 0) sample_st) = Some (True, [])"
    by code_simp
  then obtain s' where h: "handle (sample_worker [] 1) (sample_rec ''=1'' 0) sample_st = Some (True, s')" "dead (world s') = []"
    by auto
  with handle_outcome[OF t, of "sample_env []" sample_deps sample_policy 1 "sample_rec ''=1'' 0"]
  show ?thesis by (auto simp: sample_worker_def u)
qed

text \<open>A record whose event is stored already.\<close>

lemma handle_stored:
  assumes "d_unmarshal dp (Value rec) = Inr evt" and "stored (d_pg dp) evt (tbl (world s))"
    and "\<forall>tm. \<exists>r. typed_row (d_pg dp) tm evt = Inr r" and "\<forall>n. db_reply env n = Answered"
  shows "\<exists>s'. handle (live_worker env dp pol batch) rec s = Some (True, s') \<and>
    tbl (world s') = tbl (world s) \<and> dead (world s') = dead (world s) \<and>
    cnt s' = (cnt s)\<lparr>duplicates := duplicates (cnt s) + 1\<rparr>"
proof -
  have ins: "InsertOrder (d_pg dp) Answered tm evt T = (Inr False, T)"
    if T: "stored (d_pg dp) evt T" for tm T
  proof -
    obtain r where r: "typed_row (d_pg dp) tm evt = Inr r" using assms(3) by blast
    then have "row_event_id r \<in> set (map row_event_id T)"
      using T typed_row_Inr[OF r] by (auto simp: stored_def)
    with r show ?thesis by (simp add: InsertOrder_answered insert_row_def)
  qed
  show ?thesis using assms(1,2,4)
    by (auto simp: handle_def live_worker_def Do_def do_loop.simps retry_with_def insert_one_def lift_def
        live_now_def live_insertOrder_def Let_def ins recordOutcome_def)
qed

text \<open>
  Redelivery is recognised. When an event is already stored (and its row would be accepted
  again), the database answers and the retry budget is positive, \<open>handle\<close> says the record is
  dealt with, changes no row and sends no dead letter, and counts one duplicate more and nothing
  else.
\<close>

theorem handle_redelivered:
  assumes "d_unmarshal dp (Value rec) = Inr evt" and "stored (d_pg dp) evt (tbl (world s))"
    and "\<forall>tm. \<exists>r. typed_row (d_pg dp) tm evt = Inr r" and "\<forall>n. db_reply env n = Answered"
  shows "\<exists>s'. handle (live_worker env dp pol batch) rec s = Some (True, s') \<and>
    tbl (world s') = tbl (world s) \<and> dead (world s') = dead (world s) \<and>
    cnt s' = (cnt s)\<lparr>duplicates := duplicates (cnt s) + 1\<rparr>"
  using assms by (rule handle_stored)

lemma handle_redelivered_witness:
  "\<exists>s'. handle (sample_worker [] 1) (sample_rec ''=1'' 0)
     (sample_st\<lparr>world := (world sample_st)\<lparr>tbl := snd (InsertOrder sample_pg Answered 9 (sample_event ''1'') [])\<rparr>\<rparr>) = Some (True, s') \<and>
     duplicates (cnt s') = 1"
proof -
  let ?s = "sample_st\<lparr>world := (world sample_st)\<lparr>tbl := snd (InsertOrder sample_pg Answered 9 (sample_event ''1'') [])\<rparr>\<rparr>"
  have a: "d_unmarshal sample_deps (Value (sample_rec ''=1'' 0)) = Inr (sample_event ''1'')" "d_pg sample_deps = sample_pg"
    by (simp_all add: sample_deps_def sample_rec_def)
  have b: "\<forall>tm. \<exists>r. typed_row (d_pg sample_deps) tm (sample_event ''1'') = Inr r"
    by (simp add: a typed_row_def sample_pg_def sample_event_def)
  have c: "stored (d_pg sample_deps) (sample_event ''1'') (tbl (world ?s))"
    by (simp add: a(2)) (simp add: InsertOrder_answered typed_row_def insert_row_def sample_pg_def sample_event_def stored_def)
  have "\<forall>n. db_reply (sample_env []) n = Answered" by (simp add: sample_env_def)
  from handle_redelivered[OF a(1) c b this, of sample_policy 1] show ?thesis
    by (auto simp: sample_worker_def sample_st_def zero_counters_def)
qed

text \<open>
  A record the database refuses for good is parked at the first attempt. When the server
  answers with an error that \<open>IsRetryable\<close> rejects (a constraint or data error), the context is
  alive and the broker accepts the dead letter, \<open>handle\<close> makes one attempt, waits for nothing,
  and parks the record as poison with that error and the attempt count 1.
\<close>

theorem handle_poison:
  assumes "d_unmarshal dp (Value rec) = Inr evt"
    and "\<forall>tm. InsertOrder (d_pg dp) Answered tm evt (tbl (world s)) = (Inl x, tbl (world s))" and "\<not> IsRetryable (Some x)"
    and "\<forall>n. db_reply env n = Answered" and "cancel_at env = None" and "\<forall>n. \<exists>at. kafka_reply env n = Inr at"
  shows "\<exists>s' t. handle (live_worker env dp pol batch) rec s = Some (True, s') \<and>
    dead (world s') = dead (world s) @ [(dead_record rec ReasonPoison x 1 t)\<lparr>Topic := d_dlq_topic dp\<rparr>] \<and>
    tbl (world s') = tbl (world s) \<and> attempts s' = 1 \<and>
    cnt s' = (cnt s)\<lparr>dlq := dlq (cnt s) + 1\<rparr>"
proof -
  have send: "\<exists>t. live_send env f topic rec reason c n w =
      (None, (advance env w)\<lparr>dead := dead w @ [(dead_record rec reason c n t)\<lparr>Topic := topic\<rparr>]\<rparr>)" for f topic reason c n w
  proof -
    obtain at where "kafka_reply env (Suc (steps w)) = Inr at" using assms(6) by blast
    then show ?thesis
      by (auto simp: live_send_def Send_def PublishRecord_def live_produce_def Let_def dead_record_def)
  qed
  have ret: "retryable x = False" using assms(3) by (simp add: retryable_def)
  define w2 where "w2 = advance env (advance env (world s))"
  let ?w4 = "advance env (advance env w2)"
  from send[of "d_fmt_time dp" "d_dlq_topic dp" ReasonPoison x "Suc 0" ?w4] obtain t where
    t: "live_send env (d_fmt_time dp) (d_dlq_topic dp) rec ReasonPoison x (Suc 0) ?w4 =
      (None, (advance env ?w4)\<lparr>dead := dead (world s) @ [(dead_record rec ReasonPoison x (Suc 0) t)\<lparr>Topic := d_dlq_topic dp\<rparr>]\<rparr>)"
    by (auto simp: w2_def)
  have ins: "InsertOrder (d_pg dp) (db_reply env n) tm evt (tbl (world s)) = (Inl x, tbl (world s))" for n tm
    using assms(2,4) by simp
  have w2: "(advance env (advance env (world s)))\<lparr>tbl := tbl (world s)\<rparr> = w2"
    by (simp add: w2_def advance_def)
  have nc: "\<not> cancelled env w" for w by (simp add: cancelled_def assms(5))
  show ?thesis
    by (auto intro!: exI[of _ t] simp: assms(1) handle_def live_worker_def Do_def do_loop.simps retry_with_def insert_one_def lift_def
        live_now_def live_insertOrder_def live_ctxErr_def Let_def ins w2 nc ret deadLetter_def t[unfolded w2_def] w2_def)
qed

lemma handle_poison_witness:
  "\<exists>s'. handle (sample_worker [] 1) (sample_rec ''=1'' 0)
     (sample_st\<lparr>world := (world sample_st)\<lparr>tbl := [\<lparr>row_order_id = ''o1'', row_event_id = ''e9'', row_customer_id = ''c'',
        row_items = [], row_total_cents = 0, row_occurred_at = 0, row_processed_at = 1\<rparr>]\<rparr>\<rparr>) = Some (True, s') \<and>
     length (dead (world s')) = 1 \<and> attempts s' = 1"
proof -
  let ?T = "[\<lparr>row_order_id = ''o1'', row_event_id = ''e9'', row_customer_id = ''c'',
        row_items = [], row_total_cents = 0, row_occurred_at = 0, row_processed_at = 1\<rparr>]"
  let ?s = "sample_st\<lparr>world := (world sample_st)\<lparr>tbl := ?T\<rparr>\<rparr>"
  let ?x = "Wrapf ''insert order: '' unique_violation ''''"
  have a: "d_unmarshal sample_deps (Value (sample_rec ''=1'' 0)) = Inr (sample_event ''1'')" "d_pg sample_deps = sample_pg"
    by (simp_all add: sample_deps_def sample_rec_def)
  have b: "\<forall>tm. InsertOrder (d_pg sample_deps) Answered tm (sample_event ''1'') (tbl (world ?s)) = (Inl ?x, tbl (world ?s))"
    by (simp add: a(2)) (simp add: InsertOrder_answered typed_row_def insert_row_def sample_pg_def sample_event_def)
  have c: "\<not> IsRetryable (Some ?x)" by (simp add: err_simps unique_violation_def)
  have e: "\<forall>n. db_reply (sample_env []) n = Answered" "cancel_at (sample_env []) = None"
    "\<forall>n. \<exists>at. kafka_reply (sample_env []) n = Inr at" by (simp_all add: sample_env_def)
  from handle_poison[OF a(1) b c e, of sample_policy 1] show ?thesis
    by (auto simp: sample_worker_def sample_st_def)
qed


text \<open>A record whose event is new: one attempt, one row.\<close>

lemma handle_new:
  assumes "d_unmarshal dp (Value rec) = Inr evt" and "\<forall>n. db_reply env n = Answered"
    and "\<And>tm. \<exists>T'. InsertOrder (d_pg dp) Answered tm evt (tbl (world s)) = (Inr True, T')"
  shows "\<exists>s' tm. handle (live_worker env dp pol batch) rec s = Some (True, s') \<and>
    InsertOrder (d_pg dp) Answered tm evt (tbl (world s)) = (Inr True, tbl (world s'))"
proof -
  let ?w = "advance env (advance env (world s))"
  obtain T' where "InsertOrder (d_pg dp) Answered (now ?w) evt (tbl (world s)) = (Inr True, T')" using assms(3) by blast
  then show ?thesis using assms(1,2)
    by (auto simp: handle_def live_worker_def Do_def do_loop.simps retry_with_def insert_one_def lift_def
        live_now_def live_insertOrder_def Let_def recordOutcome_def intro!: exI[of _ "now ?w"])
qed

end
