(* ===== verification/Consumer_Loop.thy ===== *)
theory Consumer_Loop
  imports Pipeline
begin

text \<open>
  \<open>cmd/worker/main.go\<close>, the poll loop of \<open>main\<close> and \<open>resumePaused\<close>, as the steps of a
  consumer-group member.

  \<open>group\<close> holds what the loop shares with the Kafka client for one topic: per partition the log,
  the client's fetch position and the committed offset, the partitions the client holds back,
  the worker's own \<open>pausedSet\<close>, and the worker's state. Log offsets are consecutive from 0.

  Of the client (the \<open>franz-go\<close> package) the model uses what the comments of \<open>main\<close> say: a poll
  delivers the records at the fetch position of partitions not held back and moves the position
  past them; committing a record sets the offset after it; a restart or rebalance fetches from
  the committed offset. Where \<open>ResumeFetchPartitions\<close> leaves the fetch position of a partition is
  the parameter \<open>seek\<close>, of the position and the committed offset.
\<close>

section \<open>The body of the poll loop\<close>

fun each_partition ::
  "'w worker \<Rightarrow> (nat \<times> krec list) list \<Rightarrow> 'w st \<Rightarrow> ((krec list \<times> nat list) go \<times> 'w st) option" where
  "each_partition W [] s = Some (Val ([], []), s)"
| "each_partition W ((p, recs) # fetches) s =
     (case processPartition W recs s of
        None \<Rightarrow> None
      | Some (Panic, s1) \<Rightarrow> Some (Panic, s1)
      | Some (Val (lst, stall), s1) \<Rightarrow>
          (case each_partition W fetches s1 of
             None \<Rightarrow> None
           | Some (Panic, s2) \<Rightarrow> Some (Panic, s2)
           | Some (Val (committable, blocked), s2) \<Rightarrow>
               Some (Val ((case lst of None \<Rightarrow> [] | Some r \<Rightarrow> [r]) @ committable,
                          (if stall then [p] else []) @ blocked), s2)))"

record group =
  logs :: "nat \<Rightarrow> krec list"
  pos :: "nat \<Rightarrow> nat"
  committed :: "nat \<Rightarrow> nat"
  held :: "nat list"
  pset :: pausedSet
  wst :: "live st"
  genv :: env

fun commitRecords :: "krec list \<Rightarrow> (nat \<Rightarrow> nat) \<Rightarrow> (nat \<Rightarrow> nat)" where
  "commitRecords [] c = c"
| "commitRecords (r # rs) c = commitRecords rs (c(Partition r := Suc (Offset r)))"

text \<open>A poll: the next \<open>n\<close> records of each partition named, and the positions after them.\<close>

definition fetch :: "group \<Rightarrow> (nat \<times> nat) list \<Rightarrow> (nat \<times> krec list) list" where
  "fetch g req = map (\<lambda>(p, n). (p, take n (drop (pos g p) (logs g p)))) req"

fun move :: "(nat \<times> krec list) list \<Rightarrow> (nat \<Rightarrow> nat) \<Rightarrow> (nat \<Rightarrow> nat)" where
  "move [] ps = ps"
| "move ((p, recs) # fs) ps = move fs (ps(p := ps p + length recs))"

text \<open>
  The body after \<open>PollFetches\<close>: process every partition, pause the blocked ones, commit. The
  flag says whether \<open>CommitRecords\<close> succeeds.
\<close>

definition loop_body :: "deps \<Rightarrow> retry_policy \<Rightarrow> int \<Rightarrow> (nat \<times> krec list) list \<Rightarrow> bool \<Rightarrow> group \<Rightarrow> group go option" where
  "loop_body dp pol batch fetches commit_ok g =
     (case each_partition (live_worker (genv g) dp pol batch) fetches (wst g) of
        None \<Rightarrow> None
      | Some (Panic, s) \<Rightarrow> Some Panic
      | Some (Val (committable, blocked), s) \<Rightarrow>
          let g1 = g\<lparr>pos := move fetches (pos g), wst := s\<rparr>;
              g2 = (if length blocked > 0
                    then g1\<lparr>held := held g1 @ blocked, pset := paused_add blocked (pset g1),
                            wst := s\<lparr>cnt := (cnt s)\<lparr>paused := paused (cnt s) + length blocked\<rparr>\<rparr>\<rparr>
                    else g1)
          in Some (Val (if length committable = 0 then g2
                        else if commit_ok then g2\<lparr>committed := commitRecords committable (committed g2)\<rparr>
                        else g2)))"

text \<open>One tick of \<open>resumePaused\<close>, with the answer of \<open>dlq.Ping\<close>.\<close>

definition resume_tick :: "(nat \<Rightarrow> nat \<Rightarrow> nat) \<Rightarrow> bool \<Rightarrow> group \<Rightarrow> group" where
  "resume_tick seek ping_ok g =
     (if paused_count (pset g) = 0 then g
      else if \<not> ping_ok then g
      else
        let (parts, ps') = paused_take (pset g)
        in if length parts = 0 then g\<lparr>pset := ps'\<rparr>
           else g\<lparr>pset := ps', held := filter (\<lambda>p. p \<notin> set parts) (held g),
                  pos := (\<lambda>p. if p \<in> set parts then seek (pos g p) (committed g p) else pos g p),
                  wst := (wst g)\<lparr>cnt := (cnt (wst g))\<lparr>resumed := resumed (cnt (wst g)) + length parts\<rparr>\<rparr>\<rparr>)"

section \<open>Steps\<close>

text \<open>
  \<open>others\<close>: another member, or the part of an interrupted batch that took effect, changes the
  database and the dead-letter queue. \<open>restart\<close>: the process dies at any moment and a new one
  (with its own environment and counters) continues from the committed offsets.
\<close>

inductive gstep :: "deps \<Rightarrow> retry_policy \<Rightarrow> int \<Rightarrow> (nat \<Rightarrow> nat \<Rightarrow> nat) \<Rightarrow> group \<Rightarrow> group \<Rightarrow> bool"
  for dp pol batch seek
where
  produce: "Partition r = p \<Longrightarrow> Offset r = length (logs g p) \<Longrightarrow>
     gstep dp pol batch seek g (g\<lparr>logs := (logs g)(p := logs g p @ [r])\<rparr>)"
| poll: "distinct (map fst req) \<Longrightarrow> \<forall>p \<in> fst ` set req. p \<notin> set (held g) \<Longrightarrow>
     loop_body dp pol batch (fetch g req) ok g = Some (Val g') \<Longrightarrow> gstep dp pol batch seek g g'"
| resume: "gstep dp pol batch seek g (resume_tick seek ping_ok g)"
| others: "live_le (world (wst g)) w \<Longrightarrow> live_ok w \<Longrightarrow>
     gstep dp pol batch seek g (g\<lparr>wst := (wst g)\<lparr>world := w\<rparr>\<rparr>)"
| restart: "world s = world (wst g) \<Longrightarrow>
     gstep dp pol batch seek g
       (g\<lparr>pos := committed g, held := [], pset := newPausedSet, wst := s, genv := env\<rparr>)"
| rebalance: "gstep dp pol batch seek g (g\<lparr>pos := (pos g)(p := committed g p)\<rparr>)"

definition init_group :: "env \<Rightarrow> group" where
  "init_group env =
     \<lparr>logs = (\<lambda>_. []), pos = (\<lambda>_. 0), committed = (\<lambda>_. 0), held = [], pset = newPausedSet,
      wst = \<lparr>world = \<lparr>steps = 0, now = 0, tbl = [], dead = []\<rparr>, cnt = zero_counters, attempts = 0,
             inserted = []\<rparr>, genv = env\<rparr>"

inductive reachable :: "deps \<Rightarrow> retry_policy \<Rightarrow> int \<Rightarrow> (nat \<Rightarrow> nat \<Rightarrow> nat) \<Rightarrow> group \<Rightarrow> bool"
  for dp pol batch seek
where
  init: "reachable dp pol batch seek (init_group env)"
| step: "reachable dp pol batch seek g \<Longrightarrow> gstep dp pol batch seek g g' \<Longrightarrow> reachable dp pol batch seek g'"

section \<open>What is committed is accounted for\<close>

text \<open>A record of the topic is durable: persisted, or parked with its reason.\<close>

definition durable :: "deps \<Rightarrow> krec \<Rightarrow> live \<Rightarrow> bool" where
  "durable dp rec w =
     (case d_unmarshal dp (Value rec) of
        Inl _ \<Rightarrow> live_parked dp rec ReasonPoison w
      | Inr evt \<Rightarrow> live_persisted dp evt w \<or> live_parked dp rec ReasonPoison w \<or>
                   live_parked dp rec ReasonRetriesExhausted w)"

lemma durable_accounted: "live.accounted env dp pol batch rec w = durable dp rec w"
  unfolding live.accounted_def durable_def by (simp add: live_worker_def)

lemma durable_mono: "live_le w w' \<Longrightarrow> durable dp rec w \<Longrightarrow> durable dp rec w'"
  using live.accounted_mono by (simp add: durable_accounted)

text \<open>What one call of \<open>processPartition\<close> does for the records it is given.\<close>

definition worked :: "deps \<Rightarrow> live \<Rightarrow> krec list \<Rightarrow> krec list \<Rightarrow> krec list \<Rightarrow> bool" where
  "worked dp w recs ds rest \<longleftrightarrow> recs = ds @ rest \<and> (\<forall>r \<in> set ds. durable dp r w)"

lemma worked_mono: "worked dp w recs ds rest \<Longrightarrow> live_le w w' \<Longrightarrow> worked dp w' recs ds rest"
  by (auto simp: worked_def intro: durable_mono)

lemma processPartition_worked:
  assumes "live_ok (world s)" and "1 \<le> batch"
    and "processPartition (live_worker env dp pol batch) recs s = Some (x, s')"
  shows "\<exists>ds rest b. x = Val (if ds = [] then None else Some (last ds), b) \<and>
    live_ok (world s') \<and> live_le (world s) (world s') \<and> worked dp (world s') recs ds rest \<and>
    (b \<longrightarrow> rest \<noteq> []) \<and> (\<not> b \<longrightarrow> rest \<noteq> [] \<longrightarrow> cancelled env (world s')) \<and>
    (ds \<noteq> [] \<longrightarrow> \<not> cancelled env (world s))"
proof -
  let ?W = "live_worker env dp pol batch"
  have b1: "1 \<le> batchSize ?W" using assms(2) by (simp add: live_worker_def)
  have "live.grown (world s) s" using assms(1) by (rule live.grown_refl)
  from live.process_from_grown[OF b1 this assms(3)[unfolded processPartition_def]]
  obtain l b rest ds where x: "x = Val (l, b)" "live.grown (world s) s'" "recs = ds @ rest"
    "\<forall>r \<in> set ds. durable dp r (world s')" "l = (if ds = [] then None else Some (last ds))"
    "b \<longrightarrow> rest \<noteq> []" "\<not> b \<longrightarrow> rest \<noteq> [] \<longrightarrow> cancelled env (world s')"
    by (auto simp: live.progress_def durable_accounted)
  have "\<not> cancelled env (world s)" if "ds \<noteq> []"
  proof
    assume "cancelled env (world s)"
    from live.process_from_cancelled[OF this assms(1), of recs dp pol batch None]
    have "x = Val (None, False)"
      using assms(3) that x(3) by (auto simp: processPartition_def)
    with x(1,5) that show False by simp
  qed
  with x show ?thesis by (auto simp: worked_def live.grown_def)
qed

lemma each_partition_worked:
  assumes "1 \<le> batch"
  shows "live_ok (world s) \<Longrightarrow> each_partition (live_worker env dp pol batch) fs s = Some (x, s') \<Longrightarrow>
    \<exists>cs bs. x = Val (cs, bs) \<and> live_ok (world s') \<and> live_le (world s) (world s') \<and>
      set bs \<subseteq> fst ` set fs \<and>
      (\<forall>(p, recs) \<in> set fs. \<exists>ds rest. worked dp (world s') recs ds rest \<and>
         (p \<in> set bs \<or> rest = [] \<or> cancelled env (world s'))) \<and>
      (\<forall>r \<in> set cs. \<not> cancelled env (world s) \<and>
         (\<exists>(p, recs) \<in> set fs. \<exists>ds rest. worked dp (world s') recs ds rest \<and> ds \<noteq> [] \<and> last ds = r))"
proof (induction fs arbitrary: s x)
  case Nil
  then show ?case by (auto simp: live_le_def)
next
  case (Cons f fs)
  let ?W = "live_worker env dp pol batch"
  obtain p recs where f: "f = (p, recs)" by fastforce
  obtain y s1 where y: "processPartition ?W recs s = Some (y, s1)"
    using process_from_returns by (fastforce simp: processPartition_def)
  from processPartition_worked[OF Cons.prems(1) assms y] obtain ds rest b where
    d: "y = Val (if ds = [] then None else Some (last ds), b)" "live_ok (world s1)"
      "live_le (world s) (world s1)" "worked dp (world s1) recs ds rest"
      "b \<longrightarrow> rest \<noteq> []" "\<not> b \<longrightarrow> rest \<noteq> [] \<longrightarrow> cancelled env (world s1)"
      "ds \<noteq> [] \<longrightarrow> \<not> cancelled env (world s)" by blast
  from Cons.prems(2) y d(1) obtain z where z: "each_partition ?W fs s1 = Some (z, s')"
    by (auto simp: f split: option.splits go.splits)
  from Cons.IH[OF d(2) z] obtain cs bs where
    i: "z = Val (cs, bs)" "live_ok (world s')" "live_le (world s1) (world s')" "set bs \<subseteq> fst ` set fs"
      "\<forall>(p, recs) \<in> set fs. \<exists>ds rest. worked dp (world s') recs ds rest \<and>
         (p \<in> set bs \<or> rest = [] \<or> cancelled env (world s'))"
      "\<forall>r \<in> set cs. \<not> cancelled env (world s1) \<and>
         (\<exists>(p, recs) \<in> set fs. \<exists>ds rest. worked dp (world s') recs ds rest \<and> ds \<noteq> [] \<and> last ds = r)" by blast
  have x: "x = Val ((if ds = [] then [] else [last ds]) @ cs, (if b then [p] else []) @ bs)"
    using Cons.prems(2) y d(1) z i(1) by (auto simp: f split: if_splits)
  have le: "live_le (world s) (world s')" using d(3) i(3) live.le_trans by blast
  have w: "worked dp (world s') recs ds rest" using worked_mono[OF d(4) i(3)] .
  have stop: "p \<in> set ((if b then [p] else []) @ bs) \<or> rest = [] \<or> cancelled env (world s')"
    using d(6) i(3) live.stopped_mono by auto
  have earlier: "\<not> cancelled env (world s1) \<Longrightarrow> \<not> cancelled env (world s)"
    using d(3) live.stopped_mono by blast
  show ?case
  proof (intro exI conjI)
    show "\<forall>(p', recs') \<in> set (f # fs). \<exists>ds rest. worked dp (world s') recs' ds rest \<and>
        (p' \<in> set ((if b then [p] else []) @ bs) \<or> rest = [] \<or> cancelled env (world s'))"
      using w stop i(5) by (fastforce simp: f)
    show "\<forall>r \<in> set ((if ds = [] then [] else [last ds]) @ cs). \<not> cancelled env (world s) \<and>
        (\<exists>(p, recs) \<in> set (f # fs). \<exists>ds rest. worked dp (world s') recs ds rest \<and> ds \<noteq> [] \<and> last ds = r)"
      using w d(7) i(6) earlier by (fastforce simp: f split: if_splits)
  qed (use x i le in \<open>auto simp: f\<close>)
qed

text \<open>Positions and commits.\<close>

lemma move_other: "p \<notin> fst ` set fs \<Longrightarrow> move fs ps p = ps p"
  by (induction fs ps rule: move.induct) auto

lemma move_fetched:
  "distinct (map fst fs) \<Longrightarrow> (p, recs) \<in> set fs \<Longrightarrow> move fs ps p = ps p + length recs"
  by (induction fs ps rule: move.induct) (auto simp: move_other image_iff)

lemma commitRecords_all:
  "(\<And>p. Q p (c p)) \<Longrightarrow> (\<And>r. r \<in> set cs \<Longrightarrow> Q (Partition r) (Suc (Offset r))) \<Longrightarrow> Q p (commitRecords cs c p)"
  by (induction cs c rule: commitRecords.induct) auto

definition log_ok :: "group \<Rightarrow> bool" where
  "log_ok g \<longleftrightarrow>
     (\<forall>p i. i < length (logs g p) \<longrightarrow> Partition (logs g p ! i) = p \<and> Offset (logs g p ! i) = i)"

text \<open>Every record of partition \<open>p\<close> before offset \<open>n\<close> exists and is durable.\<close>

definition covered :: "deps \<Rightarrow> group \<Rightarrow> nat \<Rightarrow> nat \<Rightarrow> bool" where
  "covered dp g p n \<longleftrightarrow>
     n \<le> length (logs g p) \<and> (\<forall>i < n. durable dp (logs g p ! i) (world (wst g)))"

definition group_inv :: "deps \<Rightarrow> group \<Rightarrow> bool" where
  "group_inv dp g \<longleftrightarrow>
     live_ok (world (wst g)) \<and> log_ok g \<and>
     (\<forall>p. covered dp g p (committed g p)) \<and>
     (\<forall>p. pos g p \<le> length (logs g p)) \<and>
     (\<forall>p. p \<notin> set (held g) \<longrightarrow> \<not> cancelled (genv g) (world (wst g)) \<longrightarrow> covered dp g p (pos g p)) \<and>
     set (held g) \<subseteq> set (pset g)"

lemma covered_grow:
  assumes "covered dp g p n" and "logs g' = logs g" and "live_le (world (wst g)) (world (wst g'))"
  shows "covered dp g' p n"
  using assms by (auto simp: covered_def intro: durable_mono)

lemma covered_extend:
  assumes "covered dp g p (pos g p)" and "worked dp (world (wst g)) (take n (drop (pos g p) (logs g p))) ds rest"
  shows "covered dp g p (pos g p + length ds)"
proof -
  let ?recs = "take n (drop (pos g p) (logs g p))"
  from assms(2) have r: "?recs = ds @ rest" "\<forall>r \<in> set ds. durable dp r (world (wst g))"
    by (auto simp: worked_def)
  have len: "pos g p + length ds \<le> length (logs g p)"
    using arg_cong[OF r(1), of length] assms(1) by (auto simp: covered_def min_def split: if_splits)
  have "durable dp (logs g p ! i) (world (wst g))" if "i < pos g p + length ds" for i
  proof (cases "i < pos g p")
    case True
    with assms(1) show ?thesis by (simp add: covered_def)
  next
    case False
    let ?j = "i - pos g p"
    have "?j < length ds" using that False by simp
    then have "ds ! ?j = ?recs ! ?j" by (simp add: r(1) nth_append)
    also have "\<dots> = logs g p ! i"
      using \<open>?j < length ds\<close> arg_cong[OF r(1), of length] len False by (simp add: nth_append)
    finally show ?thesis using r(2) \<open>?j < length ds\<close> nth_mem by metis
  qed
  with len show ?thesis by (simp add: covered_def)
qed

lemma worked_last:
  assumes "log_ok g" and "pos g p \<le> length (logs g p)"
    and "take n (drop (pos g p) (logs g p)) = ds @ rest" and "ds \<noteq> []"
  shows "Partition (last ds) = p \<and> Suc (Offset (last ds)) = pos g p + length ds"
proof -
  let ?i = "pos g p + (length ds - 1)"
  have l: "length ds \<le> length (drop (pos g p) (logs g p))"
    using arg_cong[OF assms(3), of length] by simp
  have "last ds = take n (drop (pos g p) (logs g p)) ! (length ds - 1)"
    using assms(3,4) by (simp add: last_conv_nth nth_append)
  also have "\<dots> = logs g p ! ?i"
    using arg_cong[OF assms(3), of length] assms(2,4) l
    by (subst nth_take) (auto simp: Suc_le_eq neq_Nil_conv less_Suc_eq_le)
  finally have "last ds = logs g p ! ?i" .
  moreover have "?i < length (logs g p)" using l assms(2,4) by (cases ds) auto
  ultimately show ?thesis using assms(1,4) by (cases ds) (auto simp: log_ok_def)
qed

lemma fetch_mem: "(p, recs) \<in> set (fetch g req) \<Longrightarrow>
    p \<in> fst ` set req \<and> (\<exists>n. recs = take n (drop (pos g p) (logs g p)))"
  by (force simp: fetch_def)

lemma fst_fetch: "map fst (fetch g req) = map fst req"
  by (auto simp: fetch_def)

lemma loop_body_shape:
  assumes "loop_body dp pol batch fs ok g = Some (Val g')"
  obtains cs bs s where "each_partition (live_worker (genv g) dp pol batch) fs (wst g) = Some (Val (cs, bs), s)"
    "world (wst g') = world s" "logs g' = logs g" "genv g' = genv g" "pos g' = move fs (pos g)"
    "held g' = held g @ bs" "set (pset g') = set (pset g) \<union> set bs"
    "committed g' = committed g \<or> committed g' = commitRecords cs (committed g)"
proof -
  obtain cs bs s where e: "each_partition (live_worker (genv g) dp pol batch) fs (wst g) = Some (Val (cs, bs), s)"
    using assms by (auto simp: loop_body_def split: option.splits go.splits)
  show ?thesis
    by (rule that[OF e]) (use assms e in \<open>auto simp: loop_body_def Let_def set_paused_add split: if_splits\<close>)
qed

lemma poll_inv:
  assumes inv: "group_inv dp g" and b: "1 \<le> batch" and req: "distinct (map fst req)"
    and free: "\<forall>p \<in> fst ` set req. p \<notin> set (held g)"
    and body: "loop_body dp pol batch (fetch g req) ok g = Some (Val g')"
  shows "group_inv dp g'"
proof -
  let ?fs = "fetch g req"
  from body obtain cs bs s where
    e: "each_partition (live_worker (genv g) dp pol batch) ?fs (wst g) = Some (Val (cs, bs), s)"
    and g': "world (wst g') = world s" "logs g' = logs g" "genv g' = genv g" "pos g' = move ?fs (pos g)"
      "held g' = held g @ bs" "set (pset g') = set (pset g) \<union> set bs"
      "committed g' = committed g \<or> committed g' = commitRecords cs (committed g)"
    by (rule loop_body_shape)
  from inv have ok: "live_ok (world (wst g))" and log: "log_ok g"
    and com: "\<And>p. covered dp g p (committed g p)" and pl: "\<And>p. pos g p \<le> length (logs g p)"
    and cov: "\<And>p. p \<notin> set (held g) \<Longrightarrow> \<not> cancelled (genv g) (world (wst g)) \<Longrightarrow> covered dp g p (pos g p)"
    and hp: "set (held g) \<subseteq> set (pset g)"
    by (auto simp: group_inv_def)
  from each_partition_worked[OF b ok e]
  have w: "live_ok (world s)" "live_le (world (wst g)) (world s)"
    "\<forall>(p, recs) \<in> set ?fs. \<exists>ds rest. worked dp (world s) recs ds rest \<and>
       (p \<in> set bs \<or> rest = [] \<or> cancelled (genv g) (world s))"
    "\<forall>r \<in> set cs. \<not> cancelled (genv g) (world (wst g)) \<and>
       (\<exists>(p, recs) \<in> set ?fs. \<exists>ds rest. worked dp (world s) recs ds rest \<and> ds \<noteq> [] \<and> last ds = r)"
    by auto
  have grow: "covered dp g p n \<Longrightarrow> covered dp g' p n" for p n
    using covered_grow g'(1,2) w(2) by metis
  have ext: "covered dp g' p (pos g p + length ds)"
    if "(p, recs) \<in> set ?fs" "worked dp (world s) recs ds rest" "\<not> cancelled (genv g) (world (wst g))" for p recs ds rest
  proof -
    from fetch_mem[OF that(1)] obtain n where p: "p \<in> fst ` set req" and n: "recs = take n (drop (pos g p) (logs g p))" by blast
    let ?h = "g'\<lparr>pos := pos g\<rparr>"
    have "p \<notin> set (held g)" using p free by blast
    then have "covered dp g' p (pos g p)" using grow[OF cov[OF _ that(3)]] by blast
    then have "covered dp ?h p (pos ?h p)" by (simp add: covered_def)
    from covered_extend[OF this, of n ds rest] show ?thesis
      using that(2) n g'(1,2) by (simp add: covered_def)
  qed
  have all: "covered dp g' p (committed g' p)" for p
  proof (cases "committed g' = committed g")
    case True
    then show ?thesis using grow com by simp
  next
    case False
    with g'(7) have eq: "committed g' = commitRecords cs (committed g)" by blast
    show ?thesis unfolding eq
    proof (rule commitRecords_all)
      show "covered dp g' p (committed g p)" for p using grow com by simp
    next
      fix r assume "r \<in> set cs"
      with w(4) obtain p recs ds rest where r: "\<not> cancelled (genv g) (world (wst g))" "(p, recs) \<in> set ?fs"
        "worked dp (world s) recs ds rest" "ds \<noteq> []" "last ds = r" by blast
      from fetch_mem[OF r(2)] obtain n where "recs = take n (drop (pos g p) (logs g p))" by blast
      with worked_last[OF log pl, of n p ds rest] r(3,4,5)
      have "Partition r = p" "Suc (Offset r) = pos g p + length ds" by (auto simp: worked_def)
      with ext[OF r(2,3,1)] show "covered dp g' (Partition r) (Suc (Offset r))" by simp
    qed
  qed
  have posc: "pos g' p \<le> length (logs g' p) \<and>
      (p \<notin> set (held g') \<longrightarrow> \<not> cancelled (genv g') (world (wst g')) \<longrightarrow> covered dp g' p (pos g' p))" for p
  proof (cases "p \<in> fst ` set ?fs")
    case False
    then show ?thesis
      using move_other[OF False, of "pos g"] pl[of p] grow[OF cov, of p] g' live.stopped_mono[OF w(2)] by auto
  next
    case True
    then obtain recs where m: "(p, recs) \<in> set ?fs" by auto
    have mv: "pos g' p = pos g p + length recs"
      using move_fetched[OF _ m] req by (simp add: g'(4) fst_fetch)
    from fetch_mem[OF m] obtain n where n: "recs = take n (drop (pos g p) (logs g p))" by blast
    have "covered dp g' p (pos g' p)"
      if "p \<notin> set (held g')" "\<not> cancelled (genv g') (world (wst g'))"
    proof -
      have nc: "\<not> cancelled (genv g) (world (wst g))" using that(2) g'(1,3) live.stopped_mono[OF w(2)] by auto
      from w(3) m obtain ds rest where d: "worked dp (world s) recs ds rest"
        "p \<in> set bs \<or> rest = [] \<or> cancelled (genv g) (world s)" by blast
      with that g' have "rest = []" by auto
      with d(1) have "ds = recs" by (simp add: worked_def)
      with ext[OF m d(1) nc] mv show ?thesis by simp
    qed
    moreover have "pos g' p \<le> length (logs g' p)" using mv n pl[of p] g'(2) by auto
    ultimately show ?thesis by blast
  qed
  show ?thesis
    unfolding group_inv_def
    using w(1) g' log all posc hp by (auto simp: log_ok_def)
qed

lemma resume_inv:
  assumes inv: "group_inv dp g" and seek: "\<And>a b. seek a b \<le> b"
  shows "group_inv dp (resume_tick seek ping g)"
proof (cases "paused_count (pset g) = 0 \<or> \<not> ping")
  case True
  with inv show ?thesis by (auto simp: resume_tick_def)
next
  case False
  let ?g = "resume_tick seek ping g"
  have t: "paused_take (pset g) = (pset g, [])" "pset g \<noteq> []"
    using False by (auto simp: paused_take_def paused_count_def)
  have eq: "logs ?g = logs g" "committed ?g = committed g" "genv ?g = genv g" "world (wst ?g) = world (wst g)"
    "pset ?g = []" "held ?g = filter (\<lambda>p. p \<notin> set (pset g)) (held g)"
    "pos ?g = (\<lambda>p. if p \<in> set (pset g) then seek (pos g p) (committed g p) else pos g p)"
    using False t by (simp_all add: resume_tick_def)
  have c: "covered dp ?g p n = covered dp g p n" for p n by (simp add: covered_def eq)
  have down: "covered dp g p n \<Longrightarrow> m \<le> n \<Longrightarrow> covered dp g p m" for p m n
    by (auto simp: covered_def)
  have s: "covered dp g p (seek (pos g p) (committed g p))" for p
    using inv down[OF _ seek] unfolding group_inv_def by blast
  have "pos ?g p \<le> length (logs ?g p)" for p
    using s[of p] inv by (auto simp: eq covered_def group_inv_def)
  moreover have "covered dp ?g p (pos ?g p)"
    if "p \<notin> set (held ?g)" "\<not> cancelled (genv ?g) (world (wst ?g))" for p
    using that s[of p] inv by (auto simp: c eq group_inv_def)
  moreover have "set (held ?g) \<subseteq> set (pset ?g)" using inv by (auto simp: eq group_inv_def)
  ultimately show ?thesis using inv c by (auto simp: group_inv_def log_ok_def eq)
qed

lemma produce_inv:
  assumes inv: "group_inv dp g" and r: "Partition r = p" "Offset r = length (logs g p)"
  shows "group_inv dp (g\<lparr>logs := (logs g)(p := logs g p @ [r])\<rparr>)" (is "group_inv dp ?h")
proof -
  have c: "covered dp g q n \<Longrightarrow> covered dp ?h q n" for q n
    by (auto simp: covered_def nth_append)
  have log: "log_ok ?h" using inv r by (auto simp: group_inv_def log_ok_def nth_append less_Suc_eq)
  have pl: "pos g q \<le> length (logs ?h q)" for q
    using inv by (auto simp: group_inv_def le_SucI)
  show ?thesis
    unfolding group_inv_def
  proof (intro conjI allI impI)
    show "covered dp ?h q (committed ?h q)" for q using inv c by (simp add: group_inv_def)
    show "covered dp ?h q (pos ?h q)" if "q \<notin> set (held ?h)" "\<not> cancelled (genv ?h) (world (wst ?h))" for q
      using inv c that by (simp add: group_inv_def)
    show "pos ?h q \<le> length (logs ?h q)" for q using pl by simp
  qed (use inv log in \<open>simp_all add: group_inv_def\<close>)
qed

lemma others_inv:
  assumes inv: "group_inv dp g" and w: "live_le (world (wst g)) w" "live_ok w"
  shows "group_inv dp (g\<lparr>wst := (wst g)\<lparr>world := w\<rparr>\<rparr>)" (is "group_inv dp ?h")
proof -
  have c: "covered dp g q n \<Longrightarrow> covered dp ?h q n" for q n
    using covered_grow w by simp
  have "cancelled (genv g) (world (wst g)) \<Longrightarrow> cancelled (genv g) w"
    using live.stopped_mono[OF w(1)] .
  with inv c w(2) show ?thesis unfolding group_inv_def log_ok_def by auto
qed

lemma gstep_inv:
  assumes "gstep dp pol batch seek g g'" and "group_inv dp g" and b: "1 \<le> batch" and sk: "\<And>a b. seek a b \<le> b"
  shows "group_inv dp g'"
  using assms(1,2)
proof (induction rule: gstep.induct)
  case (produce r p g)
  from produce.prems produce.hyps show ?case by (rule produce_inv)
next
  case (poll req g ok g')
  from poll.prems b poll.hyps show ?case by (rule poll_inv)
next
  case (resume g ping_ok)
  from resume.prems sk show ?case by (rule resume_inv)
next
  case (others g w)
  from others.prems others.hyps show ?case by (rule others_inv)
next
  case (restart s g env)
  then show ?case by (simp add: group_inv_def log_ok_def covered_def)
next
  case (rebalance g p)
  then show ?case by (simp add: group_inv_def log_ok_def covered_def)
qed

lemma reachable_inv:
  assumes "reachable dp pol batch seek g" and "1 \<le> batch" and "\<And>a b. seek a b \<le> b"
  shows "group_inv dp g"
  using assms(1)
proof induction
  case (init env)
  show ?case by (simp add: group_inv_def init_group_def log_ok_def covered_def live_ok_def table_ok_def)
next
  case (step g g')
  then show ?case using gstep_inv assms(2,3) by blast
qed

text \<open>What the client holds back, the worker has noted, whatever resuming does to positions.\<close>

lemma reachable_held:
  assumes "reachable dp pol batch seek g"
  shows "set (held g) \<subseteq> set (pset g)"
  using assms
proof induction
  case (init env)
  show ?case by (simp add: init_group_def)
next
  case (step g g')
  from step.hyps(2) step.IH show ?case
  proof (induction rule: gstep.induct)
    case (poll req g ok g')
    then show ?case using loop_body_shape[OF poll.hyps(3)] by (metis Un_mono set_append subset_refl)
  next
    case (resume g ping_ok)
    then show ?case by (auto simp: resume_tick_def Let_def paused_take_def split: if_splits)
  qed simp_all
qed

section \<open>The loop always comes back\<close>

lemma each_partition_returns:
  assumes "1 \<le> batch"
  shows "live_ok (world s) \<Longrightarrow> \<exists>cs bs s'. each_partition (live_worker env dp pol batch) fs s = Some (Val (cs, bs), s')"
proof (induction fs arbitrary: s)
  case (Cons f fs)
  let ?W = "live_worker env dp pol batch"
  obtain p recs where f: "f = (p, recs)" by fastforce
  obtain y s1 where y: "processPartition ?W recs s = Some (y, s1)"
    using process_from_returns by (fastforce simp: processPartition_def)
  from processPartition_worked[OF Cons.prems assms y] obtain l b where
    "y = Val (l, b)" "live_ok (world s1)" by blast
  with Cons.IH[of s1] y show ?case by (auto simp: f)
qed simp

section \<open>Properties\<close>


lemma returned: "(case x of Some (Val g) \<Rightarrow> P g | _ \<Rightarrow> False) \<Longrightarrow> \<exists>g. x = Some (Val g) \<and> P g"
  by (auto split: option.splits go.splits)

text \<open>Sample groups: a partition with the given payloads, polled once with the given refusals.\<close>

definition sample_group :: "nat list \<Rightarrow> bytes list \<Rightarrow> group" where
  "sample_group refused vs =
     (init_group (sample_env refused))\<lparr>logs := (\<lambda>p. if p = 0 then map (\<lambda>(v, i). sample_rec v i) (zip vs [0..<length vs]) else [])\<rparr>"

definition sample_poll :: "group \<Rightarrow> group go option" where
  "sample_poll g = loop_body sample_deps sample_policy 1 (fetch g [(0, 10)]) True g"

lemma sample_group_reachable:
  "reachable sample_deps sample_policy 1 seek (sample_group refused [v])"
proof -
  have "gstep sample_deps sample_policy 1 seek (init_group (sample_env refused))
     ((init_group (sample_env refused))\<lparr>logs := (logs (init_group (sample_env refused)))(0 := logs (init_group (sample_env refused)) 0 @ [sample_rec v 0])\<rparr>)"
    by (rule gstep.produce) (simp_all add: sample_rec_def init_group_def)
  moreover have "(init_group (sample_env refused))\<lparr>logs := (logs (init_group (sample_env refused)))(0 := logs (init_group (sample_env refused)) 0 @ [sample_rec v 0])\<rparr>
     = sample_group refused [v]"
    by (simp add: sample_group_def init_group_def fun_eq_iff)
  ultimately show ?thesis using reachable.init reachable.step by metis
qed

lemma sample_poll_step:
  assumes "reachable sample_deps sample_policy 1 seek g" and "held g = []" and "sample_poll g = Some (Val g')"
  shows "reachable sample_deps sample_policy 1 seek g'"
  using assms reachable.step gstep.poll[of "[(0, 10)]" g] by (fastforce simp: sample_poll_def)

lemma sample_poll_good:
  "(case sample_poll (sample_group [] [''=1'']) of Some (Val g) \<Rightarrow> committed g 0 = 1 \<and> length (tbl (world (wst g))) = 1 | _ \<Rightarrow> False)"
  by code_simp


text \<open>The sequence of the finding: a record that can be neither decoded nor parked, a resume, a second record.\<close>

definition skip_paused :: "group go option" where
  "skip_paused = sample_poll (sample_group [2] [''bad''])"

definition skip_resumed :: "group \<Rightarrow> group" where
  "skip_resumed g =
     (let g1 = resume_tick (\<lambda>a b. a) True g
      in g1\<lparr>logs := (logs g1)(0 := logs g1 0 @ [sample_rec ''=1'' 1])\<rparr>)"

lemma skip_evaluated:
  "(case skip_paused of
      Some (Val g) \<Rightarrow> committed g 0 = 0 \<and> held g = [0] \<and> length (logs g 0) = 1 \<and>
        (case sample_poll (skip_resumed g) of
           Some (Val h) \<Rightarrow> committed h 0 = 2 \<and> dead (world (wst h)) = [] \<and> Value (logs h 0 ! 0) = ''bad''
         | _ \<Rightarrow> False)
    | _ \<Rightarrow> False)"
  by code_simp

lemma skip_states:
  obtains g h where "skip_paused = Some (Val g)" "length (logs g 0) = 1"
    "sample_poll (skip_resumed g) = Some (Val h)" "committed h 0 = 2" "dead (world (wst h)) = []"
    "Value (logs h 0 ! 0) = ''bad''" "held g = [0]"
proof -
  from returned[OF skip_evaluated] obtain g where g: "skip_paused = Some (Val g)" "held g = [0]" "length (logs g 0) = 1"
    and h: "case sample_poll (skip_resumed g) of
           Some (Val h) \<Rightarrow> committed h 0 = 2 \<and> dead (world (wst h)) = [] \<and> Value (logs h 0 ! 0) = ''bad''
         | _ \<Rightarrow> False" by blast
  from returned[OF h] g that show thesis by blast
qed

text \<open>
  C34. The hypothesis of the previous property is needed, and \<open>resumePaused\<close> does not establish
  it: if resuming a partition leaves the fetch position where it is (behind the record that
  paused it), as \<open>ResumeFetchPartitions\<close> without a rewind does, then a state is reachable in
  which the offset after an undecodable record is committed although the record is in neither
  the database nor the dead-letter queue.
\<close>

theorem resume_without_rewind_loses:
  "\<exists>g. reachable sample_deps sample_policy 1 (\<lambda>a b. a) g \<and> 0 < committed g 0 \<and>
     \<not> durable sample_deps (logs g 0 ! 0) (world (wst g))"
proof -
  let ?seek = "\<lambda>a b :: nat. a"
  obtain g h where g: "skip_paused = Some (Val g)" "length (logs g 0) = 1"
    and h: "sample_poll (skip_resumed g) = Some (Val h)" "committed h 0 = 2" "dead (world (wst h)) = []"
      "Value (logs h 0 ! 0) = ''bad''" and hg: "held g = [0]"
    by (rule skip_states)
  let ?g1 = "resume_tick ?seek True g"
  have r1: "reachable sample_deps sample_policy 1 ?seek g"
    by (rule sample_poll_step[OF sample_group_reachable _ g(1)[unfolded skip_paused_def]])
      (simp add: sample_group_def init_group_def)
  then have r2: "reachable sample_deps sample_policy 1 ?seek ?g1"
    using reachable.step gstep.resume by blast
  have same: "logs ?g1 = logs g" by (auto simp: resume_tick_def Let_def split: prod.splits)
  have "gstep sample_deps sample_policy 1 ?seek ?g1 (skip_resumed g)"
    unfolding skip_resumed_def Let_def
    by (rule gstep.produce) (simp_all add: sample_rec_def same g(2))
  with r2 have r3: "reachable sample_deps sample_policy 1 ?seek (skip_resumed g)" by (rule reachable.step)
  have "set (held g) \<subseteq> set (pset g)" using r1 by (rule reachable_held)
  with hg have "held (skip_resumed g) = []"
    by (auto simp: skip_resumed_def resume_tick_def Let_def paused_take_def paused_count_def)
  from sample_poll_step[OF r3 this h(1)] have r: "reachable sample_deps sample_policy 1 ?seek h" .
  have "\<not> durable sample_deps (logs h 0 ! 0) (world (wst h))"
    using h(3,4) by (simp add: durable_def sample_deps_def live_parked_def)
  with r h(2) show ?thesis by auto
qed

text \<open>
  C33. A pause ends with the outage: in every reachable state, one tick of \<open>resumePaused\<close> that finds
  Kafka answering leaves no partition held back and none in the paused set, and counts each
  partition it releases; a tick that finds Kafka down changes nothing.
\<close>

theorem resume_releases_all:
  assumes "reachable dp pol batch seek g"
  shows "held (resume_tick seek True g) = [] \<and> pset (resume_tick seek True g) = [] \<and>
    resumed (cnt (wst (resume_tick seek True g))) = resumed (cnt (wst g)) + paused_count (pset g) \<and>
    resume_tick seek False g = g"
proof -
  have h: "set (held g) \<subseteq> set (pset g)" by (rule reachable_held[OF assms])
  then have "pset g = [] \<Longrightarrow> held g = []" by simp
  moreover have "filter (\<lambda>p. p \<notin> set (pset g)) (held g) = []" using h by (auto simp: filter_empty_conv)
  ultimately show ?thesis by (auto simp: resume_tick_def paused_take_def paused_count_def)
qed

lemma resume_releases_all_witness:
  "\<exists>g. skip_paused = Some (Val g) \<and> held g = [0] \<and> held (resume_tick (\<lambda>a b. b) True g) = []"
proof -
  obtain g where g: "skip_paused = Some (Val g)" "held g = [0]"
    using skip_states by blast
  have "reachable sample_deps sample_policy 1 (\<lambda>a b. b) g"
    by (rule sample_poll_step[OF sample_group_reachable _ g(1)[unfolded skip_paused_def]])
      (simp add: sample_group_def init_group_def)
  from resume_releases_all[OF this] g show ?thesis by blast
qed

text \<open>
  The poll loop never hangs and never panics. With a batch size of at least 1, for every fetch
  and every behaviour of the database, the broker and the clock, one pass of the loop body over
  a table that satisfies its constraints returns normally.
\<close>

theorem loop_body_returns:
  assumes "1 \<le> batch" and "table_ok (tbl (world (wst g)))"
  shows "\<exists>g'. loop_body dp pol batch fetches ok g = Some (Val g')"
proof -
  have "live_ok (world (wst g))" using assms(2) by (simp add: live_ok_def)
  from each_partition_returns[OF assms(1) this, of "genv g" dp pol fetches] show ?thesis
    by (fastforce simp: loop_body_def Let_def)
qed

lemma loop_body_returns_witness:
  "\<exists>g'. loop_body sample_deps sample_policy 1 (fetch (sample_group [2] [''bad'']) [(0, 10)]) True (sample_group [2] [''bad'']) = Some (Val g')"
  by (rule loop_body_returns) (simp_all add: sample_group_def init_group_def table_ok_def)

text \<open>
  What \<open>processPartition\<close> returns is safe to commit. With a batch size of at least 1 the
  records split into a prefix that is durable and a rest; the record returned is the last of the
  prefix; the partition is reported blocked only if there is a rest, and a rest without a report
  means that the work context was cancelled. With a batch size below 1 the same call panics on
  the first record.
\<close>

theorem processPartition_commit_point:
  assumes "table_ok (tbl (world s))" and "recs \<noteq> []" and "cancel_at env = None"
  shows "\<exists>x s'. processPartition (live_worker env dp pol batch) recs s = Some (x, s') \<and>
    (if 1 \<le> batch
     then \<exists>ds rest. recs = ds @ rest \<and> (\<forall>r \<in> set ds. durable dp r (world s')) \<and>
            x = Val (if ds = [] then None else Some (last ds), rest \<noteq> [])
     else x = Panic)"
proof -
  let ?W = "live_worker env dp pol batch"
  obtain x s' where x: "processPartition ?W recs s = Some (x, s')"
    using process_from_returns by (fastforce simp: processPartition_def)
  show ?thesis
  proof (cases "1 \<le> batch")
    case True
    have ok: "live_ok (world s)" using assms(1) by (simp add: live_ok_def)
    have "\<not> cancelled env w" for w by (simp add: cancelled_def assms(3))
    with processPartition_worked[OF ok True x] obtain ds rest b where
      "x = Val (if ds = [] then None else Some (last ds), b)" "worked dp (world s') recs ds rest"
      "b \<longrightarrow> rest \<noteq> []" "\<not> b \<longrightarrow> rest = []" by blast
    then have "recs = ds @ rest \<and> (\<forall>r \<in> set ds. durable dp r (world s')) \<and>
        x = Val (if ds = [] then None else Some (last ds), rest \<noteq> [])"
      unfolding worked_def by auto
    with x True show ?thesis by auto
  next
    case False
    have "\<not> cancelled env w" for w by (simp add: cancelled_def assms(3))
    with False assms(2) x show ?thesis
      by (simp add: processPartition_def process_from.simps lift_def live_worker_def live_ctxErr_def Let_def)
  qed
qed

lemma processPartition_commit_point_witness:
  "\<exists>x s' ds rest. processPartition (sample_worker [] 2) [sample_rec ''=1'' 0, sample_rec ''bad'' 1] sample_st = Some (x, s') \<and>
     [sample_rec ''=1'' 0, sample_rec ''bad'' 1] = ds @ rest \<and> x = Val (if ds = [] then None else Some (last ds), rest \<noteq> [])"
proof -
  have a: "table_ok (tbl (world sample_st))" "cancel_at (sample_env []) = None"
    by (simp_all add: sample_st_def table_ok_def sample_env_def)
  from processPartition_commit_point[OF a(1) _ a(2), of "[sample_rec ''=1'' 0, sample_rec ''bad'' 1]" sample_deps sample_policy 2]
  have "\<exists>x s'. processPartition (sample_worker [] 2) [sample_rec ''=1'' 0, sample_rec ''bad'' 1] sample_st = Some (x, s') \<and>
     (\<exists>ds rest. [sample_rec ''=1'' 0, sample_rec ''bad'' 1] = ds @ rest \<and>
        (\<forall>r \<in> set ds. durable sample_deps r (world s')) \<and> x = Val (if ds = [] then None else Some (last ds), rest \<noteq> []))"
    unfolding sample_worker_def by simp
  then show ?thesis by blast
qed

end
