(* ===== verification/Worker_Main.thy ===== *)
theory Worker_Main
  imports Consumer_Loop
begin

text \<open>
  \<open>cmd/worker/main.go\<close>, \<open>main\<close> around the body of the poll loop: when the loop is left, the order of
  the shutdown, and \<open>watchdog\<close>. The signal cancels \<open>fetchCtx\<close>; \<open>workCtx\<close> is the \<open>cancelled\<close> of the worker's
  environment. The client is closed by \<open>main\<close> itself, after the loop. A process that is killed in
  the middle of a pass leaves what had taken effect by then, which is the step \<open>others\<close>.
\<close>

section \<open>The loop\<close>

text \<open>\<open>workerID\<close>, with the environment variable, the host name and the process number.\<close>

definition workerID :: "string \<Rightarrow> string \<Rightarrow> int \<Rightarrow> string" where
  "workerID v host pid = (if v \<noteq> '''' then v else host @ ''-'' @ itoa pid)"

definition num_records :: "(nat \<times> krec list) list \<Rightarrow> nat" where
  "num_records fetches = sum_list (map (length \<circ> snd) fetches)"

text \<open>The list \<open>committable\<close> of a pass.\<close>

definition committable_of :: "deps \<Rightarrow> retry_policy \<Rightarrow> int \<Rightarrow> (nat \<times> krec list) list \<Rightarrow> group \<Rightarrow> krec list" where
  "committable_of dp pol batch fetches g =
     (case each_partition (live_worker (genv g) dp pol batch) fetches (wst g) of
        Some (Val (committable, _), _) \<Rightarrow> committable
      | _ \<Rightarrow> [])"

text \<open>
  One pass, with whether the client is closed and whether the signal has arrived at the two
  places where \<open>fetchCtx.Err\<close> is read; the flag of the result is whether the loop goes on.
\<close>

definition main_pass ::
  "deps \<Rightarrow> retry_policy \<Rightarrow> int \<Rightarrow> bool \<Rightarrow> bool \<Rightarrow> bool \<Rightarrow> (nat \<times> krec list) list \<Rightarrow> bool \<Rightarrow> group \<Rightarrow> (bool \<times> group) go option" where
  "main_pass dp pol batch closed sig1 sig2 fetches commit_ok g =
     (if closed then Some (Val (False, g))
      else if sig1 \<and> num_records fetches = 0 then Some (Val (False, g))
      else case loop_body dp pol batch fetches commit_ok g of
             None \<Rightarrow> None
           | Some Panic \<Rightarrow> Some Panic
           | Some (Val g') \<Rightarrow> Some (Val (\<not> (committable_of dp pol batch fetches g = [] \<and> sig2), g')))"

section \<open>The process\<close>

datatype place = Polling | LeavingGroup | ClosingDLQ | ClosingDB | Exited nat

text \<open>\<open>commits_ok\<close> records whether every \<open>CommitRecords\<close> so far succeeded.\<close>

record proc =
  grp :: group
  place :: place
  signalled :: bool
  commits_ok :: bool

text \<open>After the loop: close the client, which leaves the group, then the producer and the pool.\<close>

fun shutdown_next :: "place \<Rightarrow> place option" where
  "shutdown_next LeavingGroup = Some ClosingDLQ"
| "shutdown_next ClosingDLQ = Some ClosingDB"
| "shutdown_next ClosingDB = Some (Exited 0)"
| "shutdown_next _ = None"

text \<open>From the signal on the watchdog may exit at any moment: its deadline or a second signal.\<close>

definition watchdog :: "proc \<Rightarrow> proc option" where
  "watchdog P =
     (case place P of Exited _ \<Rightarrow> None
      | _ \<Rightarrow> if signalled P then Some (P\<lparr>place := Exited 1\<rparr>) else None)"

inductive proc_step :: "deps \<Rightarrow> retry_policy \<Rightarrow> int \<Rightarrow> (nat \<Rightarrow> nat \<Rightarrow> nat) \<Rightarrow> proc \<Rightarrow> proc \<Rightarrow> bool"
  for dp pol batch seek
where
  pass: "place P = Polling \<Longrightarrow> signalled P \<longrightarrow> sig1 \<Longrightarrow> sig1 \<longrightarrow> sig2 \<Longrightarrow>
     distinct (map fst req) \<Longrightarrow> \<forall>p \<in> fst ` set req. p \<notin> set (held (grp P)) \<Longrightarrow>
     main_pass dp pol batch False sig1 sig2 (fetch (grp P) req) ok (grp P) = Some (Val (go_on, g)) \<Longrightarrow>
     proc_step dp pol batch seek P
       \<lparr>grp = g, place = (if go_on then Polling else LeavingGroup), signalled = sig2,
        commits_ok = (commits_ok P \<and> (ok \<or> committable_of dp pol batch (fetch (grp P) req) (grp P) = []))\<rparr>"
| panic: "place P = Polling \<Longrightarrow> main_pass dp pol batch False sig1 sig2 (fetch (grp P) req) ok (grp P) = Some Panic \<Longrightarrow>
     proc_step dp pol batch seek P (P\<lparr>place := Exited 2\<rparr>)"
| resume: "place P = Polling \<Longrightarrow> proc_step dp pol batch seek P (P\<lparr>grp := resume_tick seek ping_ok (grp P)\<rparr>)"
| rebalance: "place P = Polling \<Longrightarrow>
     proc_step dp pol batch seek P (P\<lparr>grp := (grp P)\<lparr>pos := (pos (grp P))(p := committed (grp P) p)\<rparr>\<rparr>)"
| shutdown: "shutdown_next (place P) = Some pl \<Longrightarrow> proc_step dp pol batch seek P (P\<lparr>place := pl\<rparr>)"
| signal: "proc_step dp pol batch seek P (P\<lparr>signalled := True\<rparr>)"
| hard_exit: "watchdog P = Some P' \<Longrightarrow> proc_step dp pol batch seek P P'"
| produce: "Partition r = p \<Longrightarrow> Offset r = length (logs (grp P) p) \<Longrightarrow>
     proc_step dp pol batch seek P (P\<lparr>grp := (grp P)\<lparr>logs := (logs (grp P))(p := logs (grp P) p @ [r])\<rparr>\<rparr>)"
| others: "live_le (world (wst (grp P))) w \<Longrightarrow> live_ok w \<Longrightarrow>
     proc_step dp pol batch seek P (P\<lparr>grp := (grp P)\<lparr>wst := (wst (grp P))\<lparr>world := w\<rparr>\<rparr>\<rparr>)"

inductive proc_reachable :: "deps \<Rightarrow> retry_policy \<Rightarrow> int \<Rightarrow> (nat \<Rightarrow> nat \<Rightarrow> nat) \<Rightarrow> proc \<Rightarrow> bool"
  for dp pol batch seek
where
  init: "reachable dp pol batch seek g \<Longrightarrow> pos g = committed g \<Longrightarrow>
     proc_reachable dp pol batch seek \<lparr>grp = g, place = Polling, signalled = False, commits_ok = True\<rparr>"
| step: "proc_reachable dp pol batch seek P \<Longrightarrow> proc_step dp pol batch seek P P' \<Longrightarrow> proc_reachable dp pol batch seek P'"

section \<open>What a pass commits\<close>

lemma commitRecords_append: "commitRecords (xs @ ys) c = commitRecords ys (commitRecords xs c)"
  by (induction xs arbitrary: c) simp_all

lemma each_partition_commits:
  assumes "1 \<le> batch"
  shows "live_ok (world s) \<Longrightarrow> each_partition (live_worker env dp pol batch) fs s = Some (Val (cs, bs), s') \<Longrightarrow>
    \<not> cancelled env (world s') \<Longrightarrow> distinct (map fst fs) \<Longrightarrow> \<forall>(p, recs) \<in> set fs. \<forall>r \<in> set recs. Partition r = p \<Longrightarrow>
    (\<forall>(p, recs) \<in> set fs. p \<notin> set bs \<longrightarrow>
       commitRecords cs c p = (if recs = [] then c p else Suc (Offset (last recs)))) \<and>
    (\<forall>p. p \<notin> fst ` set fs \<longrightarrow> commitRecords cs c p = c p)"
proof (induction fs arbitrary: s cs bs c)
  case (Cons f fs)
  let ?W = "live_worker env dp pol batch"
  obtain p recs where f: "f = (p, recs)" by fastforce
  obtain y s1 where y: "processPartition ?W recs s = Some (y, s1)"
    using process_from_returns by (fastforce simp: processPartition_def)
  from processPartition_worked[OF Cons.prems(1) assms y] obtain ds rest b where
    d: "y = Val (if ds = [] then None else Some (last ds), b)" "live_ok (world s1)" "worked dp (world s1) recs ds rest"
      "\<not> b \<longrightarrow> rest \<noteq> [] \<longrightarrow> cancelled env (world s1)" by blast
  from Cons.prems(2) y d(1) obtain cs1 bs1 where z: "each_partition ?W fs s1 = Some (Val (cs1, bs1), s')"
    and cs: "cs = (if ds = [] then [] else [last ds]) @ cs1" and bs: "bs = (if b then [p] else []) @ bs1"
    by (auto simp: f split: option.splits go.splits if_splits)
  define c1 where "c1 = commitRecords (if ds = [] then [] else [last ds]) c"
  have com: "commitRecords cs c = commitRecords cs1 c1" by (simp only: cs commitRecords_append c1_def)
  have part: "\<forall>(p, recs) \<in> set fs. \<forall>r \<in> set recs. Partition r = p" and dist: "distinct (map fst fs)"
    and p: "p \<notin> fst ` set fs" and pr: "\<forall>r \<in> set recs. Partition r = p"
    using Cons.prems(4,5) by (auto simp: f)
  note IH = Cons.IH[OF d(2) z Cons.prems(3) dist part, of c1]
  have "live_le (world s1) (world s')" using each_partition_worked[OF assms d(2) z] by auto
  then have nc: "\<not> cancelled env (world s1)" using Cons.prems(3) live.stopped_mono by blast
  have r: "recs = ds @ rest" using d(3) by (simp add: worked_def)
  have lp: "ds \<noteq> [] \<Longrightarrow> Partition (last ds) = p" using pr r by simp
  have cc: "c1 q = (if q = p \<and> ds \<noteq> [] then Suc (Offset (last ds)) else c q)" for q using lp by (auto simp: c1_def)
  have "commitRecords cs c p = (if recs = [] then c p else Suc (Offset (last recs)))" if "\<not> b"
  proof -
    have "recs = ds" using that d(4) nc r by auto
    then show ?thesis using IH p cc[of p] by (simp add: com)
  qed
  moreover have "commitRecords cs c q = (if recs' = [] then c q else Suc (Offset (last recs')))"
    if "(q, recs') \<in> set fs" "q \<notin> set bs1" for q recs'
  proof -
    have "q \<noteq> p" using p that(1) by (metis fst_conv image_eqI)
    with IH that cc[of q] show ?thesis by (auto simp: com)
  qed
  moreover have "commitRecords cs c q = c q" if "q \<notin> fst ` set (f # fs)" for q
    using IH that cc[of q] by (simp add: com f)
  ultimately show ?case by (auto simp: f bs)
qed simp


section \<open>Draining\<close>

text \<open>What was delivered of a partition that is not paused is committed.\<close>

definition drained :: "group \<Rightarrow> bool" where
  "drained g \<longleftrightarrow> (\<not> cancelled (genv g) (world (wst g)) \<longrightarrow> (\<forall>p. p \<notin> set (held g) \<longrightarrow> pos g p \<le> committed g p))"

lemma drainedD: "drained g \<Longrightarrow> \<not> cancelled (genv g) (world (wst g)) \<Longrightarrow> p \<notin> set (held g) \<Longrightarrow> pos g p \<le> committed g p"
  by (simp add: drained_def)

lemma loop_body_commits:
  assumes "loop_body dp pol batch fs ok g = Some (Val g')" and "ok \<or> committable_of dp pol batch fs g = []"
  obtains cs bs s where "each_partition (live_worker (genv g) dp pol batch) fs (wst g) = Some (Val (cs, bs), s)"
    "world (wst g') = world s" "genv g' = genv g" "pos g' = move fs (pos g)" "held g' = held g @ bs"
    "committed g' = commitRecords cs (committed g)"
proof -
  obtain cs bs s where e: "each_partition (live_worker (genv g) dp pol batch) fs (wst g) = Some (Val (cs, bs), s)"
    using assms(1) by (auto simp: loop_body_def split: option.splits go.splits)
  show ?thesis
    by (rule that[OF e]) (use assms e in \<open>auto simp: loop_body_def committable_of_def Let_def split: if_splits\<close>)
qed

lemma pass_drained:
  assumes inv: "group_inv dp g" and b: "1 \<le> batch" and req: "distinct (map fst req)" and dr: "drained g"
    and body: "loop_body dp pol batch (fetch g req) ok g = Some (Val g')"
    and ok: "ok \<or> committable_of dp pol batch (fetch g req) g = []"
  shows "drained g'"
  unfolding drained_def
proof (intro impI allI)
  fix p assume nc: "\<not> cancelled (genv g') (world (wst g'))" and free: "p \<notin> set (held g')"
  let ?fs = "fetch g req"
  from body ok obtain cs bs s where e: "each_partition (live_worker (genv g) dp pol batch) ?fs (wst g) = Some (Val (cs, bs), s)"
    and g': "world (wst g') = world s" "genv g' = genv g" "pos g' = move ?fs (pos g)" "held g' = held g @ bs"
      "committed g' = commitRecords cs (committed g)" by (rule loop_body_commits)
  have lok: "live_ok (world (wst g))" and log: "log_ok g" and pl: "\<And>p. pos g p \<le> length (logs g p)"
    using inv by (auto simp: group_inv_def)
  have ncs: "\<not> cancelled (genv g) (world s)" using nc g' by simp
  moreover have "live_le (world (wst g)) (world s)" using each_partition_worked[OF b lok e] by auto
  ultimately have nc0: "\<not> cancelled (genv g) (world (wst g))" using live.stopped_mono by blast
  have old: "pos g p \<le> committed g p" using drainedD[OF dr nc0] free g'(4) by simp
  have "Partition r = q" if m: "(q, recs) \<in> set ?fs" and r: "r \<in> set recs" for q recs r
  proof -
    from fetch_mem[OF m] obtain n where "recs = take n (drop (pos g q) (logs g q))" by blast
    with r have "r \<in> set (logs g q)" by (metis in_set_dropD in_set_takeD)
    then show ?thesis using log by (auto simp: log_ok_def in_set_conv_nth)
  qed
  then have part: "\<forall>(p, recs) \<in> set ?fs. \<forall>r \<in> set recs. Partition r = p" by blast
  have dist: "distinct (map fst ?fs)" using req by (simp add: fst_fetch)
  note com = each_partition_commits[OF b lok e ncs dist part, of "committed g"]
  show "pos g' p \<le> committed g' p"
  proof (cases "p \<in> fst ` set ?fs")
    case False
    with com old g' show ?thesis by (simp add: move_other)
  next
    case True
    then obtain recs where m: "(p, recs) \<in> set ?fs" by auto
    have mv: "pos g' p = pos g p + length recs" using move_fetched[OF dist m] g'(3) by simp
    have c: "committed g' p = (if recs = [] then committed g p else Suc (Offset (last recs)))"
      using com m free g'(4,5) by auto
    from fetch_mem[OF m] obtain n where n: "recs = take n (drop (pos g p) (logs g p))" by blast
    show ?thesis using worked_last[OF log pl, of n p recs "[]"] mv c old n by (cases "recs = []") auto
  qed
qed

lemma resume_drained:
  assumes "drained g" and "\<And>a b. seek a b \<le> b"
  shows "drained (resume_tick seek ping g)"
  using assms by (auto simp: drained_def resume_tick_def paused_take_def Let_def)

lemma no_panic:
  assumes "group_inv dp g" and "1 \<le> batch"
  shows "main_pass dp pol batch c sig1 sig2 fs ok g \<noteq> Some Panic"
proof -
  have "live_ok (world (wst g))" using assms(1) by (simp add: group_inv_def)
  from each_partition_returns[OF assms(2) this, of "genv g" dp pol fs] show ?thesis
    by (auto simp: main_pass_def loop_body_def Let_def split: option.splits)
qed

definition proc_inv :: "deps \<Rightarrow> proc \<Rightarrow> bool" where
  "proc_inv dp P \<longleftrightarrow> group_inv dp (grp P) \<and> (commits_ok P \<longrightarrow> drained (grp P)) \<and>
     (place P \<noteq> Polling \<longrightarrow> signalled P) \<and> place P \<in> {Polling, LeavingGroup, ClosingDLQ, ClosingDB, Exited 0, Exited 1}"

lemma proc_step_inv:
  assumes "proc_step dp pol batch seek P P'" and "proc_inv dp P" and b: "1 \<le> batch" and sk: "\<And>a b. seek a b \<le> b"
  shows "proc_inv dp P'"
  using assms(1)
proof (cases rule: proc_step.cases)
  case (pass sig1 sig2 req ok go_on g)
  have inv: "group_inv dp (grp P)" using assms(2) by (simp add: proc_inv_def)
  show ?thesis
  proof (cases "sig1 \<and> num_records (fetch (grp P) req) = 0")
    case True
    with pass(7) have "g = grp P" "\<not> go_on" by (auto simp: main_pass_def)
    with True pass(1,4) assms(2) show ?thesis by (auto simp: proc_inv_def)
  next
    case False
    with pass(7) have body: "loop_body dp pol batch (fetch (grp P) req) ok (grp P) = Some (Val g)" and go: "\<not> go_on \<longrightarrow> sig2"
      by (auto simp: main_pass_def split: option.splits go.splits)
    from poll_inv[OF inv b pass(5,6) body] pass_drained[OF inv b pass(5) _ body] go pass(1) assms(2)
    show ?thesis by (auto simp: proc_inv_def)
  qed
next
  case (panic sig1 sig2 req ok)
  then show ?thesis using no_panic[OF _ b] assms(2) by (auto simp: proc_inv_def)
next
  case (resume ping_ok)
  with assms(2) resume_inv[OF _ sk] resume_drained[OF _ sk] show ?thesis by (auto simp: proc_inv_def)
next
  case (rebalance p)
  have "group_inv dp (grp P) \<Longrightarrow> group_inv dp ((grp P)\<lparr>pos := (pos (grp P))(p := committed (grp P) p)\<rparr>)"
    by (simp add: group_inv_def log_ok_def covered_def)
  with rebalance assms(2) show ?thesis by (auto simp: proc_inv_def drained_def)
next
  case (produce r p)
  with assms(2) produce_inv[OF _ produce(2,3)] show ?thesis by (auto simp: proc_inv_def drained_def)
next
  case (others w)
  with assms(2) others_inv[OF _ others(2,3)] live.stopped_mono[OF others(2)] show ?thesis by (auto simp: proc_inv_def drained_def)
next
  case (shutdown pl)
  with assms(2) show ?thesis by (cases "place P") (auto simp: proc_inv_def)
next
  case hard_exit
  with assms(2) show ?thesis by (cases "place P") (auto simp: proc_inv_def watchdog_def split: if_splits)
qed (use assms(2) in \<open>auto simp: proc_inv_def\<close>)

lemma proc_reachable_inv:
  assumes "proc_reachable dp pol batch seek P" and "1 \<le> batch" and "\<And>a b. seek a b \<le> b"
  shows "proc_inv dp P"
  using assms(1)
proof induction
  case (init g)
  then show ?case using reachable_inv[OF _ assms(2,3)] by (simp add: proc_inv_def drained_def)
next
  case (step P P')
  then show ?case using proc_step_inv assms(2,3) by blast
qed



lemma sample_pass:
  "(case main_pass sample_deps sample_policy 1 False False True (fetch (sample_group [] [''=1'']) [(0, 10)]) True (sample_group [] [''=1'']) of
      Some (Val (go_on, g)) \<Rightarrow> go_on \<and> pos g 0 = 1 \<and> held g = [] \<and> \<not> cancelled (genv g) (world (wst g))
    | _ \<Rightarrow> False)"
  by code_simp


end
