(* ===== verification/Service_Main.thy ===== *)
theory Service_Main
  imports Config Worker_Main
begin

text \<open>
  The start of the services: \<open>main\<close> of \<open>cmd/api\<close>, \<open>cmd/query\<close>, \<open>cmd/worker\<close> and \<open>cmd/smoke\<close> up to where they
  serve or poll, with the constructors they call: \<open>New\<close> and \<open>Migrate\<close> of \<open>internal/store\<close>, \<open>NewProducer\<close>,
  \<open>NewConsumerGroup\<close> and \<open>NewDLQ\<close> of \<open>internal/broker\<close>. The Kafka client, the connection pool, the gRPC
  dialer and the listener are the fields of \<open>outside\<close>: each says how it fails, if it does. A client
  is the list of the options it was made with.
\<close>

section \<open>Constructors\<close>

datatype kopt =
    SeedBrokers "string list" | DefaultProduceTopic string | RequiredAcksAllISR | ProducerBatchMaxBytes nat
  | RecordDeliveryTimeout duration | ConsumerGroup string | ConsumeTopics string | ConsumeFromStart
  | OnPartitionsAssigned | OnPartitionsRevoked | OnPartitionsLost | DisableAutoCommit

record outside =
  kgo_new :: "kopt list \<Rightarrow> err option"
  pgx_new :: "string \<Rightarrow> err option"
  pgx_parse :: "string \<Rightarrow> err option"
  pgx_pool :: "string \<Rightarrow> i32 \<Rightarrow> err option"
  pgx_ping :: "string \<Rightarrow> err option"
  pgx_exec :: "string \<Rightarrow> err option"
  grpc_dial :: "string \<Rightarrow> err option"
  net_listen :: "string \<Rightarrow> err option"

definition producer_options :: "string list \<Rightarrow> string \<Rightarrow> kopt list" where
  "producer_options brokers topic =
     [SeedBrokers brokers, DefaultProduceTopic topic, RequiredAcksAllISR, ProducerBatchMaxBytes (2 ^ 20),
      RecordDeliveryTimeout (10 * second)]"

definition NewProducer :: "outside \<Rightarrow> string list \<Rightarrow> string \<Rightarrow> kopt list res" where
  "NewProducer E brokers topic =
     (case kgo_new E (producer_options brokers topic) of
        Some e \<Rightarrow> Inl (Wrapf ''kafka producer: '' e '''')
      | None \<Rightarrow> Inr (producer_options brokers topic))"

definition NewDLQ :: "outside \<Rightarrow> string list \<Rightarrow> string \<Rightarrow> kopt list res" where
  "NewDLQ E brokers topic =
     (case NewProducer E brokers topic of Inl e \<Rightarrow> Inl (Wrapf ''dlq producer: '' e '''') | Inr p \<Rightarrow> Inr p)"

text \<open>\<open>Ping\<close> of the producer, which that of the dead-letter queue calls, on the client's answer.\<close>

definition producer_Ping :: "err option \<Rightarrow> err option" where
  "producer_Ping answer = (case answer of Some e \<Rightarrow> Some (Wrapf ''ping kafka: '' e '''') | None \<Rightarrow> None)"

record consumerOptions =
  Brokers :: "string list"
  CTopic :: string
  GroupID :: string
  ManualCommit :: bool

definition NewConsumerGroup :: "outside \<Rightarrow> consumerOptions \<Rightarrow> kopt list res" where
  "NewConsumerGroup E opts =
     (let kopts = [SeedBrokers (Brokers opts), ConsumerGroup (GroupID opts), ConsumeTopics (CTopic opts), ConsumeFromStart,
                   OnPartitionsAssigned, OnPartitionsRevoked, OnPartitionsLost];
          kopts = (if ManualCommit opts then kopts @ [DisableAutoCommit] else kopts)
      in case kgo_new E kopts of Some e \<Rightarrow> Inl (Wrapf ''kafka consumer: '' e '''') | None \<Rightarrow> Inr kopts)"

text \<open>\<open>New\<close> of the store; the flag says whether a pool was left open.\<close>

definition store_New :: "outside \<Rightarrow> string \<Rightarrow> i32 \<Rightarrow> err option \<times> bool" where
  "store_New E dsn maxConns =
     (case pgx_parse E dsn of
        Some e \<Rightarrow> (Some (Wrapf ''parse dsn: '' e ''''), False)
      | None \<Rightarrow>
          (case pgx_pool E dsn maxConns of
             Some e \<Rightarrow> (Some (Wrapf ''connect: '' e ''''), False)
           | None \<Rightarrow>
               (case pgx_ping E dsn of
                  Some e \<Rightarrow> (Some (Wrapf ''ping: '' e ''''), False)
                | None \<Rightarrow> (None, True))))"

definition Migrate :: "outside \<Rightarrow> string \<Rightarrow> err option" where
  "Migrate E schema = (case pgx_exec E schema of Some e \<Rightarrow> Some (Wrapf ''apply schema: '' e '''') | None \<Rightarrow> None)"

section \<open>Services\<close>

text \<open>
  What \<open>main\<close> opens, in order: what it logs if that fails, and how it fails. Failing, it exits with
  status 1; having opened everything, it runs. The second component lists what was tried.
\<close>

datatype started = Exits nat string | Runs

fun open_all :: "(string \<times> err option) list \<Rightarrow> started \<times> string list" where
  "open_all [] = (Runs, [])"
| "open_all ((what, r) # rest) =
     (case r of
        Some e \<Rightarrow> (Exits 1 what, [what])
      | None \<Rightarrow> (case open_all rest of (st, tried) \<Rightarrow> (st, what # tried)))"

definition service_main :: "config res \<Rightarrow> (config \<Rightarrow> (string \<times> err option) list) \<Rightarrow> started \<times> string list" where
  "service_main loaded opens =
     (case loaded of Inl e \<Rightarrow> (Exits 1 (''invalid configuration: '' @ err_text e), []) | Inr cfg \<Rightarrow> open_all (opens cfg))"

definition err_of :: "'a res \<Rightarrow> err option" where
  "err_of r = (case r of Inl e \<Rightarrow> Some e | Inr _ \<Rightarrow> None)"

definition api_opens :: "outside \<Rightarrow> config \<Rightarrow> (string \<times> err option) list" where
  "api_opens E cfg =
     [(''start producer'', err_of (NewProducer E (KafkaBrokers cfg) (KafkaTopic cfg))),
      (''dial query service'', grpc_dial E (QueryGRPCAddr cfg))]"

definition query_opens :: "outside \<Rightarrow> config \<Rightarrow> (string \<times> err option) list" where
  "query_opens E cfg =
     [(''connect postgres'', fst (store_New E (PostgresDSN cfg) (PostgresMaxConns cfg))),
      (''listen'', net_listen E (QueryListenAddr cfg))]"

definition worker_consumer :: "config \<Rightarrow> consumerOptions" where
  "worker_consumer cfg =
     \<lparr>Brokers = KafkaBrokers cfg, CTopic = KafkaTopic cfg, GroupID = KafkaGroupID cfg, ManualCommit = True\<rparr>"

definition worker_opens :: "outside \<Rightarrow> string \<Rightarrow> config \<Rightarrow> (string \<times> err option) list" where
  "worker_opens E schema cfg =
     [(''connect postgres'', fst (store_New E (PostgresDSN cfg) (PostgresMaxConns cfg))),
      (''migrate'', Migrate E schema),
      (''start consumer'', err_of (NewConsumerGroup E (worker_consumer cfg))),
      (''start dlq producer'', err_of (NewDLQ E (KafkaBrokers cfg) (KafkaDLQTopic cfg)))]"

text \<open>The smoke check: two connections, a query, and the topics that \<open>ListTopics\<close> found.\<close>

definition smoke :: "outside \<Rightarrow> (string \<Rightarrow> err option) \<Rightarrow> (string list \<Rightarrow> string list res) \<Rightarrow> config res \<Rightarrow> started \<times> string list" where
  "smoke E select_version list_topics loaded =
     service_main loaded (\<lambda>cfg.
       [(''postgres pool'', pgx_new E (PostgresDSN cfg)),
        (''postgres query'', select_version (PostgresDSN cfg)),
        (''kafka client'', kgo_new E [SeedBrokers (KafkaBrokers cfg)]),
        (''kafka list topics'', err_of (list_topics [KafkaTopic cfg, KafkaDLQTopic cfg])),
        (''kafka reachable but expected topics are missing'',
         case list_topics [KafkaTopic cfg, KafkaDLQTopic cfg] of
           Inr [] \<Rightarrow> Some (OtherErr ''no topics'') | _ \<Rightarrow> None)])"

section \<open>Properties\<close>

lemma open_all_runs: "fst (open_all xs) = Runs \<longleftrightarrow> (\<forall>(what, r) \<in> set xs. r = None)"
  by (induction xs rule: open_all.induct) (auto split: option.split prod.splits)

lemma open_all_tried:
  "snd (open_all xs) = map fst (takeWhile (\<lambda>x. snd x = None) xs @ take 1 (dropWhile (\<lambda>x. snd x = None) xs))"
  by (induction xs rule: open_all.induct) (auto split: option.split prod.split)

lemma open_all_exit: "fst (open_all xs) \<noteq> Runs \<Longrightarrow> \<exists>what. fst (open_all xs) = Exits 1 what"
  by (induction xs rule: open_all.induct) (auto split: option.splits prod.splits)


definition all_up :: outside where
  "all_up = \<lparr>kgo_new = (\<lambda>_. None), pgx_new = (\<lambda>_. None), pgx_parse = (\<lambda>_. None), pgx_pool = (\<lambda>_ _. None), pgx_ping = (\<lambda>_. None),
             pgx_exec = (\<lambda>_. None), grpc_dial = (\<lambda>_. None), net_listen = (\<lambda>_. Some (OtherErr ''address in use''))\<rparr>"


text \<open>
  The smoke check does not need the topic it is about. It passes with status 0 whenever the
  connections and the query work and one topic is found: also if the only one is the dead-letter
  topic and the topic of the orders is missing.
\<close>

theorem smoke_misses_topic:
  assumes "loaded = Inr cfg" and "pgx_new E (PostgresDSN cfg) = None" and "select_version (PostgresDSN cfg) = None"
    and "kgo_new E [SeedBrokers (KafkaBrokers cfg)] = None"
    and "list_topics [KafkaTopic cfg, KafkaDLQTopic cfg] = Inr found"
  shows "fst (smoke E select_version list_topics loaded) = Runs \<longleftrightarrow> found \<noteq> []"
  using assms by (simp add: smoke_def service_main_def err_of_def split: list.split)

lemma smoke_misses_topic_witness:
  "\<exists>cfg. Load (\<lambda>s. s) (\<lambda>_. None) = Inr cfg \<and> KafkaTopic cfg \<notin> set [KafkaDLQTopic cfg] \<and>
     fst (smoke all_up (\<lambda>_. None) (\<lambda>_. Inr [KafkaDLQTopic cfg]) (Load (\<lambda>s. s) (\<lambda>_. None))) = Runs"
proof -
  have "(case Load (\<lambda>s. s) (\<lambda>_. None) of Inl _ \<Rightarrow> False | Inr _ \<Rightarrow> True)" by code_simp
  then obtain cfg where l: "Load (\<lambda>s. s) (\<lambda>_. None) = Inr cfg" by (auto split: sum.splits)
  with smoke_misses_topic[OF l, of all_up "\<lambda>_. None" "\<lambda>_. Inr [KafkaDLQTopic cfg]"] Load_range[OF l]
  show ?thesis by (auto simp: all_up_def)
qed

end
