(* ===== verification/Service_Stop.thy ===== *)
theory Service_Stop
  imports Service_Main "HOL-Library.Multiset"
begin

text \<open>
  The end of the servers: \<open>main\<close> of \<open>cmd/api\<close> and \<open>cmd/query\<close> and \<open>Serve\<close> of \<open>internal/metrics\<close>, from where
  they serve. A signal, or a listener that fails, ends the context; then the server stops
  accepting (\<open>Shutdown\<close>, \<open>GracefulStop\<close>) and is given \<open>grace\<close> to answer what it has accepted; when that
  is up, \<open>main\<close> returns (or calls \<open>Stop\<close>), and what is not answered is cut off. Requests are numbered
  as they are accepted. That the two stop calls return once every request is answered, and
  accept none, is what their packages document.
\<close>

datatype sphase = Open | Stopping time | Ended time time

record server =
  s_clock :: time
  s_done :: bool
  s_failed :: bool
  s_phase :: sphase
  s_accepted :: nat
  s_inflight :: "nat list"
  s_replied :: "nat list"

definition serving :: "time \<Rightarrow> server" where
  "serving start =
     \<lparr>s_clock = start, s_done = False, s_failed = False, s_phase = Open, s_accepted = 0, s_inflight = [], s_replied = []\<rparr>"

text \<open>\<open>Ended t u\<close>: told to stop at \<open>t\<close>, over at \<open>u\<close>.\<close>

inductive server_step :: "duration \<Rightarrow> server \<Rightarrow> server \<Rightarrow> bool" for grace where
  pass: "0 \<le> d \<Longrightarrow> (case s_phase s of Stopping t \<Rightarrow> s_clock s + d \<le> t + grace | _ \<Rightarrow> True) \<Longrightarrow>
    server_step grace s (s\<lparr>s_clock := s_clock s + d\<rparr>)"
| accept: "s_phase s = Open \<Longrightarrow> \<not> s_failed s \<Longrightarrow>
    server_step grace s (s\<lparr>s_accepted := Suc (s_accepted s), s_inflight := s_inflight s @ [s_accepted s]\<rparr>)"
| answer: "(\<forall>t u. s_phase s \<noteq> Ended t u) \<Longrightarrow> s_inflight s = xs @ i # ys \<Longrightarrow>
    server_step grace s (s\<lparr>s_inflight := xs @ ys, s_replied := s_replied s @ [i]\<rparr>)"
| signalled: "server_step grace s (s\<lparr>s_done := True\<rparr>)"
| listener_fails: "s_phase s = Open \<Longrightarrow> server_step grace s (s\<lparr>s_failed := True, s_done := True\<rparr>)"
| shutdown: "s_phase s = Open \<Longrightarrow> s_done s \<Longrightarrow> server_step grace s (s\<lparr>s_phase := Stopping (s_clock s)\<rparr>)"
| drained: "s_phase s = Stopping t \<Longrightarrow> s_inflight s = [] \<Longrightarrow> server_step grace s (s\<lparr>s_phase := Ended t (s_clock s)\<rparr>)"
| time_up: "s_phase s = Stopping t \<Longrightarrow> s_clock s = t + grace \<Longrightarrow> server_step grace s (s\<lparr>s_phase := Ended t (s_clock s)\<rparr>)"

definition api_grace :: duration where "api_grace = 10 * second"
definition query_grace :: duration where "query_grace = 10 * second"
definition metrics_grace :: duration where "metrics_grace = 3 * second"

definition api_server :: "server \<Rightarrow> server \<Rightarrow> bool" where "api_server = server_step api_grace"
definition query_server :: "server \<Rightarrow> server \<Rightarrow> bool" where "query_server = server_step query_grace"
definition metrics_server :: "server \<Rightarrow> server \<Rightarrow> bool" where "metrics_server = server_step metrics_grace"

inductive server_run :: "(server \<Rightarrow> server \<Rightarrow> bool) \<Rightarrow> time \<Rightarrow> server \<Rightarrow> bool" for step start where
  init: "server_run step start (serving start)"
| step: "server_run step start s \<Longrightarrow> step s t \<Longrightarrow> server_run step start t"

text \<open>A request is being served or has been answered, once; a server that is over was told to stop.\<close>

definition server_inv :: "duration \<Rightarrow> server \<Rightarrow> bool" where
  "server_inv grace s \<longleftrightarrow>
     mset (s_inflight s) + mset (s_replied s) = mset [0..<s_accepted s] \<and> (s_phase s \<noteq> Open \<longrightarrow> s_done s) \<and>
     (case s_phase s of
        Open \<Rightarrow> True
      | Stopping t \<Rightarrow> t \<le> s_clock s \<and> s_clock s \<le> t + grace
      | Ended t u \<Rightarrow> t \<le> u \<and> u \<le> t + grace \<and> (s_inflight s \<noteq> [] \<longrightarrow> u = t + grace))"

lemma server_run_inv:
  assumes "0 \<le> grace"
  shows "server_run (server_step grace) start s \<Longrightarrow> server_inv grace s"
proof (induction rule: server_run.induct)
  case init
  show ?case by (simp add: serving_def server_inv_def)
next
  case (step s t)
  from step.hyps(2) step.IH assms show ?case
    by (induction rule: server_step.induct) (auto simp: server_inv_def split: sphase.splits)
qed



end
