(* ===== verification/Replay.thy ===== *)
theory Replay
  imports Broker Store
begin

text \<open>
  \<open>cmd/replay/main.go\<close>: the dead-letter replay tool. Which records go back (\<open>parseReasons\<close>,
  \<open>decide\<close> with its loop guard), how they are stamped (\<open>replayHeaders\<close>), the walk over a partition
  (\<open>replayPartition\<close>), the poll loop of \<open>run\<close>, and \<open>verify\<close>.

  The Kafka client, the producer, the context and the clock are the fields of the record
  \<open>rclient\<close>, threading a state \<open>'k\<close>; \<open>json.Unmarshal\<close> into an event is the parameter \<open>unm\<close>,
  \<open>strconv.Quote\<close> the parameter \<open>quote\<close>, RFC3339Nano the parameter \<open>fmt_time\<close>. A run that does not
  return is \<^const>\<open>None\<close>. \<open>main\<close>'s flags, \<open>report.print\<close> and \<open>writeJSON\<close> are input and output; the
  exit code is \<open>exit_code\<close>.
\<close>

section \<open>Options and reports\<close>

record options =
  opt_apply :: bool
  opt_limit :: int
  opt_maxReplays :: int
  opt_verify :: duration

record verifyStats =
  Checked :: nat
  Persisted :: nat
  Missing :: int

record report =
  DryRun :: bool
  Scanned :: nat
  Replayed :: nat
  Failed :: nat
  Unreadable :: nat
  Skipped :: "(string \<times> nat) list"
  VerifyStats :: "verifyStats option"

definition new_report :: "options \<Rightarrow> report" where
  "new_report opts =
     \<lparr>DryRun = \<not> opt_apply opts, Scanned = 0, Replayed = 0, Failed = 0, Unreadable = 0, Skipped = [],
      VerifyStats = None\<rparr>"

fun parse_parts :: "(string \<Rightarrow> string) \<Rightarrow> string list \<Rightarrow> string list \<Rightarrow> string list res" where
  "parse_parts quote out [] = Inr out"
| "parse_parts quote out (p # ps) =
     (let part = trim_space p in
      if part = '''' then parse_parts quote out ps
      else if part \<in> {''all'', ReasonPoison, ReasonRetriesExhausted}
      then parse_parts quote (List.insert part out) ps
      else Inl (OtherErr (''unknown -reason '' @ quote part @ '': use '' @ quote ReasonRetriesExhausted @
                          '', '' @ quote ReasonPoison @ '' or '' @ quote ''all'')))"

definition parseReasons :: "(string \<Rightarrow> string) \<Rightarrow> string \<Rightarrow> string list res" where
  "parseReasons quote s =
     (case parse_parts quote [] (split_on CHR '','' s) of
        Inl e \<Rightarrow> Inl e
      | Inr out \<Rightarrow> if length out = 0 then Inl (OtherErr ''-reason must name at least one reason'')
                   else Inr out)"

section \<open>The decision on one dead letter\<close>

fun find_header :: "header list \<Rightarrow> string \<Rightarrow> string \<times> bool" where
  "find_header [] key = ('''', False)"
| "find_header (h # hs) key = (if fst h = key then (snd h, True) else find_header hs key)"

definition header :: "krec \<Rightarrow> string \<Rightarrow> string \<times> bool" where
  "header rec key = find_header (Headers rec) key"

definition replayCount :: "krec \<Rightarrow> int" where
  "replayCount rec =
     (case header rec HeaderReplayCount of
        (raw, ok) \<Rightarrow>
          if \<not> ok then 0
          else case atoi raw of None \<Rightarrow> 0 | Some n \<Rightarrow> if n < 0 then 0 else n)"

record decision =
  dec_replay :: bool
  dec_skip :: string
  dec_count :: int

definition decide :: "krec \<Rightarrow> string list \<Rightarrow> int \<Rightarrow> decision" where
  "decide rec wanted maxReplays =
     (case header rec HeaderReason of
        (reason, hasReason) \<Rightarrow>
          let count = replayCount rec in
          if \<not> hasReason then \<lparr>dec_replay = False, dec_skip = ''no_dlq_reason'', dec_count = count\<rparr>
          else if ''all'' \<notin> set wanted \<and> reason \<notin> set wanted
          then \<lparr>dec_replay = False, dec_skip = ''reason:'' @ reason, dec_count = count\<rparr>
          else if count \<ge> maxReplays
          then \<lparr>dec_replay = False, dec_skip = ''replay_limit'', dec_count = count\<rparr>
          else \<lparr>dec_replay = True, dec_skip = '''', dec_count = count\<rparr>)"

definition replayHeaders :: "(time \<Rightarrow> string) \<Rightarrow> krec \<Rightarrow> int \<Rightarrow> time \<Rightarrow> header list" where
  "replayHeaders fmt_time rec count now =
     [(HeaderReplayCount, itoa count),
      (HeaderReplayAt, fmt_time now),
      (HeaderReplayOfPartition, itoa (int (Partition rec))),
      (HeaderReplayOfOffset, itoa (int (Offset rec)))]"

definition replay_record :: "(time \<Rightarrow> string) \<Rightarrow> krec \<Rightarrow> int \<Rightarrow> time \<Rightarrow> krec" where
  "replay_record fmt_time rec count now =
     \<lparr>Topic = '''', Key = Key rec, Value = Value rec, Headers = replayHeaders fmt_time rec count now,
      Partition = 0, Offset = 0\<rparr>"

definition eventID :: "(bytes \<Rightarrow> event res) \<Rightarrow> bytes \<Rightarrow> string" where
  "eventID unm v = (case unm v of Inl e \<Rightarrow> '''' | Inr evt \<Rightarrow> EventID evt)"

section \<open>The walk over a partition\<close>

record 'k rclient =
  rcProduce :: "krec \<Rightarrow> 'k \<Rightarrow> (nat \<times> nat) res \<times> 'k"
  rcCtxErr :: "'k \<Rightarrow> bool \<times> 'k"
  rcNow :: "'k \<Rightarrow> time \<times> 'k"
  rcPoll :: "'k \<Rightarrow> (bool \<times> (nat \<times> krec list) list) \<times> 'k"   \<comment> \<open>closed, records by partition\<close>
  rcOwned :: "'k \<Rightarrow> nat \<times> 'k"
  rcCommit :: "krec \<Rightarrow> 'k \<Rightarrow> err option \<times> 'k"

record rconf =
  rc_opts :: options
  rc_wanted :: "string list"
  rc_topic :: string
  rc_unm :: "bytes \<Rightarrow> event res"
  rc_fmt :: "time \<Rightarrow> string"

definition limit_reached :: "options \<Rightarrow> report \<Rightarrow> bool" where
  "limit_reached opts rep \<longleftrightarrow> opt_limit opts > 0 \<and> int (Replayed rep) \<ge> opt_limit opts"

definition count_skip :: "string \<Rightarrow> report \<Rightarrow> report" where
  "count_skip why rep =
     rep\<lparr>Skipped := AList.update why
       (Suc (case map_of (Skipped rep) why of None \<Rightarrow> 0 | Some n \<Rightarrow> n)) (Skipped rep)\<rparr>"

fun replayPartition ::
  "rconf \<Rightarrow> 'k rclient \<Rightarrow> krec option \<Rightarrow> string list \<Rightarrow> krec list \<Rightarrow> report \<Rightarrow> 'k \<Rightarrow>
   (krec option \<times> string list \<times> err option) \<times> report \<times> 'k" where
  "replayPartition cf C lst ids [] rep k = ((lst, ids, None), rep, k)"
| "replayPartition cf C lst ids (rec # recs) rep k =
     (case rcCtxErr C k of (cancelled, k1) \<Rightarrow>
        if cancelled then ((lst, ids, None), rep, k1)
        else if limit_reached (rc_opts cf) rep then ((lst, ids, None), rep, k1)
        else
          let rep1 = rep\<lparr>Scanned := Scanned rep + 1\<rparr>;
              d = decide rec (rc_wanted cf) (opt_maxReplays (rc_opts cf))
          in if \<not> dec_replay d
             then replayPartition cf C (Some rec) ids recs (count_skip (dec_skip d) rep1) k1
             else if \<not> opt_apply (rc_opts cf)
             then replayPartition cf C lst ids recs (rep1\<lparr>Replayed := Replayed rep1 + 1\<rparr>) k1
             else
               (case rcNow C k1 of (t, k2) \<Rightarrow>
                (case PublishRecord (rcProduce C) (rc_topic cf)
                        (replay_record (rc_fmt cf) rec (dec_count d + 1) t) k2 of
                   (Inl e, k3) \<Rightarrow> ((lst, ids, Some e), rep1\<lparr>Failed := Failed rep1 + 1\<rparr>, k3)
                 | (Inr at, k3) \<Rightarrow>
                     let rep2 = rep1\<lparr>Replayed := Replayed rep1 + 1\<rparr>;
                         id = eventID (rc_unm cf) (Value rec)
                     in if id \<noteq> ''''
                        then replayPartition cf C (Some rec) (ids @ [id]) recs rep2 k3
                        else replayPartition cf C (Some rec) ids recs
                               (rep2\<lparr>Unreadable := Unreadable rep2 + 1\<rparr>) k3)))"

section \<open>The poll loop\<close>

text \<open>\<open>fetches.EachPartition\<close>: walk, commit, and skip the rest after a failed produce.\<close>

fun each_fetch ::
  "rconf \<Rightarrow> 'k rclient \<Rightarrow> (nat \<times> krec list) list \<Rightarrow> bool \<Rightarrow> string list \<Rightarrow> report \<Rightarrow> 'k \<Rightarrow>
   bool \<times> string list \<times> report \<times> 'k" where
  "each_fetch cf C [] stp replayed rep k = (stp, replayed, rep, k)"
| "each_fetch cf C ((p, recs) # fs) stp replayed rep k =
     (if stp then each_fetch cf C fs stp replayed rep k
      else
        (case replayPartition cf C None [] recs rep k of
           ((lst, ids, err), rep1, k1) \<Rightarrow>
             let k2 = (case lst of
                         Some r \<Rightarrow> if opt_apply (rc_opts cf) then snd (rcCommit C r k1) else k1
                       | None \<Rightarrow> k1)
             in each_fetch cf C fs (err \<noteq> None) (replayed @ ids) rep1 k2))"

definition num_records :: "(nat \<times> krec list) list \<Rightarrow> nat" where
  "num_records fs = sum_list (map (\<lambda>(p, recs). length recs) fs)"

partial_function (option) run_loop ::
  "rconf \<Rightarrow> 'k rclient \<Rightarrow> time \<Rightarrow> string list \<Rightarrow> report \<Rightarrow> 'k \<Rightarrow> (string list \<times> report \<times> 'k) option" where
  "run_loop cf C joinBy replayed rep k =
     (if limit_reached (rc_opts cf) rep then Some (replayed, rep, k)
      else
        (case rcPoll C k of ((closed, fetches), k1) \<Rightarrow>
           if closed then Some (replayed, rep, k1)
           else if num_records fetches = 0
           then (case rcCtxErr C k1 of (cancelled, k2) \<Rightarrow>
                   if cancelled then Some (replayed, rep, k2)
                   else
                     (case rcOwned C k2 of (owned, k3) \<Rightarrow>
                        if owned = 0
                        then (case rcNow C k3 of (t, k4) \<Rightarrow>
                                if t < joinBy then run_loop cf C joinBy replayed rep k4
                                else Some (replayed, rep, k4))
                        else Some (replayed, rep, k3)))
           else
             (case each_fetch cf C fetches False replayed rep k1 of (stp, replayed1, rep1, k2) \<Rightarrow>
                if stp then Some (replayed1, rep1, k2)
                else (case rcCtxErr C k2 of (cancelled, k3) \<Rightarrow>
                        if cancelled then Some (replayed1, rep1, k3)
                        else run_loop cf C joinBy replayed1 rep1 k3))))"

declare run_loop.simps [code]

definition joinTimeout :: duration where "joinTimeout = 30 * second"

section \<open>Verification, and the whole run\<close>

text \<open>
  \<open>SELECT count(*) FROM orders WHERE event_id = ANY($1::uuid[])\<close>: the rows, not the identifiers,
  are counted, and one identifier that is no UUID fails the query.
\<close>

definition count_any :: "pg \<Rightarrow> table \<Rightarrow> string list \<Rightarrow> nat res" where
  "count_any pg T ids =
     (if list_ex (\<lambda>i. uuid_in pg i = None) ids then Inl invalid_text
      else Inr (length (filter (\<lambda>r. Some (row_event_id r) \<in> set (map (uuid_in pg) ids)) T)))"

record 'k verifier =
  vOpen :: "'k \<Rightarrow> err option \<times> 'k"
  vCount :: "string list \<Rightarrow> 'k \<Rightarrow> nat res \<times> 'k"
  vNow :: "'k \<Rightarrow> time \<times> 'k"
  vWait :: "'k \<Rightarrow> err option \<times> 'k"          \<comment> \<open>the \<open>select\<close>: \<open>ctx.Err()\<close> if \<open>ctx.Done()\<close> won\<close>

partial_function (option) verify_loop ::
  "'k verifier \<Rightarrow> string list \<Rightarrow> time \<Rightarrow> 'k \<Rightarrow> (nat res \<times> 'k) option" where
  "verify_loop V ids deadline k =
     (case vCount V ids k of
        (Inl e, k1) \<Rightarrow> Some (Inl e, k1)
      | (Inr found, k1) \<Rightarrow>
          if found \<ge> length ids then Some (Inr found, k1)
          else
            (case vNow V k1 of (t, k2) \<Rightarrow>
               if t > deadline then Some (Inr found, k2)
               else (case vWait V k2 of
                       (Some e, k3) \<Rightarrow> Some (Inl e, k3)
                     | (None, k3) \<Rightarrow> verify_loop V ids deadline k3)))"

declare verify_loop.simps [code]

definition verify :: "'k verifier \<Rightarrow> string list \<Rightarrow> duration \<Rightarrow> 'k \<Rightarrow> (verifyStats res \<times> 'k) option" where
  "verify V eventIDs wait k =
     (case vOpen V k of
        (Some e, k1) \<Rightarrow> Some (Inl e, k1)
      | (None, k1) \<Rightarrow>
          (case vNow V k1 of (started, k2) \<Rightarrow>
             (case verify_loop V eventIDs (started + wait) k2 of
                None \<Rightarrow> None
              | Some (Inl e, k3) \<Rightarrow> Some (Inl e, k3)
              | Some (Inr found, k3) \<Rightarrow>
                  Some (Inr \<lparr>Checked = length eventIDs, Persisted = found,
                            Missing = int (length eventIDs) - int found\<rparr>, k3))))"

definition run :: "rconf \<Rightarrow> 'k verifier \<Rightarrow> 'k rclient \<Rightarrow> 'k \<Rightarrow> (report res \<times> 'k) option" where
  "run cf V C k =
     (case rcNow C k of (started, k1) \<Rightarrow>
        (case run_loop cf C (started + joinTimeout) [] (new_report (rc_opts cf)) k1 of
           None \<Rightarrow> None
         | Some (replayed, rep, k2) \<Rightarrow>
             if opt_apply (rc_opts cf) \<and> opt_verify (rc_opts cf) > 0 \<and> length replayed > 0
             then (case verify V replayed (opt_verify (rc_opts cf)) k2 of
                     None \<Rightarrow> None
                   | Some (Inl e, k3) \<Rightarrow> Some (Inl (Wrapf ''verify: '' e ''''), k3)
                   | Some (Inr v, k3) \<Rightarrow> Some (Inr (rep\<lparr>VerifyStats := Some v\<rparr>), k3))
             else Some (Inr rep, k2)))"

definition exit_code :: "report res \<Rightarrow> nat" where
  "exit_code r =
     (case r of
        Inl _ \<Rightarrow> 1
      | Inr rep \<Rightarrow>
          if Failed rep > 0 \<or> (case VerifyStats rep of None \<Rightarrow> False | Some v \<Rightarrow> Missing v > 0)
          then 1 else 0)"

text \<open>\<open>main\<close> after the flags: the two refusals, then the run.\<close>

definition replay_main ::
  "(string \<Rightarrow> string) \<Rightarrow> string \<Rightarrow> rconf \<Rightarrow> 'k verifier \<Rightarrow> 'k rclient \<Rightarrow> 'k \<Rightarrow> (nat \<times> 'k) option" where
  "replay_main quote reasons cf V C k =
     (if opt_maxReplays (rc_opts cf) < 1 then Some (1, k)
      else
        (case parseReasons quote reasons of
           Inl e \<Rightarrow> Some (1, k)
         | Inr wanted \<Rightarrow>
             map_option (map_prod exit_code id) (run (cf\<lparr>rc_wanted := wanted\<rparr>) V C k)))"

fun insert_sorted :: "string \<Rightarrow> string list \<Rightarrow> string list" where
  "insert_sorted x [] = [x]"
| "insert_sorted x (y # ys) = (if x \<le> y then x # y # ys else y # insert_sorted x ys)"

definition sortedKeys :: "(string \<times> nat) list \<Rightarrow> string list" where
  "sortedKeys m = foldr insert_sorted (map fst m) []"

section \<open>Headers and counters\<close>

lemma find_header_map_of:
  "find_header hs key = (case map_of hs key of None \<Rightarrow> ('''', False) | Some v \<Rightarrow> (v, True))"
  by (induction hs) auto

lemma header_replayed:
  "header (replay_record f rec n t) HeaderReplayCount = (itoa n, True)"
  by (simp add: header_def replay_record_def replayHeaders_def)

text \<open>The counter survives the worker's dead-letter path.\<close>

lemma header_dead_record:
  "header (dead_record rec reason cause m t) HeaderReplayCount = header rec HeaderReplayCount"
proof -
  have k: "HeaderReplayCount \<in> set replay_header_keys" by (simp add: replay_header_keys_def)
  have "map_of (Headers (dead_record rec reason cause m t)) HeaderReplayCount = map_of (Headers rec) HeaderReplayCount"
    using map_of_carryForward(1)[OF k, of "Headers rec"]
    by (simp add: dead_record_def map_add_def header_defs split: option.splits)
  then show ?thesis by (simp add: header_def find_header_map_of)
qed

lemma replayCount_round_trip:
  assumes "0 \<le> n" and "n < 2 ^ 63"
  shows "replayCount (dead_record (replay_record f rec n t) reason cause m t') = n"
  using assms atoi_itoa[of n]
  by (simp add: replayCount_def header_dead_record header_replayed)

lemma replayCount_range: "0 \<le> replayCount rec \<and> replayCount rec < 2 ^ 63"
  using atoi_range by (auto simp: replayCount_def split: prod.splits option.splits)

lemma decide_replay:
  "dec_replay (decide rec wanted m) \<longleftrightarrow>
     (\<exists>reason. header rec HeaderReason = (reason, True) \<and> (''all'' \<in> set wanted \<or> reason \<in> set wanted)) \<and>
     replayCount rec < m"
  by (auto simp: decide_def Let_def split: prod.splits)

lemma dec_count_decide [simp]: "dec_count (decide rec wanted m) = replayCount rec"
  by (auto simp: decide_def Let_def split: prod.splits)

section \<open>What the tool makes of its client's promises\<close>

text \<open>
  \<open>out\<close> is what the source topic has acknowledged, \<open>com\<close> the committed offset of each partition
  of the dead-letter topic. Producing appends the record or changes nothing; no other
  operation touches \<open>out\<close>, and only committing touches \<open>com\<close>. Cancellation (\<open>stopped\<close>) is
  permanent, and \<open>aux\<close> is what none of these operations changes (the log, the fetch positions).
\<close>

locale replay_deps =
  fixes C :: "'k rclient" and out :: "'k \<Rightarrow> krec list" and com :: "'k \<Rightarrow> nat \<Rightarrow> nat"
    and stopped :: "'k \<Rightarrow> bool" and aux :: "'k \<Rightarrow> 'a"
  assumes produce_law: "rcProduce C rec k = (r, k') \<Longrightarrow>
        com k' = com k \<and> out k' = (case r of Inl _ \<Rightarrow> out k | Inr _ \<Rightarrow> out k @ [rec]) \<and>
        aux k' = aux k \<and> (stopped k \<longrightarrow> stopped k')"
    and ctx_law: "rcCtxErr C k = (c, k') \<Longrightarrow>
        com k' = com k \<and> out k' = out k \<and> aux k' = aux k \<and> c = stopped k' \<and> (stopped k \<longrightarrow> stopped k')"
    and now_law: "rcNow C k = (t, k') \<Longrightarrow>
        com k' = com k \<and> out k' = out k \<and> aux k' = aux k \<and> (stopped k \<longrightarrow> stopped k')"
    and commit_law: "rcCommit C rec k = (x, k') \<Longrightarrow>
        out k' = out k \<and> (com k' = com k \<or> com k' = (com k)(Partition rec := Suc (Offset rec))) \<and>
        aux k' = aux k \<and> (stopped k \<longrightarrow> stopped k')"
begin

text \<open>The record sent back for a dead letter: the same bytes, and the counter one up.\<close>

definition sent_back :: "rconf \<Rightarrow> krec \<Rightarrow> krec \<Rightarrow> bool" where
  "sent_back cf rec d =
     (Topic d = rc_topic cf \<and> Key d = Key rec \<and> Value d = Value rec \<and>
      header d HeaderReplayCount = (itoa (replayCount rec + 1), True))"

definition settled :: "rconf \<Rightarrow> krec \<Rightarrow> 'k \<Rightarrow> bool" where
  "settled cf rec k =
     (\<not> dec_replay (decide rec (rc_wanted cf) (opt_maxReplays (rc_opts cf))) \<or>
      (\<exists>d \<in> set (out k). sent_back cf rec d))"

lemma settled_mono: "settled cf rec k \<Longrightarrow> prefix (out k) (out k') \<Longrightarrow> settled cf rec k'"
  by (auto simp: settled_def prefix_def)

lemma publish_law:
  assumes "PublishRecord (rcProduce C) (rc_topic cf) (replay_record f rec (replayCount rec + 1) t) k = (r, k')"
  shows "com k' = com k" "aux k' = aux k" "stopped k \<longrightarrow> stopped k'"
    "case r of Inl _ \<Rightarrow> out k' = out k | Inr _ \<Rightarrow> \<exists>d. out k' = out k @ [d] \<and> sent_back cf rec d"
proof -
  let ?d = "(replay_record f rec (replayCount rec + 1) t)\<lparr>Topic := rc_topic cf\<rparr>"
  obtain r0 where p: "rcProduce C ?d k = (r0, k')" and r: "(\<exists>e. r = Inl e) \<longleftrightarrow> (\<exists>e. r0 = Inl e)"
    using assms by (auto simp: PublishRecord_def replay_record_def split: prod.splits sum.splits)
  have "sent_back cf rec ?d"
    by (simp add: sent_back_def header_def replay_record_def replayHeaders_def)
  with produce_law[OF p] r
  show "com k' = com k" "aux k' = aux k" "stopped k \<longrightarrow> stopped k'"
    "case r of Inl _ \<Rightarrow> out k' = out k | Inr _ \<Rightarrow> \<exists>d. out k' = out k @ [d] \<and> sent_back cf rec d"
    by (auto split: sum.splits)
qed

text \<open>
  The outcome of a walk with \<open>-apply\<close>: the records up to the one returned are settled, one new
  record on the source topic per record counted as replayed, and the walk ends early only with
  an error, a cancelled context or the limit reached.
\<close>

definition walked :: "rconf \<Rightarrow> krec option \<Rightarrow> krec list \<Rightarrow> 'k \<Rightarrow> report \<Rightarrow> krec option \<Rightarrow> err option \<Rightarrow> report \<Rightarrow> 'k \<Rightarrow> bool" where
  "walked cf lst recs k rep l er rep' k' =
     (com k' = com k \<and> aux k' = aux k \<and> prefix (out k) (out k') \<and> (stopped k \<longrightarrow> stopped k') \<and>
      length (out k') + Replayed rep = length (out k) + Replayed rep' \<and>
      (\<exists>ds rest. recs = ds @ rest \<and> (\<forall>r \<in> set ds. settled cf r k') \<and>
         l = (if ds = [] then lst else Some (last ds)) \<and>
         (rest \<noteq> [] \<longrightarrow> er \<noteq> None \<or> stopped k' \<or> limit_reached (rc_opts cf) rep')))"

lemma walked_step:
  assumes "walked cf (Some rec) recs k1 rep1 l er rep' k'" and "settled cf rec k1"
    and "com k1 = com k" "aux k1 = aux k" "prefix (out k) (out k1)" "stopped k \<longrightarrow> stopped k1"
    and "length (out k1) + Replayed rep = length (out k) + Replayed rep1"
  shows "walked cf lst (rec # recs) k rep l er rep' k'"
proof -
  from assms(1) obtain ds rest where d: "recs = ds @ rest" "\<forall>r \<in> set ds. settled cf r k'"
    "l = (if ds = [] then Some rec else Some (last ds))"
    "rest \<noteq> [] \<longrightarrow> er \<noteq> None \<or> stopped k' \<or> limit_reached (rc_opts cf) rep'"
    by (auto simp: walked_def)
  have "settled cf rec k'" using assms(1,2) settled_mono by (auto simp: walked_def)
  with d have "\<exists>ds rest. rec # recs = ds @ rest \<and> (\<forall>r \<in> set ds. settled cf r k') \<and>
      l = (if ds = [] then lst else Some (last ds)) \<and>
      (rest \<noteq> [] \<longrightarrow> er \<noteq> None \<or> stopped k' \<or> limit_reached (rc_opts cf) rep')"
    by (intro exI[of _ "rec # ds"] exI[of _ rest]) auto
  with assms show ?thesis by (auto simp: walked_def)
qed

lemma walked_stop:
  assumes "er \<noteq> None \<or> stopped k' \<or> limit_reached (rc_opts cf) rep'"
    and "com k' = com k" "aux k' = aux k" "out k' = out k" "stopped k \<longrightarrow> stopped k'"
      "Replayed rep' = Replayed rep"
  shows "walked cf lst recs k rep lst er rep' k'"
  using assms by (auto simp: walked_def intro!: exI[of _ "[]"])

lemma replayPartition_walked:
  "opt_apply (rc_opts cf) \<Longrightarrow> replayPartition cf C lst ids recs rep k = ((l, ids', er), rep', k') \<Longrightarrow>
   walked cf lst recs k rep l er rep' k'"
proof (induction recs arbitrary: lst ids rep k)
  case Nil
  then show ?case by (auto simp: walked_def)
next
  case (Cons rec recs)
  let ?d = "decide rec (rc_wanted cf) (opt_maxReplays (rc_opts cf))"
  obtain c k1 where c: "rcCtxErr C k = (c, k1)" by fastforce
  note k1 = ctx_law[OF c]
  show ?case
  proof (cases "c \<or> limit_reached (rc_opts cf) rep")
    case True
    with Cons.prems c k1 show ?thesis by (auto intro!: walked_stop split: if_splits)
  next
    case go: False
    let ?rep1 = "rep\<lparr>Scanned := Scanned rep + 1\<rparr>"
    show ?thesis
    proof (cases "dec_replay ?d")
      case False
      with Cons.prems c go have "replayPartition cf C (Some rec) ids recs (count_skip (dec_skip ?d) ?rep1) k1
          = ((l, ids', er), rep', k')" by simp
      from Cons.IH[OF Cons.prems(1) this] show ?thesis
        by (rule walked_step) (use k1 False in \<open>auto simp: settled_def count_skip_def\<close>)
    next
      case True
      obtain t k2 where t: "rcNow C k1 = (t, k2)" by fastforce
      note k2 = now_law[OF t]
      obtain r k3 where p: "PublishRecord (rcProduce C) (rc_topic cf)
          (replay_record (rc_fmt cf) rec (replayCount rec + 1) t) k2 = (r, k3)" by fastforce
      note k3 = publish_law[OF p]
      show ?thesis
      proof (cases r)
        case (Inl e)
        with Cons.prems c go True t p have "l = lst" "er = Some e" "k' = k3" "Replayed rep' = Replayed rep"
          by (auto simp: Let_def)
        with Inl k1 k2 k3 show ?thesis by (auto intro!: walked_stop)
      next
        case (Inr at)
        with k3(4) obtain d where d: "out k3 = out k2 @ [d]" "sent_back cf rec d" by auto
        obtain ids1 rep2 where "replayPartition cf C (Some rec) ids1 recs rep2 k3 = ((l, ids', er), rep', k')"
          and "Replayed rep2 = Suc (Replayed rep)"
          using Cons.prems c go True t p Inr by (fastforce simp: Let_def split: if_splits)
        from Cons.IH[OF Cons.prems(1) this(1)] this(2) d k1 k2 k3 show ?thesis
          by (intro walked_step[where ?k1.0 = k3 and ?rep1.0 = rep2]) (auto simp: settled_def)
      qed
    qed
  qed
qed

text \<open>Without \<open>-apply\<close> nothing is produced.\<close>

lemma replayPartition_dry:
  "\<not> opt_apply (rc_opts cf) \<Longrightarrow> replayPartition cf C lst ids recs rep k = (x, rep', k') \<Longrightarrow>
   out k' = out k \<and> com k' = com k \<and> aux k' = aux k"
proof (induction recs arbitrary: lst ids rep k)
  case (Cons rec recs)
  obtain c k1 where c: "rcCtxErr C k = (c, k1)" by fastforce
  note k1 = ctx_law[OF c]
  show ?case
  proof (cases "c \<or> limit_reached (rc_opts cf) rep")
    case True
    with Cons.prems c k1 show ?thesis by (auto split: if_splits)
  next
    case False
    with Cons.prems c obtain lst1 rep1 where "replayPartition cf C lst1 ids recs rep1 k1 = (x, rep', k')"
      by (auto simp: Let_def split: if_splits)
    from Cons.IH[OF Cons.prems(1) this] k1 show ?thesis by simp
  qed
qed simp

lemma each_fetch_dry:
  "\<not> opt_apply (rc_opts cf) \<Longrightarrow> each_fetch cf C fs stp replayed rep k = (stp', replayed', rep', k') \<Longrightarrow>
   out k' = out k \<and> com k' = com k \<and> aux k' = aux k"
proof (induction fs arbitrary: stp replayed rep k)
  case (Cons f fs)
  obtain p recs where f: "f = (p, recs)" by fastforce
  show ?case
  proof (cases stp)
    case True
    with Cons.IH[OF Cons.prems(1)] Cons.prems(2) f show ?thesis by simp
  next
    case False
    obtain lst ids er rep1 k1 where r: "replayPartition cf C None [] recs rep k = ((lst, ids, er), rep1, k1)"
      by (metis prod_cases3)
    from replayPartition_dry[OF Cons.prems(1) r]
    have k1: "out k1 = out k" "com k1 = com k" "aux k1 = aux k" by auto
    have "each_fetch cf C fs (er \<noteq> None) (replayed @ ids) rep1 k1 = (stp', replayed', rep', k')"
      using Cons.prems False f r by (simp split: option.splits)
    from Cons.IH[OF Cons.prems(1) this] k1 show ?thesis by simp
  qed
qed simp

lemma limit_mono:
  "limit_reached opts rep \<Longrightarrow> Replayed rep \<le> Replayed rep' \<Longrightarrow> limit_reached opts rep'"
  by (simp add: limit_reached_def)

text \<open>
  The same for a whole fetch: unless the loop is about to end, every record of it is settled;
  and an offset is committed only directly after a settled prefix of one of its partitions.
\<close>

definition fetched :: "rconf \<Rightarrow> (nat \<times> krec list) list \<Rightarrow> 'k \<Rightarrow> report \<Rightarrow> bool \<Rightarrow> report \<Rightarrow> 'k \<Rightarrow> bool" where
  "fetched cf fs k rep stp' rep' k' =
     (aux k' = aux k \<and> prefix (out k) (out k') \<and> (stopped k \<longrightarrow> stopped k') \<and>
      length (out k') + Replayed rep = length (out k) + Replayed rep' \<and>
      (stp' \<or> stopped k' \<or> limit_reached (rc_opts cf) rep' \<or>
         (\<forall>(p, recs) \<in> set fs. \<forall>r \<in> set recs. settled cf r k')) \<and>
      (\<forall>q. com k' q = com k q \<or>
         (\<exists>(p, recs) \<in> set fs. \<exists>ds rest. recs = ds @ rest \<and> ds \<noteq> [] \<and> (\<forall>r \<in> set ds. settled cf r k') \<and>
            q = Partition (last ds) \<and> com k' q = Suc (Offset (last ds)))))"

lemma fetched_committed:
  assumes "fetched cf fs k rep stp' rep' k'" and "com k' q \<noteq> com k q"
  obtains p recs ds rest where "(p, recs) \<in> set fs" "recs = ds @ rest" "ds \<noteq> []" "\<forall>r \<in> set ds. settled cf r k'"
    "q = Partition (last ds)" "com k' q = Suc (Offset (last ds))"
  using assms unfolding fetched_def by blast

lemma fetched_step:
  assumes w: "walked cf None recs k rep lst er rep1 k1"
    and k2: "out k2 = out k1" "aux k2 = aux k1" "stopped k1 \<longrightarrow> stopped k2"
      "com k2 = com k1 \<or> (\<exists>r. lst = Some r \<and> com k2 = (com k1)(Partition r := Suc (Offset r)))"
    and rest: "fetched cf fs k2 rep1 stp' rep' k'" and stop: "er \<noteq> None \<Longrightarrow> stp'"
  shows "fetched cf ((p, recs) # fs) k rep stp' rep' k'"
proof -
  from w obtain ds tl where d: "recs = ds @ tl" "\<forall>r \<in> set ds. settled cf r k1"
    "lst = (if ds = [] then None else Some (last ds))"
    "tl \<noteq> [] \<longrightarrow> er \<noteq> None \<or> stopped k1 \<or> limit_reached (rc_opts cf) rep1" by (auto simp: walked_def)
  have le: "Replayed rep1 \<le> Replayed rep'" "prefix (out k1) (out k')"
    using rest k2(1) prefix_length_le[of "out k2" "out k'"] by (auto simp: fetched_def)
  have ds: "\<forall>r \<in> set ds. settled cf r k'" using d(2) settled_mono[OF _ le(2)] by blast
  have all: "stp' \<or> stopped k' \<or> limit_reached (rc_opts cf) rep' \<or>
      (\<forall>(p, recs) \<in> set ((p, recs) # fs). \<forall>r \<in> set recs. settled cf r k')"
  proof (cases "tl = []")
    case True
    with rest ds d(1) show ?thesis by (auto simp: fetched_def)
  next
    case False
    then have "er \<noteq> None \<or> stopped k' \<or> limit_reached (rc_opts cf) rep'"
      using d(4) rest k2(3) limit_mono[OF _ le(1)] by (auto simp: fetched_def)
    with stop show ?thesis by blast
  qed
  have one: "com k' q = com k q \<or>
      (\<exists>(p, recs) \<in> set ((p, recs) # fs). \<exists>ds rest. recs = ds @ rest \<and> ds \<noteq> [] \<and> (\<forall>r \<in> set ds. settled cf r k') \<and>
            q = Partition (last ds) \<and> com k' q = Suc (Offset (last ds)))" for q
  proof (cases "com k' q = com k2 q")
    case True
    show ?thesis
    proof (cases "com k2 q = com k q")
      case False
      with k2(4) w d(3) have "ds \<noteq> [] \<and> q = Partition (last ds) \<and> com k2 q = Suc (Offset (last ds))"
        by (auto simp: walked_def split: if_splits)
      with True d(1) ds show ?thesis by fastforce
    qed (use True in simp)
  next
    case False
    with rest show ?thesis by (fastforce simp: fetched_def)
  qed
  from w rest k2 have "aux k' = aux k" "prefix (out k) (out k')" "stopped k \<longrightarrow> stopped k'"
    "length (out k') + Replayed rep = length (out k) + Replayed rep'"
    by (auto simp: walked_def fetched_def)
  with all one show ?thesis unfolding fetched_def by blast
qed

lemma each_fetch_stop: "each_fetch cf C fs True replayed rep k = (True, replayed, rep, k)"
  by (induction fs) auto

lemma each_fetch_fetched:
  assumes "opt_apply (rc_opts cf)"
  shows "each_fetch cf C fs False replayed rep k = (stp', replayed', rep', k') \<Longrightarrow>
   fetched cf fs k rep stp' rep' k'"
proof (induction fs arbitrary: replayed rep k)
  case Nil
  then show ?case by (auto simp: fetched_def)
next
  case (Cons f fs)
  obtain p recs where f: "f = (p, recs)" by fastforce
  obtain lst ids er rep1 k1 where r: "replayPartition cf C None [] recs rep k = ((lst, ids, er), rep1, k1)"
    by (metis prod_cases3)
  note w = replayPartition_walked[OF assms r]
  define k2 where "k2 = (case lst of Some r \<Rightarrow> snd (rcCommit C r k1) | None \<Rightarrow> k1)"
  have k2: "out k2 = out k1 \<and> aux k2 = aux k1 \<and> (stopped k1 \<longrightarrow> stopped k2) \<and>
      (com k2 = com k1 \<or> (\<exists>r. lst = Some r \<and> com k2 = (com k1)(Partition r := Suc (Offset r))))"
    using commit_law[OF prod.collapse[symmetric]] by (auto simp: k2_def split: option.splits)
  have e: "each_fetch cf C fs (er \<noteq> None) (replayed @ ids) rep1 k2 = (stp', replayed', rep', k')"
    using Cons.prems r assms by (auto simp: f k2_def split: option.splits)
  have "fetched cf fs k2 rep1 stp' rep' k' \<and> (er \<noteq> None \<longrightarrow> stp')"
  proof (cases "er = None")
    case True
    with e Cons.IH[of "replayed @ ids" rep1 k2] show ?thesis by simp
  next
    case False
    with e show ?thesis by (auto simp: each_fetch_stop fetched_def)
  qed
  then show ?case unfolding f using fetched_step[OF w] k2 by blast
qed

end

section \<open>Reports add up\<close>

definition report_ok :: "options \<Rightarrow> report \<Rightarrow> bool" where
  "report_ok opts rep \<longleftrightarrow>
     Scanned rep = Replayed rep + Failed rep + sum_list (map snd (Skipped rep)) \<and>
     distinct (map fst (Skipped rep)) \<and>
     (opt_limit opts > 0 \<longrightarrow> int (Replayed rep) \<le> opt_limit opts)"

lemma report_ok_new: "report_ok opts (new_report opts)"
  by (simp add: report_ok_def new_report_def)

lemma sum_update:
  "distinct (map fst xs) \<Longrightarrow>
   sum_list (map snd (AList.update k (Suc (case map_of xs k of None \<Rightarrow> 0 | Some n \<Rightarrow> n)) xs)) =
   Suc (sum_list (map snd xs))"
  by (induction xs) (auto simp: map_of_eq_None_iff[THEN iffD2])

lemma report_ok_skip:
  "report_ok opts rep \<Longrightarrow> report_ok opts (count_skip why (rep\<lparr>Scanned := Scanned rep + 1\<rparr>))"
  by (simp add: report_ok_def count_skip_def sum_update distinct_update)

lemma replayPartition_report:
  "report_ok (rc_opts cf) rep \<Longrightarrow> replayPartition cf C lst ids recs rep k = (x, rep', k') \<Longrightarrow>
   report_ok (rc_opts cf) rep'"
proof (induction recs arbitrary: lst ids rep k)
  case (Cons rec recs)
  let ?d = "decide rec (rc_wanted cf) (opt_maxReplays (rc_opts cf))"
  let ?r = "rep\<lparr>Scanned := Scanned rep + 1\<rparr>"
  obtain c k1 where c: "rcCtxErr C k = (c, k1)" by fastforce
  show ?case
  proof (cases "c \<or> limit_reached (rc_opts cf) rep")
    case True
    with Cons.prems c show ?thesis by (auto split: if_splits)
  next
    case go: False
    then have one: "report_ok (rc_opts cf) (?r\<lparr>Replayed := Replayed ?r + 1\<rparr>)"
        "report_ok (rc_opts cf) (?r\<lparr>Replayed := Replayed ?r + 1, Unreadable := n\<rparr>)"
        "report_ok (rc_opts cf) (?r\<lparr>Failed := Failed ?r + 1\<rparr>)" for n
      using Cons.prems(1) by (auto simp: report_ok_def limit_reached_def)
    show ?thesis
    proof (cases "dec_replay ?d")
      case False
      with Cons.prems c go have "replayPartition cf C (Some rec) ids recs (count_skip (dec_skip ?d) ?r) k1 = (x, rep', k')"
        by simp
      with Cons.IH report_ok_skip[OF Cons.prems(1)] show ?thesis by blast
    next
      case True
      with Cons.prems(2) c go Cons.IH[OF one(1)] Cons.IH[OF one(2)] one(3) show ?thesis
        by (auto simp: Let_def split: if_splits prod.splits sum.splits)
    qed
  qed
qed simp

lemma each_fetch_report:
  "report_ok (rc_opts cf) rep \<Longrightarrow> each_fetch cf C fs stp replayed rep k = (stp', replayed', rep', k') \<Longrightarrow>
   report_ok (rc_opts cf) rep'"
proof (induction fs arbitrary: stp replayed rep k)
  case (Cons f fs)
  obtain p recs where f: "f = (p, recs)" by fastforce
  obtain lst ids er rep1 k1 where r: "replayPartition cf C None [] recs rep k = ((lst, ids, er), rep1, k1)"
    by (metis prod_cases3)
  from replayPartition_report[OF Cons.prems(1) r] Cons.IH Cons.prems r f show ?case
    by (auto split: if_splits)
qed simp

section \<open>Reasons, and the loop guard\<close>

lemma parse_parts_spec:
  "parse_parts quote out ps =
     (let qs = filter (\<lambda>q. q \<noteq> '''') (map trim_space ps) in
      if \<forall>q \<in> set qs. q \<in> {''all'', ReasonPoison, ReasonRetriesExhausted}
      then Inr (fold List.insert qs out)
      else parse_parts quote out ps) \<and>
   ((\<exists>o'. parse_parts quote out ps = Inr o') \<longleftrightarrow>
      (\<forall>q \<in> set (filter (\<lambda>q. q \<noteq> '''') (map trim_space ps)). q \<in> {''all'', ReasonPoison, ReasonRetriesExhausted}))"
  by (induction ps arbitrary: out) (auto simp: Let_def)

lemma set_fold_insert: "set (fold List.insert qs out) = set out \<union> set qs"
  by (induction qs arbitrary: out) auto

text \<open>
  A dead letter's round trips: the tool sends it back, the worker fails on it again (with the
  given reason, cause, attempts and times) and parks it, and so on until the tool refuses it.
\<close>

fun bounces ::
  "(time \<Rightarrow> string) \<Rightarrow> string list \<Rightarrow> int \<Rightarrow> krec \<Rightarrow> (string \<times> err \<times> nat \<times> time) list \<Rightarrow> krec list" where
  "bounces f wanted m d [] = []"
| "bounces f wanted m d ((reason, cause, n, t) # xs) =
     (let c = decide d wanted m in
      if dec_replay c
      then let d' = dead_record (replay_record f d (dec_count c + 1) t) reason cause n (f t)
           in d' # bounces f wanted m d' xs
      else [])"

lemma header_dead_reason: "header (dead_record rec reason cause n t) HeaderReason = (reason, True)"
proof -
  have k: "HeaderReason \<notin> set replay_header_keys" by (simp add: replay_header_keys_def header_defs)
  have "map_of (Headers (dead_record rec reason cause n t)) HeaderReason = Some reason"
    using map_of_carryForward(2)[OF k, of "Headers rec"] by (simp add: dead_record_def map_add_def)
  then show ?thesis by (simp add: header_def find_header_map_of)
qed

section \<open>Properties\<close>

text \<open>
  \<open>parseReasons\<close> accepts a list exactly if, after trimming and dropping the empty parts, at
  least one part is left and each is \<open>all\<close>, \<open>poison\<close> or \<open>retries_exhausted\<close>; the set it returns
  is the set of those parts.
\<close>

theorem parseReasons_accepts:
  "case parseReasons quote s of
     Inr out \<Rightarrow> set out = set (map trim_space (split_on CHR '','' s)) - {''''} \<and> set out \<noteq> {} \<and>
                set out \<subseteq> {''all'', ''poison'', ''retries_exhausted''}
   | Inl _ \<Rightarrow> set (map trim_space (split_on CHR '','' s)) - {''''} = {} \<or>
              \<not> set (map trim_space (split_on CHR '','' s)) - {''''} \<subseteq> {''all'', ''poison'', ''retries_exhausted''}"
proof -
  let ?qs = "filter (\<lambda>q. q \<noteq> '''') (map trim_space (split_on CHR '','' s))"
  have qs: "set ?qs = set (map trim_space (split_on CHR '','' s)) - {''''}" by auto
  note spec = parse_parts_spec[of quote "[]" "split_on CHR '','' s"]
  show ?thesis
  proof (cases "\<forall>q \<in> set ?qs. q \<in> {''all'', ReasonPoison, ReasonRetriesExhausted}")
    case True
    with spec have p: "parse_parts quote [] (split_on CHR '','' s) = Inr (fold List.insert ?qs [])"
      by (simp add: Let_def)
    have f: "set (fold List.insert ?qs []) = set ?qs" by (simp add: set_fold_insert)
    show ?thesis
    proof (cases "?qs = []")
      case True
      with p qs show ?thesis by (simp add: parseReasons_def)
    next
      case False
      then have "fold List.insert ?qs [] \<noteq> []" using f by (metis set_empty)
      with p have "parseReasons quote s = Inr (fold List.insert ?qs [])" by (simp add: parseReasons_def)
      moreover have "set ?qs \<noteq> {}" using False by (metis set_empty)
      ultimately show ?thesis using True f qs by (auto simp: ReasonPoison_def ReasonRetriesExhausted_def)
    qed
  next
    case False
    with spec have "\<nexists>o'. parse_parts quote [] (split_on CHR '','' s) = Inr o'" by simp
    then obtain e where "parse_parts quote [] (split_on CHR '','' s) = Inl e"
      by (cases "parse_parts quote [] (split_on CHR '','' s)") auto
    then have "parseReasons quote s = Inl e" by (simp add: parseReasons_def)
    moreover have "\<not> set ?qs \<subseteq> {''all'', ''poison'', ''retries_exhausted''}"
      using False by (auto simp: ReasonPoison_def ReasonRetriesExhausted_def)
    ultimately show ?thesis using qs by simp
  qed
qed


definition sample_letter :: krec where
  "sample_letter =
     dead_record \<lparr>Topic = ''orders.created'', Key = ''o1'', Value = ''{}'', Headers = [], Partition = 1, Offset = 20\<rparr>
       ReasonRetriesExhausted (OtherErr ''connection refused'') 7 ''2026-01-01T00:00:00Z''"


lemma verify_loop_static:
  assumes "verify_loop V ids deadline k = Some (Inr found, k')" and "\<And>k. fst (vCount V ids k) = Inr n"
  shows "found = n"
proof -
  have "\<forall>y. fst x = Inr y \<longrightarrow> y = n" if "verify_loop V ids deadline k = Some x" for x
  proof (rule verify_loop.raw_induct[where
        P = "\<lambda>V' ids' deadline k x. V' = V \<longrightarrow> ids' = ids \<longrightarrow> (\<forall>y. fst x = Inr y \<longrightarrow> y = n)",
        OF _ that, THEN mp, THEN mp, OF _ refl refl], intro impI, goal_cases)
    case (1 f V' ids' deadline k x)
    obtain k1 where c: "vCount V ids k = (Inr n, k1)" using assms(2)[of k] by (metis prod.collapse)
    have IH: "\<forall>y. fst x = Inr y \<longrightarrow> y = n" if "f V ids deadline k = Some x" for k x
      using 1(1)[OF that] by simp
    from 1(2)[unfolded 1(3,4) c] show ?case
      by (auto split: if_splits prod.splits option.splits dest: IH)
  qed
  with assms(1) show ?thesis by fastforce
qed

lemma count_present:
  assumes "table_ok T" and "\<forall>i \<in> set ids. \<exists>r \<in> set T. uuid_in pg i = Some (row_event_id r)"
  shows "count_any pg T ids = Inr (card (set (map (uuid_in pg) ids)))"
proof -
  let ?F = "filter (\<lambda>r. Some (row_event_id r) \<in> set (map (uuid_in pg) ids)) T"
  have none: "\<not> list_ex (\<lambda>i. uuid_in pg i = None) ids"
    using assms(2) by (auto simp: list_ex_iff)
  have d: "distinct (map row_event_id ?F)"
    using assms(1) distinct_map_filter by (auto simp: table_ok_def)
  have "Some ` set (map row_event_id ?F) = set (map (uuid_in pg) ids)"
    using assms(2) by (force simp: image_iff)
  then have "card (set (map (uuid_in pg) ids)) = card (set (map row_event_id ?F))"
    by (metis card_image inj_Some)
  also have "\<dots> = length ?F" using distinct_card[OF d] by simp
  finally show ?thesis using none by (simp add: count_any_def)
qed

text \<open>
  C35. What \<open>verify\<close> reports when every replayed event is in the database: as \<open>Persisted\<close> it counts
  rows, one per distinct event, while \<open>Checked\<close> counts dead letters. So an event that was parked
  twice and replayed twice is reported as missing, and the run exits with status 1, although
  nothing is missing.
\<close>

theorem verify_counts_distinct:
  assumes "table_ok T" and "\<forall>i \<in> set ids. \<exists>r \<in> set T. uuid_in pg i = Some (row_event_id r)"
    and "\<forall>k. fst (vCount V ids k) = count_any pg T ids"
    and "verify V ids wait k = Some (Inr v, k')"
  shows "Missing v = int (length ids) - int (card (set (map (uuid_in pg) ids))) \<and>
    (exit_code (Inr (rep\<lparr>VerifyStats := Some v, Failed := 0\<rparr>)) = 1 \<longleftrightarrow> \<not> distinct (map (uuid_in pg) ids))"
proof -
  let ?n = "card (set (map (uuid_in pg) ids))"
  have n: "\<And>k. fst (vCount V ids k) = Inr ?n" using count_present[OF assms(1,2)] assms(3) by simp
  from assms(4) obtain dl k2 found k3 where "verify_loop V ids dl k2 = Some (Inr found, k3)"
    and v: "v = \<lparr>Checked = length ids, Persisted = found, Missing = int (length ids) - int found\<rparr>"
    by (auto simp: verify_def split: prod.splits option.splits sum.splits)
  with verify_loop_static[OF _ n] have m: "Missing v = int (length ids) - int ?n" by simp
  have "?n \<le> length (map (uuid_in pg) ids)" by (rule card_length)
  then have "Missing v > 0 \<longleftrightarrow> ?n \<noteq> length (map (uuid_in pg) ids)" unfolding m by auto
  also have "\<dots> \<longleftrightarrow> \<not> distinct (map (uuid_in pg) ids)" by (metis card_distinct distinct_card)
  finally show ?thesis using m by (simp add: exit_code_def)
qed

definition sample_verifier :: "table \<Rightarrow> nat verifier" where
  "sample_verifier T =
     \<lparr>vOpen = (\<lambda>k. (None, k)), vCount = (\<lambda>ids k. (count_any sample_pg T ids, k)),
      vNow = (\<lambda>k. (int k, Suc k)), vWait = (\<lambda>k. (None, k))\<rparr>"

lemma verify_counts_distinct_witness:
  "\<exists>v k'. verify (sample_verifier [\<lparr>row_order_id = ''o1'', row_event_id = ''e1'', row_customer_id = ''c'',
       row_items = [], row_total_cents = 0, row_occurred_at = 0, row_processed_at = 1\<rparr>]) [''e1'', ''e1''] 0 0 = Some (Inr v, k') \<and>
     Missing v = 1"
proof -
  let ?T = "[\<lparr>row_order_id = ''o1'', row_event_id = ''e1'', row_customer_id = ''c'',
       row_items = [], row_total_cents = 0, row_occurred_at = 0, row_processed_at = 1\<rparr>]"
  let ?V = "sample_verifier ?T"
  have c: "count_any sample_pg ?T [''e1'', ''e1''] = Inr 1" by (simp add: count_any_def sample_pg_def)
  have "\<exists>v k'. verify ?V [''e1'', ''e1''] 0 0 = Some (Inr v, k')"
    by (simp add: verify_def sample_verifier_def verify_loop.simps c)
  then obtain v k' where v: "verify ?V [''e1'', ''e1''] 0 0 = Some (Inr v, k')" by blast
  have "Missing v = int (length [''e1'', ''e1'']) - int (card (set (map (uuid_in sample_pg) [''e1'', ''e1''])))"
    using verify_counts_distinct[OF _ _ _ v, of ?T sample_pg]
    by (simp add: table_ok_def sample_pg_def sample_verifier_def)
  with v show ?thesis by (simp add: sample_pg_def)
qed

end
