(* ===== verification/Replay_Run.thy ===== *)
theory Replay_Run
  imports Replay Consumer_Loop
begin

text \<open>
  The replay tool against a Kafka client: what a run has committed when it ends, that it ends,
  and that a dry run leaves no trace.

  \<open>renv\<close> is everything the program does not decide, indexed by the number of client calls so
  far; \<open>rworld\<close> is the dead-letter topic (its logs, which a run does not change, the fetch
  positions and the committed offsets) and the records the source topic has acknowledged. As in
  \<open>Consumer_Loop\<close>, a poll delivers the records at the fetch positions of the partitions the client
  chooses and moves the positions past them.
\<close>

record renv =
  re_tick :: "nat \<Rightarrow> nat"
  re_cancel_at :: "nat option"
  re_reply :: "nat \<Rightarrow> (nat \<times> nat) res"
  re_req :: "nat \<Rightarrow> (nat \<times> nat) list"
  re_closed :: "nat \<Rightarrow> bool"
  re_owned :: "nat \<Rightarrow> nat"
  re_commit :: "nat \<Rightarrow> err option"

record rworld =
  r_steps :: nat
  r_now :: time
  r_logs :: "nat \<Rightarrow> krec list"
  r_pos :: "nat \<Rightarrow> nat"
  r_com :: "nat \<Rightarrow> nat"
  r_out :: "krec list"

definition r_advance :: "renv \<Rightarrow> rworld \<Rightarrow> rworld" where
  "r_advance e w = w\<lparr>r_steps := Suc (r_steps w), r_now := r_now w + 1 + int (re_tick e (r_steps w))\<rparr>"

definition r_cancelled :: "renv \<Rightarrow> rworld \<Rightarrow> bool" where
  "r_cancelled e w = (case re_cancel_at e of None \<Rightarrow> False | Some n \<Rightarrow> n \<le> r_steps w)"

definition r_fetch :: "(nat \<times> nat) list \<Rightarrow> rworld \<Rightarrow> (nat \<times> krec list) list" where
  "r_fetch req w = map (\<lambda>(p, n). (p, take n (drop (r_pos w p) (r_logs w p)))) req"

definition live_rclient :: "renv \<Rightarrow> rworld rclient" where
  "live_rclient e =
     \<lparr>rcProduce = (\<lambda>rec w. let w1 = r_advance e w in
        case re_reply e (r_steps w1) of
          Inl x \<Rightarrow> (Inl x, w1) | Inr at \<Rightarrow> (Inr at, w1\<lparr>r_out := r_out w1 @ [rec]\<rparr>)),
      rcCtxErr = (\<lambda>w. let w1 = r_advance e w in (r_cancelled e w1, w1)),
      rcNow = (\<lambda>w. let w1 = r_advance e w in (r_now w1, w1)),
      rcPoll = (\<lambda>w. let w1 = r_advance e w in
        if re_closed e (r_steps w1) then ((True, []), w1)
        else let fs = r_fetch (re_req e (r_steps w1)) w1
             in ((False, fs), w1\<lparr>r_pos := move fs (r_pos w1)\<rparr>)),
      rcOwned = (\<lambda>w. let w1 = r_advance e w in (re_owned e (r_steps w1), w1)),
      rcCommit = (\<lambda>rec w. let w1 = r_advance e w in
        case re_commit e (r_steps w1) of
          Some x \<Rightarrow> (Some x, w1)
        | None \<Rightarrow> (None, w1\<lparr>r_com := (r_com w1)(Partition rec := Suc (Offset rec))\<rparr>))\<rparr>"

lemma r_advance_frame [simp]:
  "r_logs (r_advance e w) = r_logs w" "r_pos (r_advance e w) = r_pos w" "r_com (r_advance e w) = r_com w"
  "r_out (r_advance e w) = r_out w" "r_now w < r_now (r_advance e w)"
  "r_steps (r_advance e w) = Suc (r_steps w)"
  by (simp_all add: r_advance_def)

lemma r_cancelled_advance [simp]: "r_cancelled e w \<Longrightarrow> r_cancelled e (r_advance e w)"
  by (auto simp: r_cancelled_def split: option.splits)

lemma r_cancelled_cong: "r_steps w = r_steps w' \<Longrightarrow> r_cancelled e w = r_cancelled e w'"
  by (auto simp: r_cancelled_def split: option.splits)

interpretation rlive: replay_deps "live_rclient e" r_out r_com "r_cancelled e" "\<lambda>w. (r_logs w, r_pos w)"
  for e
proof unfold_locales
  fix rec k r k' assume "rcProduce (live_rclient e) rec k = (r, k')"
  then show "r_com k' = r_com k \<and> r_out k' = (case r of Inl _ \<Rightarrow> r_out k | Inr _ \<Rightarrow> r_out k @ [rec]) \<and>
        (r_logs k', r_pos k') = (r_logs k, r_pos k) \<and> (r_cancelled e k \<longrightarrow> r_cancelled e k')"
    using r_cancelled_advance[of e k] r_cancelled_cong[of k' "r_advance e k" e]
    by (auto simp: live_rclient_def Let_def split: sum.splits)
next
  fix rec k x k' assume "rcCommit (live_rclient e) rec k = (x, k')"
  then show "r_out k' = r_out k \<and> (r_com k' = r_com k \<or> r_com k' = (r_com k)(Partition rec := Suc (Offset rec))) \<and>
        (r_logs k', r_pos k') = (r_logs k, r_pos k) \<and> (r_cancelled e k \<longrightarrow> r_cancelled e k')"
    using r_cancelled_advance[of e k] r_cancelled_cong[of k' "r_advance e k" e]
    by (auto simp: live_rclient_def Let_def split: option.splits)
qed (auto simp: live_rclient_def Let_def)

section \<open>What a run has committed\<close>

definition r_log_ok :: "rworld \<Rightarrow> bool" where
  "r_log_ok w \<longleftrightarrow>
     (\<forall>p i. i < length (r_logs w p) \<longrightarrow> Partition (r_logs w p ! i) = p \<and> Offset (r_logs w p ! i) = i)"

text \<open>The records of partition \<open>p\<close> from offset \<open>a\<close> up to \<open>b\<close> exist and are settled.\<close>

definition settled_range :: "rconf \<Rightarrow> rworld \<Rightarrow> nat \<Rightarrow> nat \<Rightarrow> nat \<Rightarrow> bool" where
  "settled_range cf w p a b \<longleftrightarrow>
     b \<le> length (r_logs w p) \<and> (\<forall>i. a \<le> i \<and> i < b \<longrightarrow> rlive.settled cf (r_logs w p ! i) w)"

lemma settled_range_mono:
  assumes "settled_range cf w p a b" and "r_logs w' = r_logs w" and "prefix (r_out w) (r_out w')"
  shows "settled_range cf w' p a b"
  using assms rlive.settled_mono[OF _ assms(3)] by (auto simp: settled_range_def)

definition com_ok :: "rconf \<Rightarrow> (nat \<Rightarrow> nat) \<Rightarrow> rworld \<Rightarrow> bool" where
  "com_ok cf base w \<longleftrightarrow> (\<forall>p. r_com w p = base p \<or> settled_range cf w p (base p) (r_com w p))"

definition run_inv :: "rconf \<Rightarrow> (nat \<Rightarrow> nat) \<Rightarrow> rworld \<Rightarrow> bool" where
  "run_inv cf base w \<longleftrightarrow>
     r_log_ok w \<and> (\<forall>p. settled_range cf w p (base p) (r_pos w p)) \<and> com_ok cf base w"

lemma settled_extend:
  assumes "settled_range cf w p a (r_pos w p)" and "take n (drop (r_pos w p) (r_logs w p)) = ds @ rest"
    and "r_logs w' = r_logs w" "prefix (r_out w) (r_out w')" and "\<forall>r \<in> set ds. rlive.settled cf r w'"
  shows "settled_range cf w' p a (r_pos w p + length ds)"
proof -
  have old: "settled_range cf w' p a (r_pos w p)" by (rule settled_range_mono[OF assms(1,3,4)])
  have le: "r_pos w p \<le> length (r_logs w p)" using assms(1) by (simp add: settled_range_def)
  note win = window_prefix[OF assms(2) le]
  have "rlive.settled cf (r_logs w' p ! i) w'" if "a \<le> i" "i < r_pos w p + length ds" for i
  proof (cases "i < r_pos w p")
    case True
    with old that show ?thesis by (simp add: settled_range_def)
  next
    case False
    with win(2)[of i] that assms(3,5) show ?thesis by simp
  qed
  with win(1) assms(3) show ?thesis by (simp add: settled_range_def)
qed

text \<open>One round of the loop: a poll and the walk over what it delivered.\<close>

lemma round_inv:
  assumes inv: "run_inv cf base w" and req: "distinct (map fst req)"
    and w1: "r_logs w1 = r_logs w" "r_out w1 = r_out w" "r_com w1 = r_com w" "r_pos w1 = move (r_fetch req w) (r_pos w)"
    and f: "rlive.fetched e cf (r_fetch req w) w1 rep stp' rep' w2"
  shows "com_ok cf base w2 \<and> (stp' \<or> r_cancelled e w2 \<or> limit_reached (rc_opts cf) rep' \<or> run_inv cf base w2)"
proof -
  let ?fs = "r_fetch req w"
  from f have w2: "r_logs w2 = r_logs w" "r_pos w2 = r_pos w1" "prefix (r_out w) (r_out w2)"
    using w1 by (auto simp: rlive.fetched_def)
  from inv have log: "r_log_ok w" and pos: "\<And>p. settled_range cf w p (base p) (r_pos w p)"
    and com: "com_ok cf base w" by (auto simp: run_inv_def)
  have mem: "\<exists>n. recs = take n (drop (r_pos w p) (r_logs w p))" if "(p, recs) \<in> set ?fs" for p recs
    using that by (force simp: r_fetch_def)
  have "r_com w2 q = base q \<or> settled_range cf w2 q (base q) (r_com w2 q)" for q
  proof (cases "r_com w2 q = r_com w q")
    case True
    with com settled_range_mono[OF _ w2(1,3)] show ?thesis by (auto simp: com_ok_def)
  next
    case False
    then have "r_com w2 q \<noteq> r_com w1 q" using w1(3) by simp
    from rlive.fetched_committed[OF f this] obtain p recs ds rest where d: "(p, recs) \<in> set ?fs" "recs = ds @ rest" "ds \<noteq> []"
      "\<forall>r \<in> set ds. rlive.settled cf r w2" "q = Partition (last ds)" "r_com w2 q = Suc (Offset (last ds))" .
    from mem[OF d(1)] d(2) obtain n where n: "take n (drop (r_pos w p) (r_logs w p)) = ds @ rest" by auto
    have le: "r_pos w p \<le> length (r_logs w p)" using pos by (simp add: settled_range_def)
    note wl = window_last[OF n le d(3)]
    have "Partition (last ds) = p" "Offset (last ds) = r_pos w p + length ds - 1"
      using log wl by (simp_all add: r_log_ok_def)
    then have "q = p" "r_com w2 q = r_pos w p + length ds" using d(3,5,6) by (auto simp: Suc_le_eq)
    with settled_extend[OF pos n w2(1,3) d(4)] show ?thesis by simp
  qed
  then have c: "com_ok cf base w2" by (simp add: com_ok_def)
  have "run_inv cf base w2" if all: "\<forall>(p, recs) \<in> set ?fs. \<forall>r \<in> set recs. rlive.settled cf r w2"
  proof -
    have "settled_range cf w2 p (base p) (r_pos w2 p)" for p
    proof (cases "p \<in> fst ` set ?fs")
      case False
      with move_other[OF False, of "r_pos w"] settled_range_mono[OF pos w2(1,3)] show ?thesis
        by (simp add: w2(2) w1(4))
    next
      case True
      then obtain recs where m: "(p, recs) \<in> set ?fs" by auto
      from mem[OF m] obtain n where n: "recs = take n (drop (r_pos w p) (r_logs w p))" by blast
      have "map fst ?fs = map fst req" by (auto simp: r_fetch_def)
      then have "r_pos w2 p = r_pos w p + length recs"
        using move_fetched[OF _ m] req by (simp add: w2(2) w1(4))
      moreover have "\<forall>r \<in> set recs. rlive.settled cf r w2" using all m by auto
      ultimately show ?thesis using settled_extend[OF pos _ w2(1,3), of n p recs "[]"] n by simp
    qed
    moreover have "r_log_ok w2" using log by (simp add: r_log_ok_def w2(1))
    ultimately show ?thesis using c by (simp add: run_inv_def)
  qed
  with c f show ?thesis unfolding rlive.fetched_def by blast
qed

section \<open>Induction over the rounds of a run\<close>

text \<open>
  \<open>I\<close> holds at the head of the loop and survives the single calls; a round re-establishes it
  unless the loop ends after it; \<open>Q\<close> follows from \<open>I\<close> and from every way to end a round.
\<close>

lemma run_loop_rule:
  assumes ret: "run_loop cf C joinBy replayed rep k = Some (replayed', rep', k')" and I: "I rep k"
    and IQ: "\<And>rep k. I rep k \<Longrightarrow> Q rep k"
    and idle: "\<And>rep k c fs k1. I rep k \<Longrightarrow> rcPoll C k = ((c, fs), k1) \<Longrightarrow> c \<or> num_records fs = 0 \<Longrightarrow> I rep k1"
    and ctx: "\<And>rep k c k1. I rep k \<Longrightarrow> rcCtxErr C k = (c, k1) \<Longrightarrow> I rep k1"
    and own: "\<And>rep k n k1. I rep k \<Longrightarrow> rcOwned C k = (n, k1) \<Longrightarrow> I rep k1"
    and now: "\<And>rep k t k1. I rep k \<Longrightarrow> rcNow C k = (t, k1) \<Longrightarrow> I rep k1"
    and round: "\<And>rep k fs k1 replayed stp replayed1 rep1 k2 c k3. I rep k \<Longrightarrow> rcPoll C k = ((False, fs), k1) \<Longrightarrow>
       each_fetch cf C fs False replayed rep k1 = (stp, replayed1, rep1, k2) \<Longrightarrow> rcCtxErr C k2 = (c, k3) \<Longrightarrow>
       Q rep1 k2 \<and> Q rep1 k3 \<and> (stp \<or> c \<or> limit_reached (rc_opts cf) rep1 \<or> I rep1 k3)"
  shows "Q rep' k'"
proof -
  let ?P = "\<lambda>rep k. I rep k \<or> limit_reached (rc_opts cf) rep \<and> Q rep k"
  have "?P rep k \<longrightarrow> Q (fst (snd x)) (snd (snd x))"
    if "run_loop cf C joinBy replayed rep k = Some x" for x
  proof (rule run_loop.raw_induct[where
        P = "\<lambda>cf' C' joinBy replayed rep k x. cf' = cf \<longrightarrow> C' = C \<longrightarrow> ?P rep k \<longrightarrow> Q (fst (snd x)) (snd (snd x))",
        OF _ that, THEN mp, THEN mp, OF _ refl refl], intro impI, goal_cases)
    case (1 f cf' C' joinBy replayed rep k x)
    have IH: "Q (fst (snd x)) (snd (snd x))" if "f cf C joinBy rd rep k = Some x" "?P rep k" for rd rep k x
      using 1(1)[OF that(1)] that(2) by simp
    note eq = 1(2)[unfolded 1(3,4)] and P = 1(5)
    show ?case
    proof (cases "limit_reached (rc_opts cf) rep")
      case True
      with eq P IQ show ?thesis by auto
    next
      case nl: False
      with P have i: "I rep k" by blast
      obtain c fs k1 where p: "rcPoll C k = ((c, fs), k1)" by (metis prod.collapse)
      show ?thesis
      proof (cases "c \<or> num_records fs = 0")
        case True
        note i1 = idle[OF i p True]
        obtain c2 k2 where p2: "rcCtxErr C k1 = (c2, k2)" by fastforce
        note i2 = ctx[OF i1 p2]
        obtain n k3 where p3: "rcOwned C k2 = (n, k3)" by fastforce
        note i3 = own[OF i2 p3]
        obtain t k4 where p4: "rcNow C k3 = (t, k4)" by fastforce
        note i4 = now[OF i3 p4]
        from eq nl True p p2 p3 p4 i1 i2 i3 i4 IQ show ?thesis by (auto split: if_splits intro: IH)
      next
        case False
        obtain stp rd rep1 k2 where e: "each_fetch cf C fs False replayed rep k1 = (stp, rd, rep1, k2)"
          by (metis prod_cases4)
        obtain c3 k3 where x: "rcCtxErr C k2 = (c3, k3)" by fastforce
        from False p have p': "rcPoll C k = ((False, fs), k1)" by simp
        from round[OF i p' e x] eq nl False p e x show ?thesis by (auto split: if_splits intro: IH)
      qed
    qed
  qed
  with ret I show ?thesis by fastforce
qed

lemma move_idle: "num_records fs = 0 \<Longrightarrow> move fs ps = ps"
  by (induction fs ps rule: move.induct) (auto simp: num_records_def)

definition env_ok :: "renv \<Rightarrow> bool" where
  "env_ok e \<longleftrightarrow> (\<forall>n. distinct (map fst (re_req e n)))"

lemma run_inv_cong:
  "r_logs w' = r_logs w \<Longrightarrow> r_out w' = r_out w \<Longrightarrow> r_com w' = r_com w \<Longrightarrow> r_pos w' = r_pos w \<Longrightarrow>
   run_inv cf base w \<Longrightarrow> run_inv cf base w'"
  by (simp add: run_inv_def com_ok_def settled_range_def r_log_ok_def rlive.settled_def)

lemma com_ok_cong:
  "r_logs w' = r_logs w \<Longrightarrow> r_out w' = r_out w \<Longrightarrow> r_com w' = r_com w \<Longrightarrow> com_ok cf base w \<Longrightarrow> com_ok cf base w'"
  by (simp add: com_ok_def settled_range_def rlive.settled_def)

lemma live_poll:
  assumes "rcPoll (live_rclient e) w = ((c, fs), w1)"
  shows "r_logs w1 = r_logs w" "r_out w1 = r_out w" "r_com w1 = r_com w"
    "r_pos w1 = move fs (r_pos w)" "r_now w < r_now w1" "\<not> c \<Longrightarrow> fs = r_fetch (re_req e (Suc (r_steps w))) w"
  using assms by (auto simp: live_rclient_def Let_def r_fetch_def split: if_splits)

lemma live_small:
  "rcCtxErr (live_rclient e) w = (c, w1) \<Longrightarrow> w1 = r_advance e w \<and> c = r_cancelled e w1"
  "rcOwned (live_rclient e) w = (n, w1) \<Longrightarrow> w1 = r_advance e w"
  "rcNow (live_rclient e) w = (t, w1) \<Longrightarrow> w1 = r_advance e w \<and> t = r_now w1"
  by (auto simp: live_rclient_def Let_def)

lemma run_inv_advance: "run_inv cf base w \<Longrightarrow> run_inv cf base (r_advance e w)"
  by (rule run_inv_cong[of _ w]) simp_all

lemma run_loop_com_ok:
  assumes "opt_apply (rc_opts cf)" and "env_ok e" and "run_inv cf base w"
    and ret: "run_loop cf (live_rclient e) joinBy replayed rep w = Some (replayed', rep', w')"
  shows "com_ok cf base w'"
proof (rule run_loop_rule[OF ret, where I = "\<lambda>_. run_inv cf base" and Q = "\<lambda>_. com_ok cf base"])
  fix rep w c fs w1
  assume i: "run_inv cf base w" and p: "rcPoll (live_rclient e) w = ((c, fs), w1)" and z: "c \<or> num_records fs = 0"
  note l = live_poll[OF p]
  have "num_records fs = 0" using z p by (auto simp: live_rclient_def Let_def num_records_def split: if_splits)
  then have "r_pos w1 = r_pos w" using l(4) move_idle by metis
  with l i show "run_inv cf base w1" by (auto intro: run_inv_cong[of w1 w])
next
  fix rep w fs w1 replayed stp replayed1 rep1 w2 c w3
  assume i: "run_inv cf base w" and p: "rcPoll (live_rclient e) w = ((False, fs), w1)"
    and ef: "each_fetch cf (live_rclient e) fs False replayed rep w1 = (stp, replayed1, rep1, w2)"
    and x: "rcCtxErr (live_rclient e) w2 = (c, w3)"
  note l = live_poll[OF p]
  have fs: "fs = r_fetch (re_req e (Suc (r_steps w))) w" using l(6) by simp
  have d: "distinct (map fst (re_req e (Suc (r_steps w))))" using assms(2) by (simp add: env_ok_def)
  note f = rlive.each_fetch_fetched[OF assms(1) ef]
  from round_inv[OF i d l(1,2,3) l(4)[unfolded fs] f[unfolded fs]]
  have r: "com_ok cf base w2" "stp \<or> r_cancelled e w2 \<or> limit_reached (rc_opts cf) rep1 \<or> run_inv cf base w2"
    by auto
  have w3: "w3 = r_advance e w2" "c = r_cancelled e w3" using live_small(1)[OF x] by auto
  have "com_ok cf base w3" unfolding w3 by (rule com_ok_cong[OF _ _ _ r(1)]) simp_all
  with r w3 run_inv_advance[of cf base w2 e] r_cancelled_advance[of e w2]
  show "com_ok cf base w2 \<and> com_ok cf base w3 \<and> (stp \<or> c \<or> limit_reached (rc_opts cf) rep1 \<or> run_inv cf base w3)"
    by auto
qed (use assms(3) run_inv_advance in \<open>auto simp: run_inv_def dest!: live_small\<close>)

text \<open>Neither a dry run nor a real one touches the log; a dry run touches nothing at all.\<close>

lemma each_fetch_aux:
  assumes "each_fetch cf (live_rclient e) fs False replayed rep w = (stp, replayed1, rep1, w1)"
  shows "r_logs w1 = r_logs w" "r_pos w1 = r_pos w"
    "\<not> opt_apply (rc_opts cf) \<Longrightarrow> r_out w1 = r_out w \<and> r_com w1 = r_com w"
  using rlive.each_fetch_fetched[OF _ assms] rlive.each_fetch_dry[OF _ assms]
  by (cases "opt_apply (rc_opts cf)"; auto simp: rlive.fetched_def)+

lemma run_loop_logs:
  assumes "run_loop cf (live_rclient e) joinBy replayed rep w = Some (replayed', rep', w')"
  shows "r_logs w' = r_logs w"
  by (rule run_loop_rule[OF assms, where I = "\<lambda>_ v. r_logs v = r_logs w"])
    (auto dest!: live_small live_poll(1) each_fetch_aux(1))

lemma run_loop_dry:
  assumes "run_loop cf (live_rclient e) joinBy replayed rep w = Some (replayed', rep', w')"
    and "\<not> opt_apply (rc_opts cf)"
  shows "r_out w' = r_out w \<and> r_com w' = r_com w"
proof (rule run_loop_rule[OF assms(1), where I = "\<lambda>_ v. r_out v = r_out w \<and> r_com v = r_com w"])
  fix rep k fs k1 replayed stp replayed1 rep1 k2 c k3
  assume "r_out k = r_out w \<and> r_com k = r_com w" "rcPoll (live_rclient e) k = ((False, fs), k1)"
    "each_fetch cf (live_rclient e) fs False replayed rep k1 = (stp, replayed1, rep1, k2)"
    "rcCtxErr (live_rclient e) k2 = (c, k3)"
  then show "(r_out k2 = r_out w \<and> r_com k2 = r_com w) \<and> (r_out k3 = r_out w \<and> r_com k3 = r_com w) \<and>
      (stp \<or> c \<or> limit_reached (rc_opts cf) rep1 \<or> r_out k3 = r_out w \<and> r_com k3 = r_com w)"
    using each_fetch_aux(3)[OF _ assms(2)] live_poll(2,3) live_small(1) by (metis r_advance_frame(3,4))
qed (auto dest!: live_small dest: live_poll(2,3))

section \<open>A run ends\<close>

definition remaining :: "nat \<Rightarrow> rworld \<Rightarrow> nat" where
  "remaining P w = (\<Sum>p<P. length (r_logs w p) - r_pos w p)"

lemma poll_remaining:
  assumes p: "rcPoll (live_rclient e) w = ((False, fs), w1)" and "env_ok e" and n: "num_records fs \<noteq> 0"
    and fin: "\<forall>p \<ge> P. r_logs w p = []"
  shows "remaining P w1 < remaining P w"
proof -
  note l = live_poll[OF p]
  let ?req = "re_req e (Suc (r_steps w))"
  have fs: "fs = r_fetch ?req w" using l(6) by simp
  then have d: "distinct (map fst fs)"
    using assms(2) by (auto simp: env_ok_def r_fetch_def comp_def split_beta)
  have le: "r_pos w q \<le> r_pos w1 q" for q
  proof (cases "q \<in> fst ` set fs")
    case True
    then obtain recs where "(q, recs) \<in> set fs" by auto
    from move_fetched[OF d this] show ?thesis by (simp add: l(4))
  qed (simp add: l(4) move_other)
  from n obtain q recs where q: "(q, recs) \<in> set fs" "recs \<noteq> []"
    by (auto simp: num_records_def split_beta)
  then obtain m where "recs = take m (drop (r_pos w q) (r_logs w q))" by (force simp: fs r_fetch_def)
  with q(2) have lt: "r_pos w q < length (r_logs w q)" by auto
  with fin have "q < P" by (metis list.size(3) not_less not_less_zero)
  moreover have "length (r_logs w1 q) - r_pos w1 q < length (r_logs w q) - r_pos w q"
    using move_fetched[OF d q(1), of "r_pos w"] q(2) lt by (simp add: l(1,4) diff_less_mono2)
  ultimately show ?thesis unfolding remaining_def
    by (intro sum_strict_mono_ex1) (use l(1) le in \<open>auto simp: diff_le_mono2\<close>)
qed

lemma run_loop_returns:
  assumes "env_ok e"
  shows "\<forall>p \<ge> P. r_logs w p = [] \<Longrightarrow> \<exists>x. run_loop cf (live_rclient e) joinBy replayed rep w = Some x"
proof (induction "(remaining P w, nat (joinBy - r_now w))" arbitrary: w replayed rep
    rule: wf_induct_rule[OF wf_lex_prod[OF wf_less wf_less]])
  case 1
  let ?C = "live_rclient e"
  note IH = 1(1)
  obtain c fs w1 where p: "rcPoll ?C w = ((c, fs), w1)" by (metis prod.collapse)
  note l = live_poll[OF p]
  show ?case
  proof (cases "limit_reached (rc_opts cf) rep \<or> c")
    case True
    with p show ?thesis by (subst run_loop.simps) auto
  next
    case go: False
    show ?thesis
    proof (cases "num_records fs = 0")
      case True
      obtain c2 w2 where x: "rcCtxErr ?C w1 = (c2, w2)" by fastforce
      obtain n w3 where o: "rcOwned ?C w2 = (n, w3)" by fastforce
      obtain t w4 where t: "rcNow ?C w3 = (t, w4)" by fastforce
      have "r_now w < r_now (r_advance e (r_advance e (r_advance e w1)))"
        using l(5) by (simp add: r_advance_def)
      then have w4: "r_logs w4 = r_logs w" "r_pos w4 = r_pos w" "r_now w < t" "t = r_now w4"
        using l live_small(1)[OF x] live_small(2)[OF o] live_small(3)[OF t] move_idle[OF True] by auto
      have "\<exists>y. run_loop cf ?C joinBy replayed rep w4 = Some y" if "t < joinBy"
        by (rule IH) (use w4 1(2) that in \<open>auto simp: remaining_def\<close>)
      then show ?thesis using go True p x o t by (subst run_loop.simps) auto
    next
      case False
      obtain stp rd rep1 w2 where f: "each_fetch cf ?C fs False replayed rep w1 = (stp, rd, rep1, w2)"
        by (metis prod_cases4)
      obtain c3 w3 where x: "rcCtxErr ?C w2 = (c3, w3)" by fastforce
      have p': "rcPoll ?C w = ((False, fs), w1)" using p go by simp
      have w3: "r_logs w3 = r_logs w" "r_pos w3 = r_pos w1" "r_logs w1 = r_logs w"
        using l each_fetch_aux(1,2)[OF f] live_small(1)[OF x] by auto
      then have "remaining P w3 < remaining P w"
        using poll_remaining[OF p' assms False 1(2)] by (simp add: remaining_def)
      then have "\<exists>y. run_loop cf ?C joinBy rd rep1 w3 = Some y"
        by (intro IH) (use w3 1(2) in auto)
      then show ?thesis using go False p f x by (subst run_loop.simps) auto
    qed
  qed
qed

section \<open>Properties\<close>

text \<open>
  C4. A replay run never commits past a record it has not dealt with. Started at the committed
  offsets, whatever the broker, the network or a signal do, when the poll loop of \<open>run\<close> ends,
  every dead letter the run has committed past was either refused by \<open>decide\<close> or is back on the
  source topic: same key, same bytes, its replay counter one up.
\<close>

theorem replay_commits_settled:
  assumes "opt_apply (rc_opts cf)" and "env_ok e" and "r_log_ok w" and "r_pos w = r_com w"
    and "\<forall>p. r_com w p \<le> length (r_logs w p)"
    and "run_loop cf (live_rclient e) joinBy replayed rep w = Some (replayed', rep', w')"
    and "r_com w p \<le> i" and "i < r_com w' p"
  shows "let d = r_logs w p ! i in
    i < length (r_logs w p) \<and>
    (\<not> dec_replay (decide d (rc_wanted cf) (opt_maxReplays (rc_opts cf))) \<or>
     (\<exists>b \<in> set (r_out w'). Topic b = rc_topic cf \<and> Key b = Key d \<and> Value b = Value d \<and>
        header b HeaderReplayCount = (itoa (replayCount d + 1), True)))"
proof -
  have "run_inv cf (r_com w) w"
    using assms(3,4,5) by (auto simp: run_inv_def settled_range_def com_ok_def)
  from run_loop_com_ok[OF assms(1,2) this assms(6)]
  have "r_com w' p = r_com w p \<or> settled_range cf w' p (r_com w p) (r_com w' p)"
    by (simp add: com_ok_def)
  with assms(7,8) run_loop_logs[OF assms(6)]
  have "i < length (r_logs w p) \<and> rlive.settled cf (r_logs w p ! i) w'"
    by (auto simp: settled_range_def)
  then show ?thesis by (auto simp: Let_def rlive.settled_def rlive.sent_back_def)
qed

text \<open>
  C13. A run ends. If the dead-letter topic is finite (it has finitely many partitions with
  records, and none are added), then whatever the client delivers in which portions, the poll
  loop of \<open>run\<close> returns; a dry run then has produced nothing and committed nothing.
\<close>

theorem replay_run_ends:
  assumes "env_ok e" and "\<forall>p \<ge> P. r_logs w p = []"
  shows "\<exists>replayed' rep' w'. run_loop cf (live_rclient e) joinBy replayed rep w = Some (replayed', rep', w') \<and>
    (\<not> opt_apply (rc_opts cf) \<longrightarrow> r_out w' = r_out w \<and> r_com w' = r_com w)"
  using run_loop_returns[OF assms] run_loop_dry by (metis prod_cases3)

text \<open>
  The report adds up: after the poll loop, for any client whatever, every record scanned was
  replayed, failed or skipped, each skip reason has one line, and with a limit no more than
  that many records were replayed.
\<close>

theorem replay_report_adds_up:
  assumes "run_loop cf C joinBy [] (new_report (rc_opts cf)) k = Some (replayed, rep, k')"
  shows "Scanned rep = Replayed rep + Failed rep + sum_list (map snd (Skipped rep)) \<and>
    distinct (map fst (Skipped rep)) \<and>
    (opt_limit (rc_opts cf) > 0 \<longrightarrow> int (Replayed rep) \<le> opt_limit (rc_opts cf))"
proof -
  have "report_ok (rc_opts cf) rep"
    by (rule run_loop_rule[OF assms, where I = "\<lambda>rep _. report_ok (rc_opts cf) rep"])
      (auto simp: report_ok_new dest: each_fetch_report)
  then show ?thesis by (simp add: report_ok_def)
qed

definition sample_renv :: renv where
  "sample_renv =
     \<lparr>re_tick = (\<lambda>_. 0), re_cancel_at = None, re_reply = (\<lambda>_. Inr (0, 0)), re_req = (\<lambda>_. [(0, 10)]),
      re_closed = (\<lambda>_. False), re_owned = (\<lambda>_. 1), re_commit = (\<lambda>_. None)\<rparr>"

definition sample_rworld :: rworld where
  "sample_rworld =
     \<lparr>r_steps = 0, r_now = 0, r_logs = (\<lambda>p. if p = 0 then [sample_letter\<lparr>Partition := 0, Offset := 0\<rparr>] else []),
      r_pos = (\<lambda>_. 0), r_com = (\<lambda>_. 0), r_out = []\<rparr>"

definition sample_rconf :: "bool \<Rightarrow> rconf" where
  "sample_rconf ap =
     \<lparr>rc_opts = \<lparr>opt_apply = ap, opt_limit = 0, opt_maxReplays = 2, opt_verify = 0\<rparr>,
      rc_wanted = [''all''], rc_topic = ''orders.created'',
      rc_unm = (\<lambda>_. Inl (OtherErr ''x'')), rc_fmt = (\<lambda>_. ''t'')\<rparr>"

lemma sample_env_ok: "env_ok sample_renv"
  by (simp add: env_ok_def sample_renv_def)

lemma sample_log_ok: "r_log_ok sample_rworld" "\<forall>p \<ge> 1. r_logs sample_rworld p = []"
  "r_pos sample_rworld = r_com sample_rworld" "\<forall>p. r_com sample_rworld p \<le> length (r_logs sample_rworld p)"
  by (auto simp: r_log_ok_def sample_rworld_def)

text \<open>The sample run: one dead letter, sent back and committed.\<close>

definition sample_run :: "(string list \<times> report \<times> rworld) option" where
  "sample_run = run_loop (sample_rconf True) (live_rclient sample_renv) 0 []
     (new_report (rc_opts (sample_rconf True))) sample_rworld"

lemma sample_run_result:
  "map_option (\<lambda>(ids, rep, w). (ids, Replayed rep, r_com w 0)) sample_run = Some ([], 1, 1)"
  by code_simp

lemma replay_commits_settled_witness:
  "\<exists>rep w'. sample_run = Some ([], rep, w') \<and> r_com w' 0 = 1 \<and> (\<exists>b \<in> set (r_out w'). Value b = ''{}'')"
proof -
  obtain ids rep w' where r: "sample_run = Some (ids, rep, w')" "r_com w' 0 = 1" "ids = []"
    using sample_run_result by auto
  have a: "opt_apply (rc_opts (sample_rconf True))" by (simp add: sample_rconf_def)
  have i: "r_com sample_rworld 0 \<le> 0" "0 < r_com w' 0" using r by (simp_all add: sample_rworld_def)
  have "dec_replay (decide (sample_letter\<lparr>Partition := 0, Offset := 0\<rparr>) [''all''] 2)" by code_simp
  with replay_commits_settled[OF a sample_env_ok sample_log_ok(1,3,4) r(1)[unfolded sample_run_def] i]
  have "\<exists>b \<in> set (r_out w'). Value b = Value sample_letter"
    by (auto simp: Let_def sample_rconf_def sample_rworld_def)
  moreover have "Value sample_letter = ''{}''" by (simp add: sample_letter_def dead_record_def)
  ultimately show ?thesis using r by auto
qed

lemma replay_run_ends_witness:
  "\<exists>ids rep w'. run_loop (sample_rconf False) (live_rclient sample_renv) 0 []
     (new_report (rc_opts (sample_rconf False))) sample_rworld = Some (ids, rep, w') \<and> r_out w' = []"
  using replay_run_ends[OF sample_env_ok sample_log_ok(2), of "sample_rconf False" 0 "[]"]
  by (fastforce simp: sample_rconf_def sample_rworld_def)

lemma replay_report_adds_up_witness:
  "\<exists>ids rep w'. sample_run = Some (ids, rep, w') \<and> Scanned rep = 1 + Failed rep + sum_list (map snd (Skipped rep))"
proof -
  obtain ids rep w' where r: "sample_run = Some (ids, rep, w')" "Replayed rep = 1"
    using sample_run_result by auto
  with replay_report_adds_up[OF r(1)[unfolded sample_run_def]]
  have "Scanned rep = 1 + Failed rep + sum_list (map snd (Skipped rep))" by simp
  with r(1) show ?thesis by blast
qed

end
