(* ===== verification/Go_Float.thy ===== *)
theory Go_Float
  imports Complex_Main Go_Prelude
begin

text \<open>
  Go's \<open>float64\<close>, as far as the console uses it: parsed, compared, bounded by the built-in
  \<open>min\<close>, and made from durations. A finite value is the rational number it stands for; NaN and the
  infinities are values of their own, since the comparisons with them are what some of the
  code's guards are about. The sign of zero is not observed by the code.

  \<open>round_f64\<close> is rounding to the nearest number of 53 significant bits, ties to even, on the range
  a \<open>time.Duration\<close> in seconds can have, which is far from overflow and underflow.
\<close>

datatype f64 = NaN | PosInf | NegInf | Fin rat

fun f64_less :: "f64 \<Rightarrow> f64 \<Rightarrow> bool" where
  "f64_less NaN y = False"
| "f64_less x NaN = False"
| "f64_less (Fin x) (Fin y) = (x < y)"
| "f64_less NegInf y = (y \<noteq> NegInf)"
| "f64_less x PosInf = (x \<noteq> PosInf)"
| "f64_less x y = False"

definition f64_le :: "f64 \<Rightarrow> f64 \<Rightarrow> bool" where
  "f64_le x y \<longleftrightarrow> f64_less x y \<or> (x = y \<and> x \<noteq> NaN)"

text \<open>The built-in \<open>min\<close>: NaN if an argument is NaN.\<close>

definition f64_min :: "f64 \<Rightarrow> f64 \<Rightarrow> f64" where
  "f64_min x y = (if x = NaN \<or> y = NaN then NaN else if f64_less y x then y else x)"

definition is_finite :: "f64 \<Rightarrow> bool" where
  "is_finite x = (case x of Fin _ \<Rightarrow> True | _ \<Rightarrow> False)"

section \<open>Rounding\<close>

definition round_half_even :: "rat \<Rightarrow> int" where
  "round_half_even x =
     (let f = \<lfloor>x\<rfloor>; d = x - of_int f in
      if d < 1 / 2 then f else if d > 1 / 2 then f + 1 else if even f then f else f + 1)"

text \<open>Scale a positive number into \<open>[1, 2)\<close>, keeping the power of two; the fuel covers every duration.\<close>

fun scale_f64 :: "nat \<Rightarrow> rat \<Rightarrow> rat \<Rightarrow> rat" where
  "scale_f64 0 p x = p"
| "scale_f64 (Suc n) p x =
     (if x \<ge> 2 then scale_f64 n (p * 2) (x / 2) else if x < 1 then scale_f64 n (p / 2) (x * 2) else p)"

definition round_f64 :: "rat \<Rightarrow> rat" where
  "round_f64 x =
     (if x = 0 then 0
      else let u = scale_f64 64 1 \<bar>x\<bar> / 2 ^ 52
           in of_int (round_half_even (x / u)) * u)"

text \<open>\<open>Duration.Seconds\<close>: the whole seconds plus the rounded quotient of the rest.\<close>

definition Seconds :: "duration \<Rightarrow> f64" where
  "Seconds d =
     (let sec = sgn d * (\<bar>d\<bar> div second); nsec = d - sec * second
      in Fin (round_f64 (of_int sec + round_f64 (of_int nsec / 1000000000))))"

text \<open>\<open>int64(x)\<close> of a finite value: truncation towards zero.\<close>

definition trunc_f64 :: "f64 \<Rightarrow> int" where
  "trunc_f64 x = (case x of Fin q \<Rightarrow> if q < 0 then - \<lfloor>- q\<rfloor> else \<lfloor>q\<rfloor> | _ \<Rightarrow> 0)"

section \<open>Order\<close>

lemma f64_less_Fin [simp]: "f64_less (Fin x) (Fin y) \<longleftrightarrow> x < y"
  by simp

lemma f64_le_Fin [simp]: "f64_le (Fin x) (Fin y) \<longleftrightarrow> x \<le> y"
  by (auto simp: f64_le_def)

lemma f64_le_refl: "x \<noteq> NaN \<Longrightarrow> f64_le x x"
  by (simp add: f64_le_def)

lemma f64_not_less: "x \<noteq> NaN \<Longrightarrow> y \<noteq> NaN \<Longrightarrow> \<not> f64_less x y \<longleftrightarrow> f64_le y x"
  by (cases x; cases y) (auto simp: f64_le_def)

lemma f64_le_trans: "f64_le x y \<Longrightarrow> f64_le y z \<Longrightarrow> f64_le x z"
  by (cases x; cases y; cases z) (auto simp: f64_le_def)

lemma f64_min_le: "f64_min x y \<noteq> NaN \<Longrightarrow> f64_le (f64_min x y) x \<and> f64_le (f64_min x y) y"
  by (cases x; cases y) (auto simp: f64_min_def f64_le_def)

lemma f64_min_NaN [simp]: "f64_min x y = NaN \<longleftrightarrow> x = NaN \<or> y = NaN"
  by (auto simp: f64_min_def)

lemma f64_le_min:
  assumes "f64_le z (f64_min x y)" and "y \<noteq> NaN" and "x \<noteq> NaN"
  shows "f64_le z x \<and> f64_le z y"
  using f64_le_trans[OF assms(1)] f64_min_le[of x y] assms(2,3) by simp


section \<open>Rounding is close, and exact on what is representable\<close>

lemma round_half_even_le: "x \<le> of_int m \<Longrightarrow> round_half_even x \<le> m"
proof (cases "\<lfloor>x\<rfloor> = m")
  case True
  moreover assume "x \<le> of_int m"
  ultimately have "x = of_int m" using of_int_floor_le[of x] by simp
  then show ?thesis by (simp add: round_half_even_def)
next
  case False
  moreover assume "x \<le> of_int m"
  then have "\<lfloor>x\<rfloor> \<le> m" using floor_mono[of x "of_int m"] by simp
  ultimately show ?thesis by (simp add: round_half_even_def Let_def)
qed

lemma round_half_even_ge: "x - 1 / 2 \<le> of_int (round_half_even x)"
proof -
  have "of_int \<lfloor>x\<rfloor> \<le> x" "x < of_int \<lfloor>x\<rfloor> + 1" using floor_correct[of x] by simp_all
  then show ?thesis by (simp add: round_half_even_def Let_def)
qed

lemma scale_f64_up:
  "1 \<le> x \<Longrightarrow> x < 2 ^ Suc n \<Longrightarrow> \<exists>j \<le> n. scale_f64 (Suc n) p x = p * 2 ^ j \<and> 2 ^ j \<le> x"
proof (induction n arbitrary: p x)
  case 0
  then show ?case by (intro exI[of _ 0]) simp
next
  case (Suc n)
  show ?case
  proof (cases "x \<ge> 2")
    case True
    with Suc.prems obtain j where "j \<le> n" "scale_f64 (Suc n) (p * 2) (x / 2) = (p * 2) * 2 ^ j" "2 ^ j \<le> x / 2"
      using Suc.IH[of "x / 2" "p * 2"] by auto
    with True show ?thesis by (intro exI[of _ "Suc j"]) simp
  next
    case False
    with Suc.prems show ?thesis by (intro exI[of _ 0]) simp
  qed
qed

text \<open>The unit in the last place of a number between a half and \<open>2 ^ 45\<close>: small, and it divides 1.\<close>

lemma round_f64_unit:
  assumes "1 / 2 \<le> x" and "x < 2 ^ 45"
  obtains u m where "0 < u" "round_f64 x = of_int (round_half_even (x / u)) * u" "u \<le> x / 2 ^ 52" "of_int m * u = 1"
proof (cases "x < 1")
  case True
  have s: "scale_f64 64 1 x = 1 / 2" using assms(1) True by (simp add: numeral_eq_Suc)
  have a: "\<bar>x\<bar> = x" "x \<noteq> 0" using assms(1) by auto
  have "round_f64 x = of_int (round_half_even (x / (1 / 2 / 2 ^ 52))) * (1 / 2 / 2 ^ 52)"
    unfolding round_f64_def Let_def a(1) s using a(2) by simp
  then have "round_f64 x = of_int (round_half_even (x / (1 / 2 ^ 53))) * (1 / 2 ^ 53)" by simp
  then show thesis using assms(1) by (intro that[of "1 / 2 ^ 53" "2 ^ 53"]) simp_all
next
  case False
  have "x < 2 ^ Suc 63" using assms(2) by (rule less_le_trans) simp
  then obtain j where j: "scale_f64 (Suc 63) 1 x = 2 ^ j" "2 ^ j \<le> x"
    using scale_f64_up[of x 63 1] False by auto
  then have "(2 :: rat) ^ j < 2 ^ 45" using assms(2) by linarith
  then have "j < 45" by (simp only: power_strict_increasing_iff[of "2 :: rat" j 45] one_less_numeral_iff semiring_norm)
  then have "(2 :: rat) ^ (52 - j) * 2 ^ j = 2 ^ 52" by (simp flip: power_add)
  moreover have "scale_f64 64 1 \<bar>x\<bar> = 2 ^ j" using j(1) False by (simp add: numeral_eq_Suc)
  ultimately show thesis
    using False j(2) that[of "2 ^ j / 2 ^ 52" "2 ^ (52 - j)"] by (simp add: round_f64_def Let_def divide_right_mono)
qed

lemma round_f64_le_int:
  assumes "1 / 2 \<le> x" and "x < 2 ^ 45" and "x \<le> of_int k"
  shows "round_f64 x \<le> of_int k"
proof -
  obtain u m where u: "0 < u" "round_f64 x = of_int (round_half_even (x / u)) * u" "of_int m * u = 1"
    using round_f64_unit[OF assms(1,2)] by metis
  have "x / u \<le> of_int k * of_int m"
    using u(1,3) assms(3) by (simp add: divide_le_eq mult.assoc)
  then have "round_half_even (x / u) \<le> k * m" by (intro round_half_even_le) simp
  then have "of_int (round_half_even (x / u)) \<le> (of_int (k * m) :: rat)" by (simp only: of_int_le_iff)
  then have "round_f64 x \<le> of_int (k * m) * u" unfolding u(2) by (rule mult_right_mono) (simp add: u(1) less_imp_le)
  also have "\<dots> = of_int k" using u(3) by (simp add: mult.assoc)
  finally show ?thesis .
qed

lemma round_f64_ge:
  assumes "1 / 2 \<le> x" and "x < 2 ^ 45"
  shows "x - x / 2 ^ 53 \<le> round_f64 x"
proof -
  obtain u where u: "0 < u" "round_f64 x = of_int (round_half_even (x / u)) * u" "u \<le> x / 2 ^ 52"
    using round_f64_unit[OF assms] by metis
  have "x - u / 2 = (x / u - 1 / 2) * u" using u(1) by (simp add: field_simps)
  also have "\<dots> \<le> round_f64 x" unfolding u(2)
    by (rule mult_right_mono[OF round_half_even_ge]) (simp add: u(1) less_imp_le)
  finally show ?thesis using u(3) by simp
qed

end
