(* ===== verification/Replay_Report.thy ===== *)
theory Replay_Report
  imports Replay_Run Go_Float
begin

text \<open>
  \<open>cmd/replay/main.go\<close>, the end of \<open>main\<close>: the printed report, its JSON file and the exit status. What is
  printed is a list of lines. \<open>f1\<close> is the format \<open>%8.1f\<close>; creating the file and encoding into it are
  arguments. The fields of the report that only name things or measure time, which the run
  does not read, are those of \<open>heading\<close>.
\<close>

record heading =
  DLQTopic :: string
  SourceTopic :: string
  Reasons :: string
  MaxReplays :: int
  Seconds :: f64
  VerifySeconds :: f64

definition mode :: "bool \<Rightarrow> string" where
  "mode dry =
     (if dry
      then ''DRY RUN '' @ [CHR 0xE2, CHR 0x80, CHR 0x94] @ '' nothing produced, nothing committed; rerun with -apply''
      else ''APPLIED'')"

definition print_verify :: "(f64 \<Rightarrow> string) \<Rightarrow> f64 \<Rightarrow> verifyStats \<Rightarrow> string list" where
  "print_verify f1 seconds v =
     ['''', ''persisted after replay (api -> kafka -> worker -> postgres)'',
      ''  checked        '' @ d8 (int (Checked v)),
      ''  persisted      '' @ d8 (int (Persisted v))] @
     (if Missing v > 0
      then [''  MISSING        '' @ d8 (Missing v) @ ''   replayed but not in the database within the wait''] else []) @
     [''  waited         '' @ f1 seconds @ ''s'']"

definition print_report :: "(f64 \<Rightarrow> string) \<Rightarrow> heading \<Rightarrow> report \<Rightarrow> string list" where
  "print_report f1 H r =
     ['''', ''=== dlq replay: '' @ DLQTopic H @ '' -> '' @ SourceTopic H @ '' ==='',
      ''mode             '' @ mode (DryRun r),
      ''reasons          '' @ Reasons H @ ''   (max '' @ itoa (MaxReplays H) @ '' replays per record)'',
      ''scanned          '' @ d8 (int (Scanned r)),
      ''replayed         '' @ d8 (int (Replayed r))] @
     (if Failed r > 0
      then [''failed           '' @ d8 (int (Failed r)) @ ''   (could not produce; the rest was left on the dlq)''] else []) @
     (if Unreadable r > 0
      then [''unreadable       '' @ d8 (int (Unreadable r)) @ ''   (replayed, but no event_id to verify against)''] else []) @
     map (\<lambda>why. ''skipped          '' @ d8 (int (the (map_of (Skipped r) why))) @ ''   '' @ why) (sortedKeys (Skipped r)) @
     [''took             '' @ f1 (Seconds H) @ ''s''] @
     (case VerifyStats r of None \<Rightarrow> [] | Some v \<Rightarrow> print_verify f1 (VerifySeconds H) v)"

definition replay_writeJSON :: "(string \<Rightarrow> err option) \<Rightarrow> err option \<Rightarrow> string \<Rightarrow> err option" where
  "replay_writeJSON create encode path = (case create path of Some e \<Rightarrow> Some e | None \<Rightarrow> encode)"

text \<open>The exit status and what is on the standard output.\<close>

definition finish_main ::
  "(f64 \<Rightarrow> string) \<Rightarrow> (string \<Rightarrow> err option) \<Rightarrow> err option \<Rightarrow> string \<Rightarrow> heading \<Rightarrow> report \<Rightarrow> nat \<times> string list" where
  "finish_main f1 create encode jsonOut H rep =
     (let out = print_report f1 H rep in
      if jsonOut \<noteq> '''' then
        (case replay_writeJSON create encode jsonOut of
           Some e \<Rightarrow> (1, out)
         | None \<Rightarrow> (exit_code (Inr rep), out @ ['''', ''report written to '' @ jsonOut]))
      else (exit_code (Inr rep), out))"

section \<open>Properties\<close>

lemma insert_sorted_set [simp]: "set (insert_sorted x xs) = insert x (set xs)"
  by (induction xs) auto

lemma set_sortedKeys: "set (sortedKeys m) = fst ` set m"
proof -
  have "set (foldr insert_sorted ks []) = set ks" for ks by (induction ks) auto
  then show ?thesis by (simp add: sortedKeys_def)
qed

definition alarming :: "string \<Rightarrow> bool" where
  "alarming l \<longleftrightarrow> take 6 l = ''failed'' \<or> take 9 l = ''  MISSING''"

lemma alarming_report:
  "filter alarming (print_report f1 H r) = [] \<longleftrightarrow> exit_code (Inr r) = 0"
proof -
  have head: "filter alarming ['''', ''=== dlq replay: '' @ DLQTopic H @ '' -> '' @ SourceTopic H @ '' ==='',
      ''mode             '' @ mode (DryRun r),
      ''reasons          '' @ Reasons H @ ''   (max '' @ itoa (MaxReplays H) @ '' replays per record)'',
      ''scanned          '' @ d8 (int (Scanned r)), ''replayed         '' @ d8 (int (Replayed r))] = []"
    by (simp add: alarming_def)
  have failing: "filter alarming (if Failed r > 0 then [''failed           '' @ x] else []) = [] \<longleftrightarrow> \<not> Failed r > 0" for x
    by (simp add: alarming_def)
  have unread: "filter alarming (if Unreadable r > 0 then [''unreadable       '' @ x] else []) = []" for x
    by (simp add: alarming_def)
  have skips: "filter alarming (map (\<lambda>why. ''skipped          '' @ g why) ks) = []" for g ks
    by (simp add: filter_empty_conv alarming_def)
  have took: "filter alarming [''took             '' @ x] = []" for x
    by (simp add: alarming_def)
  have verify: "filter alarming (print_verify f1 s v) = [] \<longleftrightarrow> \<not> Missing v > 0" for s v
    by (simp add: print_verify_def alarming_def)
  show ?thesis unfolding print_report_def filter_append head failing unread skips took append_is_Nil_conv
    by (simp add: exit_code_def verify split: option.split)
qed

text \<open>
  The exit status and the report say the same: the status is 0 exactly if the report has no line
  that says that records failed or are missing, and the file, if one was asked for, is written.
  The report has a line for each reason for which records were passed over.
\<close>

lemma replay_report_tells:
  "(fst (finish_main f1 create encode jsonOut H rep) = 0 \<longleftrightarrow>
      filter alarming (print_report f1 H rep) = [] \<and> (jsonOut = '''' \<or> (create jsonOut = None \<and> encode = None))) \<and>
   (\<forall>why n. map_of (Skipped rep) why = Some n \<longrightarrow>
      ''skipped          '' @ d8 (int n) @ ''   '' @ why \<in> set (print_report f1 H rep))"
proof (intro conjI allI impI)
  have "exit_code (Inr rep) = 0 \<or> exit_code (Inr rep) = 1" by (simp add: exit_code_def)
  then show "fst (finish_main f1 create encode jsonOut H rep) = 0 \<longleftrightarrow>
      filter alarming (print_report f1 H rep) = [] \<and> (jsonOut = '''' \<or> (create jsonOut = None \<and> encode = None))"
    unfolding alarming_report by (auto simp: finish_main_def replay_writeJSON_def Let_def split: option.split)
next
  fix why n assume m: "map_of (Skipped rep) why = Some n"
  then have "why \<in> set (sortedKeys (Skipped rep))" unfolding set_sortedKeys by (force dest: map_of_SomeD)
  with m show "''skipped          '' @ d8 (int n) @ ''   '' @ why \<in> set (print_report f1 H rep)"
    unfolding print_report_def by (force simp del: append_Cons)
qed

end
