(* ===== verification/Base64.thy ===== *)
theory Base64
  imports Go_Prelude
begin

text \<open>
  \<open>base64.RawURLEncoding\<close> of Go's \<open>encoding/base64\<close>, which \<open>internal/store/query.go\<close> uses for page
  tokens and \<open>cmd/console/auth.go\<close> for session cookies: the URL-safe alphabet without padding.
  The decoder skips line breaks, refuses every other byte outside the alphabet and a single
  trailing character, and ignores the unused low bits of the last character.
\<close>

definition b64_alphabet :: string where
  "b64_alphabet =
     ''ABCDEFGHIJKLMNOPQRSTUVWXYZabcdefghijklmnopqrstuvwxyz0123456789-_''"

definition b64_char :: "nat \<Rightarrow> char" where
  "b64_char n = b64_alphabet ! n"

definition b64_val :: "char \<Rightarrow> nat option" where
  "b64_val c =
     (let n = of_char c :: nat in
      if 65 \<le> n \<and> n \<le> 90 then Some (n - 65)
      else if 97 \<le> n \<and> n \<le> 122 then Some (n - 71)
      else if 48 \<le> n \<and> n \<le> 57 then Some (n + 4)
      else if n = 45 then Some 62
      else if n = 95 then Some 63
      else None)"

fun b64_encode :: "bytes \<Rightarrow> string" where
  "b64_encode [] = []"
| "b64_encode [a] =
     (let x = of_char a :: nat in [b64_char (x div 4), b64_char (x mod 4 * 16)])"
| "b64_encode [a, b] =
     (let x = of_char a :: nat; y = of_char b :: nat
      in [b64_char (x div 4), b64_char (x mod 4 * 16 + y div 16), b64_char (y mod 16 * 4)])"
| "b64_encode (a # b # c # rest) =
     (let x = of_char a :: nat; y = of_char b :: nat; z = of_char c :: nat
      in b64_char (x div 4) # b64_char (x mod 4 * 16 + y div 16) #
         b64_char (y mod 16 * 4 + z div 64) # b64_char (z mod 64) # b64_encode rest)"

fun b64_values :: "string \<Rightarrow> nat list option" where
  "b64_values [] = Some []"
| "b64_values (c # cs) =
     (if c = CHR 0x0A \<or> c = CHR 0x0D then b64_values cs
      else case b64_val c of
             None \<Rightarrow> None
           | Some v \<Rightarrow> map_option (\<lambda>vs. v # vs) (b64_values cs))"

fun b64_bytes :: "nat list \<Rightarrow> bytes option" where
  "b64_bytes [] = Some []"
| "b64_bytes [p] = None"
| "b64_bytes [p, q] = Some [char_of (p * 4 + q div 16)]"
| "b64_bytes [p, q, r] = Some [char_of (p * 4 + q div 16), char_of (q mod 16 * 16 + r div 4)]"
| "b64_bytes (p # q # r # s # rest) =
     map_option (\<lambda>bs. char_of (p * 4 + q div 16) # char_of (q mod 16 * 16 + r div 4) #
                      char_of (r mod 4 * 64 + s) # bs) (b64_bytes rest)"

definition b64_decode :: "string \<Rightarrow> bytes option" where
  "b64_decode s = (case b64_values s of None \<Rightarrow> None | Some vs \<Rightarrow> b64_bytes vs)"

section \<open>The round trip\<close>

lemma b64_char_all:
  "list_all (\<lambda>n. b64_val (b64_char n) = Some n \<and> b64_char n \<noteq> CHR 0x0A \<and> b64_char n \<noteq> CHR 0x0D) [0..<64]"
  by (simp add: upt_conv_Cons b64_char_def b64_alphabet_def b64_val_def Let_def)

lemma b64_char_val [simp]:
  assumes "n < 64"
  shows "b64_val (b64_char n) = Some n" "b64_char n \<noteq> CHR 0x0A" "b64_char n \<noteq> CHR 0x0D"
  using b64_char_all assms by (auto simp: list_all_iff)

lemma b64_values_char [simp]:
  "n < 64 \<Longrightarrow> b64_values (b64_char n # cs) = map_option (\<lambda>vs. n # vs) (b64_values cs)"
  by simp

lemma byte_lt [simp]: "(of_char c :: nat) < 256"
  by (cases c) simp

lemma byte_parts:
  "x < 256 \<Longrightarrow> x div 4 < (64 :: nat)"
  "y < 256 \<Longrightarrow> x mod 4 * 16 + y div 16 < (64 :: nat)"
  "z < 256 \<Longrightarrow> y mod 16 * 4 + z div 64 < (64 :: nat)"
  "x mod 4 * 16 < (64 :: nat)" "y mod 16 * 4 < (64 :: nat)"
  by linarith+

text \<open>Splitting a byte over two characters and joining it again, for \<open>m\<close> and \<open>k\<close> the two base values.\<close>

lemma join_parts:
  fixes x :: nat
  assumes "k < m" "0 < m"
  shows "(x * m + k) div m = x" "(x * m + k) mod m = k"
  using assms by simp_all

lemma byte_joins:
  "y < 256 \<Longrightarrow> x div 4 * 4 + (x mod 4 * 16 + y div 16) div 16 = (x :: nat)"
  "y < 256 \<Longrightarrow> z < 256 \<Longrightarrow>
     (x mod 4 * 16 + y div 16) mod 16 * 16 + (y mod 16 * 4 + z div 64) div 4 = (y :: nat)"
  "y < 256 \<Longrightarrow> (x mod 4 * 16 + y div 16) mod 16 * 16 + (y mod 16 * 4) div 4 = (y :: nat)"
  "z < 256 \<Longrightarrow> (y mod 16 * 4 + z div 64) mod 4 * 64 + z mod 64 = (z :: nat)"
  "x div 4 * 4 + (x mod 4 * 16) div 16 = (x :: nat)"
proof -
  have q: "y div 16 < 16" if "y < 256" for y :: nat using that by linarith
  have r: "z div 64 < 4" if "z < 256" for z :: nat using that by linarith
  show "y < 256 \<Longrightarrow> x div 4 * 4 + (x mod 4 * 16 + y div 16) div 16 = x"
    by (simp add: join_parts q div_mult_mod_eq)
  show "y < 256 \<Longrightarrow> z < 256 \<Longrightarrow>
     (x mod 4 * 16 + y div 16) mod 16 * 16 + (y mod 16 * 4 + z div 64) div 4 = y"
    by (simp add: join_parts q r div_mult_mod_eq)
  show "y < 256 \<Longrightarrow> (x mod 4 * 16 + y div 16) mod 16 * 16 + (y mod 16 * 4) div 4 = y"
    by (simp add: join_parts q div_mult_mod_eq)
  show "z < 256 \<Longrightarrow> (y mod 16 * 4 + z div 64) mod 4 * 64 + z mod 64 = z"
    by (simp add: join_parts r div_mult_mod_eq)
  show "x div 4 * 4 + (x mod 4 * 16) div 16 = x"
    by (simp add: div_mult_mod_eq)
qed

lemma b64_round_trip_values:
  "\<exists>vs. b64_values (b64_encode bs) = Some vs \<and> b64_bytes vs = Some bs"
proof (induction bs rule: b64_encode.induct)
  case (2 a)
  have "b64_values (b64_encode [a]) = Some [of_char a div 4, of_char a mod 4 * 16]"
    by (simp only: b64_encode.simps Let_def b64_values_char byte_parts byte_lt) simp
  moreover have "b64_bytes [of_char a div 4, of_char a mod 4 * 16] = Some [a]"
    by (simp only: b64_bytes.simps byte_joins char_of_char)
  ultimately show ?case by blast
next
  case (3 a b)
  have "b64_values (b64_encode [a, b]) =
      Some [of_char a div 4, of_char a mod 4 * 16 + of_char b div 16, of_char b mod 16 * 4]"
    by (simp only: b64_encode.simps Let_def b64_values_char byte_parts byte_lt) simp
  moreover have "b64_bytes [of_char a div 4, of_char a mod 4 * 16 + of_char b div 16,
      of_char b mod 16 * 4] = Some [a, b]"
    by (simp only: b64_bytes.simps byte_joins byte_lt char_of_char)
  ultimately show ?case by blast
next
  case (4 a b c rest)
  then obtain vs where v: "b64_values (b64_encode rest) = Some vs" "b64_bytes vs = Some rest" by blast
  have "b64_values (b64_encode (a # b # c # rest)) =
      Some (of_char a div 4 # (of_char a mod 4 * 16 + of_char b div 16) #
            (of_char b mod 16 * 4 + of_char c div 64) # (of_char c mod 64) # vs)"
    by (simp only: b64_encode.simps Let_def b64_values_char byte_parts byte_lt mod_less_divisor v) simp
  moreover have "b64_bytes (of_char a div 4 # (of_char a mod 4 * 16 + of_char b div 16) #
      (of_char b mod 16 * 4 + of_char c div 64) # (of_char c mod 64) # vs) = Some (a # b # c # rest)"
    by (simp only: b64_bytes.simps byte_joins byte_lt char_of_char v option.map)
  ultimately show ?case by blast
qed simp

lemma b64_round_trip: "b64_decode (b64_encode bs) = Some bs"
  using b64_round_trip_values[of bs] by (auto simp: b64_decode_def)

lemma b64_encode_empty [simp]: "b64_encode bs = [] \<longleftrightarrow> bs = []"
  by (cases bs rule: b64_encode.cases) (auto simp: Let_def)

lemma length_b64_encode: "length (b64_encode bs) = (4 * length bs + 2) div 3"
  by (induction bs rule: b64_encode.induct) (auto simp: Let_def)

end
