(* ===== verification/Store_Query.thy ===== *)
theory Store_Query
  imports Store Base64 "HOL-Library.Product_Lexorder"
begin

text \<open>
  \<open>internal/store/query.go\<close>: \<open>GetOrder\<close>, \<open>ListOrders\<close> with its keyset cursor, \<open>scanOrder\<close>,
  \<open>encodeCursor\<close> and \<open>decodeCursor\<close>.

  A \<open>store.Order\<close> has the fields of a \<open>row\<close> and is one. The server's part of a read is
  \<open>select_where\<close>: the \<open>WHERE\<close> clauses, \<open>ORDER BY processed_at DESC, order_id DESC\<close> and \<open>LIMIT\<close>;
  UUIDs compare as their canonical texts do. What can go wrong on the way back is the parameter
  \<open>rd\<close>: the query is refused, a row cannot be scanned, the \<open>items\<close> column is no JSON of items, the
  result set ends in an error.

  The JSON text of a cursor is the parameter \<open>js\<close>; the Base64 layer around it is modelled. What
  the paging properties use of JSON is \<open>codec_ok\<close>: a cursor is read back as it was written, and
  no JSON text is empty.
\<close>

section \<open>Cursors\<close>

record cursor =
  CurProcessedAt :: time
  CurOrderID :: string

record cursor_json =
  marshal_cursor :: "cursor \<Rightarrow> bytes"
  unmarshal_cursor :: "bytes \<Rightarrow> cursor res"

definition encodeCursor :: "cursor_json \<Rightarrow> cursor \<Rightarrow> string" where
  "encodeCursor js c = b64_encode (marshal_cursor js c)"

definition decodeCursor :: "cursor_json \<Rightarrow> string \<Rightarrow> cursor res" where
  "decodeCursor js token =
     (case b64_decode token of
        None \<Rightarrow> Inl (Wrapf '''' ErrInvalidArgument '': page token is not valid base64'')
      | Some b \<Rightarrow>
          (case unmarshal_cursor js b of
             Inl e \<Rightarrow> Inl (Wrapf '''' ErrInvalidArgument '': page token is not a valid cursor'')
           | Inr c \<Rightarrow>
               if CurOrderID c = '''' \<or> CurProcessedAt c = 0
               then Inl (Wrapf '''' ErrInvalidArgument '': page token is incomplete'')
               else Inr c))"

section \<open>Reads\<close>

record read_ops =
  query_err :: "err option"
  scan_err :: "row \<Rightarrow> err option"
  items_in :: "item list \<Rightarrow> item list res"
  rows_err :: "err option"

definition scanOrder :: "read_ops \<Rightarrow> row \<Rightarrow> row res" where
  "scanOrder rd r =
     (case scan_err rd r of
        Some e \<Rightarrow> Inl e
      | None \<Rightarrow>
          (case items_in rd (row_items r) of
             Inl e \<Rightarrow> Inl (Wrapf ''decode items: '' e '''')
           | Inr its \<Rightarrow> Inr (r\<lparr>row_items := its\<rparr>)))"

definition GetOrder :: "pg \<Rightarrow> read_ops \<Rightarrow> table \<Rightarrow> string \<Rightarrow> row res" where
  "GetOrder pg rd T orderID =
     (let scanned =
        (case query_err rd of
           Some e \<Rightarrow> Inl e
         | None \<Rightarrow>
             (case uuid_in pg orderID of
                None \<Rightarrow> Inl invalid_text
              | Some oid \<Rightarrow>
                  (case filter (\<lambda>r. row_order_id r = oid) T of
                     [] \<Rightarrow> Inl ErrNoRows
                   | r # _ \<Rightarrow> scanOrder rd r)))
      in case scanned of
           Inl e \<Rightarrow> if errors_is e ErrNoRows then Inl ErrNotFound else Inl (Wrapf ''get order: '' e '''')
         | Inr r \<Rightarrow> Inr r)"

definition defaultPageSize :: int where "defaultPageSize = 50"
definition maxPageSize :: int where "maxPageSize = 500"

definition clampPageSize :: "int \<Rightarrow> int" where
  "clampPageSize n =
     (let n1 = (if n \<le> 0 then defaultPageSize else n)
      in if n1 > maxPageSize then maxPageSize else n1)"

definition selectColumns :: string where
  "selectColumns = ''order_id, event_id, customer_id, items, total_cents, occurred_at, processed_at''"

text \<open>The text of the query and the number of its arguments, by the clauses it has.\<close>

definition list_orders_sql :: "bool \<Rightarrow> bool \<Rightarrow> string \<times> nat" where
  "list_orders_sql by_customer by_token =
     (let s0 = ''SELECT '' @ selectColumns @ '' FROM orders WHERE true''; n0 = 0;
          (s1, n1) = (if by_customer
                      then (s0 @ '' AND customer_id = $'' @ itoa (int (n0 + 1)), n0 + 1) else (s0, n0));
          (s2, n2) = (if by_token
                      then (s1 @ '' AND (processed_at, order_id) < ($'' @ itoa (int (n1 + 2 - 1)) @ '', $'' @
                            itoa (int (n1 + 2)) @ '')'', n1 + 2) else (s1, n1));
          n3 = n2 + 1
      in (s2 @ '' ORDER BY processed_at DESC, order_id DESC LIMIT $'' @ itoa (int n3), n3))"

definition row_key :: "row \<Rightarrow> time \<times> string" where
  "row_key r = (row_processed_at r, row_order_id r)"

definition in_page :: "string \<Rightarrow> (time \<times> string) option \<Rightarrow> row \<Rightarrow> bool" where
  "in_page customerID before r \<longleftrightarrow>
     (customerID = '''' \<or> row_customer_id r = customerID) \<and>
     (case before of None \<Rightarrow> True | Some k \<Rightarrow> row_key r < k)"

definition select_where :: "table \<Rightarrow> string \<Rightarrow> (time \<times> string) option \<Rightarrow> nat \<Rightarrow> row list" where
  "select_where T customerID before limit =
     take limit (rev (sort_key row_key (filter (in_page customerID before) T)))"

fun scan_rows :: "read_ops \<Rightarrow> row list \<Rightarrow> row list res" where
  "scan_rows rd [] = Inr []"
| "scan_rows rd (r # rs) =
     (case scanOrder rd r of
        Inl e \<Rightarrow> Inl (Wrapf ''scan order: '' e '''')
      | Inr x \<Rightarrow> (case scan_rows rd rs of Inl e \<Rightarrow> Inl e | Inr xs \<Rightarrow> Inr (x # xs)))"

text \<open>The statement with its arguments bound: the anchor's identifier is read as a UUID.\<close>

definition run_query ::
  "pg \<Rightarrow> read_ops \<Rightarrow> table \<Rightarrow> string \<Rightarrow> cursor option \<Rightarrow> nat \<Rightarrow> row list res" where
  "run_query pg rd T customerID cur limit =
     (case query_err rd of
        Some e \<Rightarrow> Inl (Wrapf ''list orders: '' e '''')
      | None \<Rightarrow>
          (case cur of
             None \<Rightarrow> Inr (select_where T customerID None limit)
           | Some c \<Rightarrow>
               (case uuid_in pg (CurOrderID c) of
                  None \<Rightarrow> Inl (Wrapf ''list orders: '' invalid_text '''')
                | Some oid \<Rightarrow>
                    Inr (select_where T customerID (Some (ts_in pg (CurProcessedAt c), oid)) limit))))"

definition ListOrders ::
  "pg \<Rightarrow> cursor_json \<Rightarrow> read_ops \<Rightarrow> table \<Rightarrow> int \<Rightarrow> string \<Rightarrow> string \<Rightarrow> (row list \<times> string) res" where
  "ListOrders pg js rd T pageSize0 pageToken customerID =
     (let pageSize = clampPageSize pageSize0;
          cur = (if pageToken \<noteq> ''''
                 then (case decodeCursor js pageToken of Inl e \<Rightarrow> Inl e | Inr c \<Rightarrow> Inr (Some c))
                 else Inr None)
      in case cur of
           Inl e \<Rightarrow> Inl e
         | Inr c \<Rightarrow>
             (case run_query pg rd T customerID c (nat (pageSize + 1)) of
                Inl e \<Rightarrow> Inl e
              | Inr rs \<Rightarrow>
                  (case scan_rows rd rs of
                     Inl e \<Rightarrow> Inl e
                   | Inr orders \<Rightarrow>
                       (case rows_err rd of
                          Some e \<Rightarrow> Inl (Wrapf ''list orders: '' e '''')
                        | None \<Rightarrow>
                            if int (length orders) > pageSize
                            then let page = take (nat pageSize) orders; l = last page
                                 in Inr (page, encodeCursor js
                                      \<lparr>CurProcessedAt = row_processed_at l, CurOrderID = row_order_id l\<rparr>)
                            else Inr (orders, '''')))))"

section \<open>Cursors are read back\<close>

definition codec_ok :: "cursor_json \<Rightarrow> bool" where
  "codec_ok js \<longleftrightarrow> (\<forall>c. marshal_cursor js c \<noteq> [] \<and> unmarshal_cursor js (marshal_cursor js c) = Inr c)"

lemma decode_encode:
  assumes "codec_ok js" and "CurOrderID c \<noteq> ''''" and "CurProcessedAt c \<noteq> 0"
  shows "decodeCursor js (encodeCursor js c) = Inr c"
  using assms by (simp add: decodeCursor_def encodeCursor_def b64_round_trip codec_ok_def)

lemma encodeCursor_nonempty: "codec_ok js \<Longrightarrow> encodeCursor js c \<noteq> ''''"
  by (simp add: encodeCursor_def codec_ok_def)

lemma decodeCursor_error: "decodeCursor js token = Inl e \<Longrightarrow> errors_is e ErrInvalidArgument"
  by (auto simp: decodeCursor_def split: option.splits sum.splits if_splits)

lemma clampPageSize_range: "1 \<le> clampPageSize n \<and> clampPageSize n \<le> maxPageSize"
  by (simp add: clampPageSize_def Let_def defaultPageSize_def maxPageSize_def)

section \<open>Paging\<close>

text \<open>A client following the tokens, one table per request since rows arrive in between.\<close>

fun pages ::
  "pg \<Rightarrow> cursor_json \<Rightarrow> read_ops \<Rightarrow> int \<Rightarrow> string \<Rightarrow> string \<Rightarrow> table list \<Rightarrow> (row list \<times> bool) res" where
  "pages pg js rd n customerID token [] = Inr ([], False)"
| "pages pg js rd n customerID token (T # Ts) =
     (case ListOrders pg js rd T n token customerID of
        Inl e \<Rightarrow> Inl e
      | Inr (rows, next) \<Rightarrow>
          if next = '''' then Inr (rows, True)
          else (case pages pg js rd n customerID next Ts of
                  Inl e \<Rightarrow> Inl e
                | Inr (rest, fin) \<Rightarrow> Inr (rows @ rest, fin)))"

definition reads_ok :: "read_ops \<Rightarrow> bool" where
  "reads_ok rd \<longleftrightarrow> query_err rd = None \<and> rows_err rd = None \<and>
     (\<forall>r. scan_err rd r = None) \<and> (\<forall>its. items_in rd its = Inr its)"

text \<open>The columns of a row are in the server's own format, and the anchor columns are set.\<close>

definition row_canonical :: "pg \<Rightarrow> row \<Rightarrow> bool" where
  "row_canonical pg r \<longleftrightarrow>
     uuid_in pg (row_order_id r) = Some (row_order_id r) \<and> row_order_id r \<noteq> '''' \<and>
     ts_in pg (row_processed_at r) = row_processed_at r \<and> row_processed_at r \<noteq> 0"

definition newest_first :: "row list \<Rightarrow> bool" where
  "newest_first = sorted_wrt (\<lambda>a b. row_key b < row_key a)"

lemma scan_rows_ok: "reads_ok rd \<Longrightarrow> scan_rows rd rs = Inr rs"
  by (induction rs) (auto simp: reads_ok_def scanOrder_def)

lemma newest_first_sorted:
  assumes "table_ok T"
  shows "newest_first (rev (sort_key row_key (filter P T)))"
proof -
  let ?S = "sort_key row_key (filter P T)"
  have "distinct (map row_key (filter P T))"
    using distinct_map_filter[of row_order_id T P] assms
    by (auto simp: table_ok_def row_key_def distinct_map inj_on_def)
  then have "distinct (map row_key ?S)"
    by (metis distinct_map distinct_sort set_sort)
  moreover have "sorted (map row_key ?S)" by simp
  ultimately have "sorted_wrt (<) (map row_key ?S)" by (simp add: strict_sorted_iff)
  then show ?thesis by (simp add: newest_first_def sorted_wrt_rev sorted_wrt_map)
qed

lemma newest_first_cut:
  assumes "newest_first S" and "n < length S" and "0 < n" and "r \<in> set S"
  shows "r \<in> set (take n S) \<or> row_key r < row_key (last (take n S))"
proof -
  have l: "last (take n S) \<in> set (take n S)" using assms(2,3) by (intro last_in_set) auto
  have "newest_first (take n S @ drop n S)" using assms(1) by simp
  then have "\<forall>a \<in> set (take n S). \<forall>b \<in> set (drop n S). row_key b < row_key a"
    unfolding newest_first_def sorted_wrt_append by blast
  moreover have "r \<in> set (take n S) \<or> r \<in> set (drop n S)"
    using assms(4) by (metis Un_iff append_take_drop_id set_append)
  ultimately show ?thesis using l by blast
qed

lemma newest_first_last: "newest_first S \<Longrightarrow> r \<in> set S \<Longrightarrow> row_key (last S) \<le> row_key r"
proof -
  assume s: "newest_first S" and r: "r \<in> set S"
  then have "S = butlast S @ [last S]" by (cases S rule: rev_cases) auto
  with s have "\<forall>a \<in> set (butlast S). row_key (last S) < row_key a"
    unfolding newest_first_def by (metis list.set_intros(1) sorted_wrt_append)
  with r \<open>S = butlast S @ [last S]\<close> show ?thesis
    by (metis Un_iff empty_iff empty_set less_imp_le order_refl set_ConsD set_append)
qed

text \<open>The token that stands for an anchor, and one page from it.\<close>

definition token_of :: "cursor_json \<Rightarrow> (time \<times> string) option \<Rightarrow> string" where
  "token_of js before =
     (case before of None \<Rightarrow> '''' | Some (t, i) \<Rightarrow> encodeCursor js \<lparr>CurProcessedAt = t, CurOrderID = i\<rparr>)"

definition anchor_ok :: "pg \<Rightarrow> (time \<times> string) option \<Rightarrow> bool" where
  "anchor_ok pg before \<longleftrightarrow>
     (case before of None \<Rightarrow> True | Some (t, i) \<Rightarrow> uuid_in pg i = Some i \<and> i \<noteq> '''' \<and> ts_in pg t = t \<and> t \<noteq> 0)"

definition page_rows :: "table \<Rightarrow> string \<Rightarrow> (time \<times> string) option \<Rightarrow> row list" where
  "page_rows T customerID before = rev (sort_key row_key (filter (in_page customerID before) T))"

lemma set_page_rows: "set (page_rows T cust before) = {r \<in> set T. in_page cust before r}"
  by (simp add: page_rows_def Collect_conj_eq Int_commute)

lemma ListOrders_page:
  assumes "codec_ok js" and "reads_ok rd" and "anchor_ok pg before"
  shows "ListOrders pg js rd T n (token_of js before) cust =
    (let m = nat (clampPageSize n); S = page_rows T cust before
     in if length S > m then Inr (take m S, token_of js (Some (row_key (last (take m S)))))
        else Inr (S, ''''))"
proof -
  have q: "run_query pg rd T cust (map_option (\<lambda>(t, i). \<lparr>CurProcessedAt = t, CurOrderID = i\<rparr>) before) k =
      Inr (take k (page_rows T cust before))" for k
    using assms(2,3)
    by (auto simp: run_query_def reads_ok_def anchor_ok_def select_where_def page_rows_def split: option.splits)
  have cur: "(if token_of js before \<noteq> ''''
       then (case decodeCursor js (token_of js before) of Inl e \<Rightarrow> Inl e | Inr c \<Rightarrow> Inr (Some c))
       else Inr None) = Inr (map_option (\<lambda>(t, i). \<lparr>CurProcessedAt = t, CurOrderID = i\<rparr>) before)"
    using assms(1,3) decode_encode[OF assms(1)] encodeCursor_nonempty[OF assms(1)]
    by (auto simp: token_of_def anchor_ok_def split: option.splits)
  let ?m = "clampPageSize n"
  have m: "1 \<le> ?m" "nat (?m + 1) = Suc (nat ?m)" using clampPageSize_range[of n] by auto
  have len: "int (length (take (Suc (nat ?m)) S)) > ?m \<longleftrightarrow> length S > nat ?m" for S :: "row list"
    using m by auto
  have short: "take (Suc (nat ?m)) S = S" if "\<not> length S > nat ?m" for S :: "row list"
    using that by simp
  have cutoff: "take (nat ?m) (take (Suc (nat ?m)) S) = take (nat ?m) S" for S :: "row list" by simp
  have "rows_err rd = None" using assms(2) by (simp add: reads_ok_def)
  then show ?thesis
    unfolding ListOrders_def cur Let_def
    using m(1) by (simp add: q m(2) scan_rows_ok[OF assms(2)] len short cutoff token_of_def row_key_def)
      linarith
qed

definition snapshots_ok :: "pg \<Rightarrow> table list \<Rightarrow> bool" where
  "snapshots_ok pg Ts \<longleftrightarrow>
     sorted_wrt prefix Ts \<and> (\<forall>T \<in> set Ts. table_ok T \<and> (\<forall>r \<in> set T. row_canonical pg r))"

lemma snapshots_Cons:
  assumes "snapshots_ok pg (T # Ts)"
  shows "snapshots_ok pg Ts" "table_ok T" "\<And>r. r \<in> set T \<Longrightarrow> row_canonical pg r"
    "set T \<subseteq> set (last (T # Ts))" "Ts \<noteq> [] \<Longrightarrow> set T \<subseteq> set (hd Ts)"
proof -
  have p: "prefix T T'" if "T' \<in> set Ts" for T'
    using assms that by (simp add: snapshots_ok_def)
  then show "set T \<subseteq> set (last (T # Ts))" using set_mono_prefix by (metis last_ConsR last_ConsL last_in_set subset_refl)
  show "Ts \<noteq> [] \<Longrightarrow> set T \<subseteq> set (hd Ts)" using p set_mono_prefix by (metis hd_in_set)
qed (use assms in \<open>auto simp: snapshots_ok_def\<close>)

lemma in_page_next:
  assumes "in_page cust before l"
  shows "in_page cust (Some (row_key l)) r \<Longrightarrow> in_page cust before r \<and> row_key r < row_key l"
    and "in_page cust before r \<Longrightarrow> row_key r < row_key l \<Longrightarrow> in_page cust (Some (row_key l)) r"
  using assms by (auto simp: in_page_def split: option.splits)

text \<open>
  What a walk over the snapshots \<open>Ts\<close> gives: rows newest first, each of the last snapshot; if
  the walk finished, every row of the first one; and it finishes if there are more requests
  than rows.
\<close>

definition paged :: "string \<Rightarrow> (time \<times> string) option \<Rightarrow> table list \<Rightarrow> row list \<Rightarrow> bool \<Rightarrow> bool" where
  "paged cust before Ts rows fin \<longleftrightarrow>
     newest_first rows \<and>
     (\<forall>r \<in> set rows. in_page cust before r \<and> r \<in> set (last Ts)) \<and>
     (fin \<longrightarrow> (\<forall>r \<in> set (hd Ts). in_page cust before r \<longrightarrow> r \<in> set rows)) \<and>
     (length (filter (in_page cust before) (last Ts)) < length Ts \<longrightarrow> fin)"

lemma page_cut:
  assumes "table_ok T" and "0 < m" and "m < length (page_rows T cust before)"
  defines "P \<equiv> take m (page_rows T cust before)"
  shows "newest_first P" "last P \<in> set T" "in_page cust before (last P)"
    "\<And>x. x \<in> set P \<Longrightarrow> x \<in> set T \<and> in_page cust before x \<and> row_key (last P) \<le> row_key x"
    "\<And>x. x \<in> set T \<Longrightarrow> in_page cust before x \<Longrightarrow> x \<in> set P \<or> row_key x < row_key (last P)"
proof -
  have S: "newest_first (page_rows T cust before)"
    using newest_first_sorted[OF assms(1)] by (simp add: page_rows_def)
  then show P: "newest_first P" by (simp add: P_def newest_first_def sorted_wrt_take)
  have mem: "x \<in> set T \<and> in_page cust before x" if "x \<in> set P" for x
    using in_set_takeD[OF that[unfolded P_def]] by (simp add: set_page_rows)
  have "last P \<in> set P" using assms(2,3) unfolding P_def by (intro last_in_set) auto
  then show "last P \<in> set T" "in_page cust before (last P)" using mem by blast+
  show "x \<in> set T \<and> in_page cust before x \<and> row_key (last P) \<le> row_key x" if "x \<in> set P" for x
    using mem[OF that] newest_first_last[OF P that] by blast
  show "x \<in> set P \<or> row_key x < row_key (last P)" if "x \<in> set T" "in_page cust before x" for x
    using newest_first_cut[OF S assms(3,2)] that by (simp add: P_def set_page_rows)
qed

lemma fewer_rows:
  assumes "l \<in> set T" and "in_page cust before l"
  shows "length (filter (in_page cust (Some (row_key l))) T) < length (filter (in_page cust before) T)"
proof -
  have "filter (in_page cust (Some (row_key l))) T =
      filter (in_page cust (Some (row_key l))) (filter (in_page cust before) T)"
    using in_page_next(1)[OF assms(2)] by (auto intro!: filter_cong)
  moreover have "l \<in> set (filter (in_page cust before) T)" using assms by simp
  moreover have "\<not> in_page cust (Some (row_key l)) l" by (simp add: in_page_def)
  ultimately show ?thesis by (metis length_filter_less)
qed

lemma paged_step:
  assumes T: "snapshots_ok pg (T # Ts)" and m: "0 < m" "m < length (page_rows T cust before)"
    and rest: "paged cust (Some (row_key (last (take m (page_rows T cust before))))) Ts rows fin"
    and ne: "Ts = [] \<Longrightarrow> rows = [] \<and> \<not> fin"
  shows "paged cust before (T # Ts) (take m (page_rows T cust before) @ rows) fin"
proof -
  let ?P = "take m (page_rows T cust before)"
  note T = snapshots_Cons[OF T]
  note P = page_cut[OF T(2) m]
  note next_page = in_page_next[OF P(3)]
  from rest have R: "newest_first rows" "\<And>r. r \<in> set rows \<Longrightarrow> in_page cust (Some (row_key (last ?P))) r \<and> r \<in> set (last Ts)"
    "\<And>r. fin \<Longrightarrow> r \<in> set (hd Ts) \<Longrightarrow> in_page cust (Some (row_key (last ?P))) r \<Longrightarrow> r \<in> set rows"
    "length (filter (in_page cust (Some (row_key (last ?P)))) (last Ts)) < length Ts \<Longrightarrow> fin"
    by (auto simp: paged_def)
  have "row_key b < row_key a" if "a \<in> set ?P" "b \<in> set rows" for a b
    using P(4)[OF that(1)] next_page(1) R(2)[OF that(2)] by (meson less_le_trans)
  with P(1) R(1) have nf: "newest_first (?P @ rows)"
    by (auto simp: newest_first_def sorted_wrt_append)
  have mem: "in_page cust before x \<and> x \<in> set (last (T # Ts))" if "x \<in> set (?P @ rows)" for x
    using that P(4) T(4) R(2) ne next_page(1) by (cases "Ts = []") auto
  have complete: "x \<in> set (?P @ rows)" if fin "x \<in> set T" "in_page cust before x" for x
    using P(5)[OF that(2,3)] R(3)[OF that(1)] next_page(2)[OF that(3)] T(5) ne that(1,2) by auto
  have stop: fin if "length (filter (in_page cust before) (last (T # Ts))) < length (T # Ts)"
  proof (cases "Ts = []")
    case True
    have "length (filter (in_page cust before) T) = length (page_rows T cust before)"
      by (simp add: page_rows_def)
    with that True m show ?thesis by simp
  next
    case False
    then have "last ?P \<in> set (last Ts)" using P(2) T(4) by auto
    from fewer_rows[OF this P(3)] that False R(4) show ?thesis by simp
  qed
  show ?thesis unfolding paged_def using nf mem complete stop by (metis list.sel(1))
qed

lemma pages_paged:
  assumes "codec_ok js" and "reads_ok rd"
  shows "snapshots_ok pg Ts \<Longrightarrow> anchor_ok pg before \<Longrightarrow>
    \<exists>rows fin. pages pg js rd n cust (token_of js before) Ts = Inr (rows, fin) \<and> paged cust before Ts rows fin"
proof (induction Ts arbitrary: before)
  case Nil
  then show ?case by (auto simp: paged_def newest_first_def)
next
  case (Cons T Ts)
  let ?m = "nat (clampPageSize n)" and ?S = "page_rows T cust before"
  note T = snapshots_Cons[OF Cons.prems(1)]
  note page = ListOrders_page[OF assms Cons.prems(2), of T n cust]
  show ?case
  proof (cases "length ?S > ?m")
    case False
    with page have "pages pg js rd n cust (token_of js before) (T # Ts) = Inr (?S, True)"
      by (simp add: Let_def)
    moreover have "newest_first ?S" using newest_first_sorted[OF T(2)] by (simp add: page_rows_def)
    then have "paged cust before (T # Ts) ?S True"
      using T(4) unfolding paged_def set_page_rows by (metis (mono_tags, lifting) list.sel(1) mem_Collect_eq subsetD)
    ultimately show ?thesis by blast
  next
    case True
    let ?k = "Some (row_key (last (take ?m ?S)))"
    have m: "0 < ?m" using clampPageSize_range[of n] by simp
    have "anchor_ok pg ?k"
      using T(3)[OF page_cut(2)[OF T(2) m True]] by (simp add: anchor_ok_def row_canonical_def row_key_def)
    from Cons.IH[OF T(1) this] obtain rows fin where
      r: "pages pg js rd n cust (token_of js ?k) Ts = Inr (rows, fin)" "paged cust ?k Ts rows fin" by blast
    have "token_of js ?k \<noteq> []"
      using encodeCursor_nonempty[OF assms(1)] by (simp add: token_of_def row_key_def)
    then have "pages pg js rd n cust (token_of js before) (T # Ts) = Inr (take ?m ?S @ rows, fin)"
      using page True r(1) by (simp add: Let_def)
    moreover have "Ts = [] \<Longrightarrow> rows = [] \<and> \<not> fin" using r(1) by auto
    ultimately show ?thesis using paged_step[OF Cons.prems(1) m True r(2)] by blast
  qed
qed

section \<open>Properties\<close>

text \<open>
  C7. Keyset paging neither skips nor repeats. A client that follows the tokens of \<open>ListOrders\<close>,
  while rows keep arriving between its requests, never gets an error; the rows it collects are
  strictly newest first (so no row comes twice) and match the filter; once it is told there is
  no further page it has every matching row that was there when it began; and it is told so
  within one request more than there are matching rows in the end.
\<close>

theorem paging_exactly_once:
  assumes "codec_ok js" and "reads_ok rd" and "Ts \<noteq> []"
    and "sorted_wrt prefix Ts" and "\<forall>T \<in> set Ts. table_ok T \<and> (\<forall>r \<in> set T. row_canonical pg r)"
  shows "\<exists>rows fin. pages pg js rd n cust '''' Ts = Inr (rows, fin) \<and>
    sorted_wrt (\<lambda>a b. row_key b < row_key a) rows \<and>
    set rows \<subseteq> {r \<in> set (last Ts). cust = '''' \<or> row_customer_id r = cust} \<and>
    (fin \<longrightarrow> {r \<in> set (hd Ts). cust = '''' \<or> row_customer_id r = cust} \<subseteq> set rows) \<and>
    (length (filter (\<lambda>r. cust = '''' \<or> row_customer_id r = cust) (last Ts)) < length Ts \<longrightarrow> fin)"
proof -
  have s: "snapshots_ok pg Ts" "anchor_ok pg None" "token_of js None = ''''"
    using assms(4,5) by (simp_all add: snapshots_ok_def anchor_ok_def token_of_def)
  have p: "in_page cust None = (\<lambda>r. cust = '''' \<or> row_customer_id r = cust)"
    by (simp add: fun_eq_iff in_page_def)
  from pages_paged[OF assms(1,2) s(1,2), of n cust] obtain rows fin where
    r: "pages pg js rd n cust '''' Ts = Inr (rows, fin)" and q: "paged cust None Ts rows fin"
    unfolding s(3) by blast
  from q have a: "newest_first rows" "set rows \<subseteq> {r \<in> set (last Ts). in_page cust None r}"
    and b: "fin \<longrightarrow> {r \<in> set (hd Ts). in_page cust None r} \<subseteq> set rows"
    and c: "length (filter (in_page cust None) (last Ts)) < length Ts \<longrightarrow> fin"
    unfolding paged_def by blast+
  show ?thesis
    by (intro exI conjI) (rule r, rule a(1)[unfolded newest_first_def], rule a(2)[unfolded p],
        rule b[unfolded p], rule c[unfolded p])
qed

definition sample_js :: cursor_json where
  "sample_js =
     \<lparr>marshal_cursor = (\<lambda>c. (if CurProcessedAt c < 0 then CHR ''-'' else CHR ''+'') #
         replicate (nat \<bar>CurProcessedAt c\<bar>) CHR ''1'' @ CHR ''|'' # CurOrderID c),
      unmarshal_cursor = (\<lambda>b. case cut CHR ''|'' b of
         (u, i, f) \<Rightarrow> if f \<and> u \<noteq> []
           then Inr \<lparr>CurProcessedAt = (if hd u = CHR ''-'' then - int (length (tl u)) else int (length (tl u))),
                     CurOrderID = i\<rparr>
           else Inl (OtherErr ''invalid character''))\<rparr>"

definition sample_rd :: read_ops where
  "sample_rd = \<lparr>query_err = None, scan_err = (\<lambda>_. None), items_in = Inr, rows_err = None\<rparr>"

definition sample_row :: "nat \<Rightarrow> row" where
  "sample_row i =
     \<lparr>row_order_id = ''o'' @ itoa (int i), row_event_id = ''e'' @ itoa (int i), row_customer_id = ''cust-1'',
      row_items = [], row_total_cents = 0, row_occurred_at = 1, row_processed_at = 1 + int (i div 2)\<rparr>"

lemma sample_codec: "codec_ok sample_js"
proof -
  have "cut CHR ''|'' (replicate k CHR ''1'' @ CHR ''|'' # i) = (replicate k CHR ''1'', i, True)" for k i
    by (rule cut_append) simp
  then show ?thesis by (auto simp: codec_ok_def sample_js_def)
qed

lemma sample_reads: "reads_ok sample_rd"
  by (simp add: reads_ok_def sample_rd_def)

lemma paging_exactly_once_witness:
  "\<exists>rows. pages sample_pg sample_js sample_rd 1 '''' ''''
      [[sample_row 0, sample_row 1], [sample_row 0, sample_row 1, sample_row 2],
       [sample_row 0, sample_row 1, sample_row 2], [sample_row 0, sample_row 1, sample_row 2]]
      = Inr (rows, True) \<and> {sample_row 0, sample_row 1} \<subseteq> set rows"
proof -
  let ?a = "[sample_row 0, sample_row 1]" and ?b = "[sample_row 0, sample_row 1, sample_row 2]"
  have "\<forall>T \<in> set [?a, ?b, ?b, ?b]. table_ok T \<and> (\<forall>r \<in> set T. row_canonical sample_pg r)"
    by (simp add: table_ok_def row_canonical_def sample_row_def sample_pg_def itoa_def nat_digits.simps)
  from paging_exactly_once[OF sample_codec sample_reads _ _ this, where n = 1 and cust = "''''"]
  show ?thesis by fastforce
qed

text \<open>
  A page token survives the round trip: what \<open>encodeCursor\<close> writes for a complete cursor,
  \<open>decodeCursor\<close> reads back; and every token it refuses, for whichever of its three reasons, is
  an \<open>ErrInvalidArgument\<close>, which the classifiers blame on the caller and never retry.
\<close>

theorem cursor_round_trip:
  assumes "codec_ok js"
  shows "(CurOrderID c \<noteq> '''' \<and> CurProcessedAt c \<noteq> 0 \<longrightarrow> decodeCursor js (encodeCursor js c) = Inr c) \<and>
    (\<forall>token e. decodeCursor js token = Inl e \<longrightarrow> IsCallerError (Some e) \<and> \<not> IsRetryable (Some e))"
proof -
  have "IsCallerError (Some e) \<and> \<not> IsRetryable (Some e)" if "errors_is e ErrInvalidArgument" for e
    using that by (auto simp: IsCallerError_def IsRetryable_def)
  with decode_encode[OF assms] decodeCursor_error show ?thesis by blast
qed

lemma cursor_round_trip_witness:
  "decodeCursor sample_js (encodeCursor sample_js \<lparr>CurProcessedAt = 7, CurOrderID = ''o1''\<rparr>) =
     Inr \<lparr>CurProcessedAt = 7, CurOrderID = ''o1''\<rparr>"
  using cursor_round_trip[OF sample_codec, of "\<lparr>CurProcessedAt = 7, CurOrderID = ''o1''\<rparr>"] by simp

text \<open>A row just inserted is the one found under its order identifier.\<close>

lemma get_inserted:
  assumes "reads_ok rd" and "InsertOrder pg rp tm e T = (Inr True, T')"
  shows "\<exists>r. GetOrder pg rd T' (OrderID e) = Inr r \<and> typed_row pg tm e = Inr r"
proof -
  from assms(2) obtain r where r: "typed_row pg tm e = Inr r" "insert_row r T = Inr (True, T')"
    by (rule InsertOrder_Inr)
  then have "T' = T @ [r]" "row_order_id r \<notin> set (map row_order_id T)"
    by (auto simp: insert_row_def split: if_splits)
  then have f: "filter (\<lambda>x. row_order_id x = row_order_id r) T' = [r]"
    by (auto simp: filter_empty_conv image_iff)
  have "query_err rd = None" "scanOrder rd r = Inr r"
    using assms(1) by (simp_all add: reads_ok_def scanOrder_def)
  with typed_row_Inr[OF r(1)] f r(1) show ?thesis by (simp add: GetOrder_def)
qed

text \<open>
  Read your write: after a write that added a row, \<open>GetOrder\<close> finds the order under its
  identifier, with the customer, the items and the total of the event; an identifier that no
  row carries is \<open>ErrNotFound\<close>; and one the server cannot read as a UUID is the caller's error.
\<close>

theorem GetOrder_after_InsertOrder:
  assumes "table_ok T" and "reads_ok rd" and "InsertOrder pg rp tm e T = (Inr True, T')"
  shows "(\<exists>o'. GetOrder pg rd T' (OrderID e) = Inr o' \<and> uuid_in pg (OrderID e) = Some (row_order_id o') \<and>
      row_customer_id o' = CustomerID e \<and> row_items o' = Items e \<and> row_total_cents o' = TotalCents e) \<and>
    (\<forall>i j. uuid_in pg i = Some j \<and> j \<notin> set (map row_order_id T') \<longrightarrow> GetOrder pg rd T' i = Inl ErrNotFound) \<and>
    (\<forall>i. uuid_in pg i = None \<longrightarrow> (\<exists>x. GetOrder pg rd T' i = Inl x \<and> IsCallerError (Some x)))"
proof -
  from get_inserted[OF assms(2,3)] obtain r where
    g: "GetOrder pg rd T' (OrderID e) = Inr r" and t: "typed_row pg tm e = Inr r" by blast
  note c = typed_row_Inr[OF t]
  have rd: "query_err rd = None" using assms(2) by (simp add: reads_ok_def)
  note g
  moreover have "GetOrder pg rd T' i = Inl ErrNotFound"
    if "uuid_in pg i = Some j" "j \<notin> set (map row_order_id T')" for i j
  proof -
    have "filter (\<lambda>x. row_order_id x = j) T' = []" using that(2) by (auto simp: filter_empty_conv)
    then show ?thesis using that(1) rd by (simp add: GetOrder_def)
  qed
  moreover have "GetOrder pg rd T' i = Inl (Wrapf ''get order: '' invalid_text '''')"
    if "uuid_in pg i = None" for i
    using that rd by (simp add: GetOrder_def invalid_text_def)
  moreover have "IsCallerError (Some (Wrapf ''get order: '' invalid_text ''''))"
    by (simp add: err_simps invalid_text_def)
  ultimately show ?thesis using c by blast
qed

lemma GetOrder_after_InsertOrder_witness:
  "\<exists>o'. GetOrder sample_pg sample_rd (snd (InsertOrder sample_pg Answered 9 (sample_event ''1'') [])) ''o1'' = Inr o' \<and>
     row_total_cents o' = 3998"
proof -
  have t: "table_ok []" by (simp add: table_ok_def)
  obtain T' where a: "InsertOrder sample_pg Answered 9 (sample_event ''1'') [] = (Inr True, T')"
    by (simp add: InsertOrder_answered typed_row_def insert_row_def sample_pg_def sample_event_def)
  from GetOrder_after_InsertOrder[OF t sample_reads a] show ?thesis
    by (auto simp: a) (simp add: sample_event_def)
qed

end
