(* ===== verification/Query_Server.thy ===== *)
theory Query_Server
  imports Store_Query
begin

text \<open>
  \<open>cmd/query/main.go\<close>: the gRPC read service. A response is \<^const>\<open>Inr\<close>, a status is
  \<^const>\<open>Inl\<close> of its code and message. The protobuf messages are records with the fields of
  \<open>proto/order/v1\<close>: \<open>quantity\<close> is an \<open>int32\<close>, money an \<open>int64\<close>, and a \<open>timestamppb.Timestamp\<close>
  keeps the instant. \<open>main\<close> is wiring; \<open>instrument\<close> measures and passes its handler's result on.
\<close>

section \<open>Messages\<close>

datatype grpc_code = NotFound | InvalidArgument | DeadlineExceeded | Unavailable | Internal | OtherCode nat

type_synonym 'a rpc = "(grpc_code \<times> string) + 'a"

record pitem =
  pSku :: string
  pQuantity :: i32
  pUnitPriceCents :: i64

record porder =
  pOrderId :: string
  pEventId :: string
  pCustomerId :: string
  pItems :: "pitem list"
  pTotalCents :: i64
  pOccurredAt :: time
  pProcessedAt :: time

definition item_to_proto :: "item \<Rightarrow> pitem" where
  "item_to_proto it =
     \<lparr>pSku = SKU it, pQuantity = ucast (Quantity it), pUnitPriceCents = UnitPriceCents it\<rparr>"

definition toProto :: "row \<Rightarrow> porder" where
  "toProto r =
     \<lparr>pOrderId = row_order_id r, pEventId = row_event_id r, pCustomerId = row_customer_id r,
      pItems = map item_to_proto (row_items r), pTotalCents = row_total_cents r,
      pOccurredAt = row_occurred_at r, pProcessedAt = row_processed_at r\<rparr>"

section \<open>The service\<close>

definition server_GetOrder :: "(string \<Rightarrow> row res) \<Rightarrow> string \<Rightarrow> porder rpc" where
  "server_GetOrder db_get order_id =
     (if order_id = '''' then Inl (InvalidArgument, ''order_id is required'')
      else
        (case db_get order_id of
           Inl e \<Rightarrow>
             if errors_is e ErrNotFound then Inl (NotFound, ''order '' @ order_id @ '' not found'')
             else if IsCallerError (Some e) then Inl (InvalidArgument, ''invalid order_id: '' @ order_id)
             else Inl (Internal, ''could not read order'')
         | Inr r \<Rightarrow> Inr (toProto r)))"

definition server_ListOrders ::
  "(int \<Rightarrow> string \<Rightarrow> string \<Rightarrow> (row list \<times> string) res) \<Rightarrow> i32 \<Rightarrow> string \<Rightarrow> string \<Rightarrow> (porder list \<times> string) rpc" where
  "server_ListOrders db_list page_size page_token customer_id =
     (case db_list (sint page_size) page_token customer_id of
        Inl e \<Rightarrow>
          if IsCallerError (Some e) then Inl (InvalidArgument, err_text e)
          else Inl (Internal, ''could not list orders'')
      | Inr (orders, next) \<Rightarrow> Inr (map toProto orders, next))"

section \<open>Properties\<close>

lemma sint_ucast_i32:
  assumes "- (2 ^ 31) \<le> sint q" and "sint q < 2 ^ 31"
  shows "sint (ucast (q :: i64) :: i32) = sint q"
proof -
  have "(ucast q :: i32) = scast q"
    by (rule bit_word_eqI) (auto simp: bit_simps min_def)
  moreover have "sint (of_int x :: i32) = x" if "- (2 ^ 31) \<le> x" "x < 2 ^ 31" for x
    using that by (simp add: signed_of_int signed_take_bit_int_eq_self)
  from this[OF assms] have "sint (scast q :: i32) = sint q" by simp
  ultimately show ?thesis by simp
qed

text \<open>
  A stored order crosses the wire unchanged as long as its quantities fit 32 bits: the
  identifiers, the customer, the total and the two instants are those of the row, and so are the
  items, one by one in order, with their SKU, quantity and price.
\<close>

theorem toProto_faithful:
  assumes "\<forall>it \<in> set (row_items r). - (2 ^ 31) \<le> sint (Quantity it) \<and> sint (Quantity it) < 2 ^ 31"
  shows "pOrderId (toProto r) = row_order_id r \<and> pEventId (toProto r) = row_event_id r \<and>
    pCustomerId (toProto r) = row_customer_id r \<and> pTotalCents (toProto r) = row_total_cents r \<and>
    pOccurredAt (toProto r) = row_occurred_at r \<and> pProcessedAt (toProto r) = row_processed_at r \<and>
    map (\<lambda>p. (pSku p, sint (pQuantity p), pUnitPriceCents p)) (pItems (toProto r)) =
    map (\<lambda>it. (SKU it, sint (Quantity it), UnitPriceCents it)) (row_items r)"
  using assms by (simp add: toProto_def item_to_proto_def sint_ucast_i32)

lemma toProto_faithful_witness:
  "sint (pQuantity (hd (pItems (toProto ((sample_row 0)\<lparr>row_items := [\<lparr>SKU = ''W'', Quantity = 7, UnitPriceCents = 3\<rparr>]\<rparr>))))) = 7"
  using toProto_faithful[of "(sample_row 0)\<lparr>row_items := [\<lparr>SKU = ''W'', Quantity = 7, UnitPriceCents = 3\<rparr>]\<rparr>"]
  by (simp add: toProto_def)

text \<open>
  Beyond 32 bits it does not: an order that \<open>Validate\<close> accepts and the store holds is shown to
  readers with a negative quantity.
\<close>

theorem toProto_truncates:
  "\<exists>r. Validate r = None \<and>
     (\<exists>p \<in> set (map item_to_proto (ReqItems r)). sint (pQuantity p) < 0)"
proof -
  let ?r = "\<lparr>ReqCustomerID = ''c'', ReqItems = [\<lparr>SKU = ''s'', Quantity = 2 ^ 31, UnitPriceCents = 1\<rparr>]\<rparr>"
  have "Validate ?r = None" by code_simp
  moreover have "\<exists>p \<in> set (map item_to_proto (ReqItems ?r)). sint (pQuantity p) < 0" by code_simp
  ultimately show ?thesis by blast
qed

text \<open>
  The service blames the right party. Reading one order against a healthy database gives a
  response exactly if the identifier names a row; an empty or malformed identifier is
  \<open>InvalidArgument\<close>, an identifier without a row is \<open>NotFound\<close>; and no failure of the database
  itself (any error that is not the caller's) is ever reported as either.
\<close>

theorem server_GetOrder_codes:
  assumes "reads_ok rd" and "uuid_in pg '''' = None"
  shows "(case server_GetOrder (GetOrder pg rd T) i of
            Inr o' \<Rightarrow> \<exists>r \<in> set T. uuid_in pg i = Some (row_order_id r) \<and> o' = toProto r
          | Inl (c, _) \<Rightarrow> (case uuid_in pg i of
                            None \<Rightarrow> c = InvalidArgument
                          | Some j \<Rightarrow> c = NotFound \<and> j \<notin> set (map row_order_id T))) \<and>
    (\<not> errors_is e ErrNotFound \<and> \<not> IsCallerError (Some e) \<and> i \<noteq> '''' \<longrightarrow>
       server_GetOrder (\<lambda>_. Inl e) i = Inl (Internal, ''could not read order''))"
proof -
  have rd: "query_err rd = None" "\<And>r. scanOrder rd r = Inr r"
    using assms(1) by (simp_all add: reads_ok_def scanOrder_def)
  have "case server_GetOrder (GetOrder pg rd T) i of
            Inr o' \<Rightarrow> \<exists>r \<in> set T. uuid_in pg i = Some (row_order_id r) \<and> o' = toProto r
          | Inl (c, _) \<Rightarrow> (case uuid_in pg i of
                            None \<Rightarrow> c = InvalidArgument
                          | Some j \<Rightarrow> c = NotFound \<and> j \<notin> set (map row_order_id T))"
  proof (cases "uuid_in pg i")
    case None
    then show ?thesis
      using rd by (auto simp: server_GetOrder_def GetOrder_def invalid_text_def err_simps)
  next
    case (Some j)
    then have ne: "i \<noteq> ''''" using assms(2) by auto
    show ?thesis
    proof (cases "filter (\<lambda>r. row_order_id r = j) T")
      case Nil
      then have "j \<notin> set (map row_order_id T)" by (auto simp: filter_empty_conv)
      with Nil Some ne rd show ?thesis by (simp add: server_GetOrder_def GetOrder_def)
    next
      case (Cons r rs)
      then have "r \<in> set (filter (\<lambda>r. row_order_id r = j) T)" by simp
      then have "r \<in> set T \<and> row_order_id r = j" by simp
      with Cons Some ne rd show ?thesis by (auto simp: server_GetOrder_def GetOrder_def)
    qed
  qed
  then show ?thesis by (simp add: server_GetOrder_def)
qed

lemma server_GetOrder_codes_witness:
  "\<exists>m. server_GetOrder (GetOrder sample_pg sample_rd []) ''o9'' = Inl (NotFound, m)"
proof -
  have "uuid_in sample_pg '''' = None" "uuid_in sample_pg ''o9'' = Some ''o9''" by (simp_all add: sample_pg_def)
  with server_GetOrder_codes[OF sample_reads, of sample_pg "[]" "''o9''" "OtherErr ''x''"] show ?thesis
    by (auto split: sum.splits)
qed

end
