(* ===== verification/Api.thy ===== *)
theory Api
  imports Query_Server Broker Go_Float
begin

text \<open>
  \<open>cmd/api/main.go\<close>: the HTTP front. A handler maps a request to a response, a status and a JSON
  body; \<open>createOrder\<close> also threads the state \<open>'k\<close> of what it calls. The publisher is the interface
  of the source; the fresh UUIDs, the clock and \<open>uuid.NewSHA1\<close> are the fields \<open>a_uuid\<close>, \<open>a_now\<close> and
  \<open>a_sha1\<close>; \<open>a_decode n\<close> is the strict JSON decoder reading a body limited to \<open>n\<close> bytes. The
  query service is reached through a function that answers with a response or a gRPC status.
  \<open>main\<close> is wiring, and which handler serves a path is decided by \<open>net/http\<close>.
\<close>

section \<open>Responses\<close>

datatype json = JNull | JStr string | JInt int | JBool bool | JFloat f64 | JArr "json list" | JObj "(string \<times> json) list"

record response =
  Status :: nat
  Body :: json

definition writeJSON :: "nat \<Rightarrow> json \<Rightarrow> response" where
  "writeJSON status body = \<lparr>Status = status, Body = body\<rparr>"

definition writeError :: "nat \<Rightarrow> string \<Rightarrow> response" where
  "writeError status msg = writeJSON status (JObj [(''error'', JStr msg)])"

definition maxBodyBytes :: int where "maxBodyBytes = 2 ^ 20"
definition api_maxPageSize :: int where "api_maxPageSize = 500"

section \<open>Writing\<close>

record 'k api =
  a_decode :: "int \<Rightarrow> bytes \<Rightarrow> create_request res"
  a_sha1 :: "string \<Rightarrow> string \<Rightarrow> string"
  a_uuid :: "'k \<Rightarrow> string \<times> 'k"
  a_now :: "'k \<Rightarrow> time \<times> 'k"
  a_publish :: "string \<Rightarrow> event \<Rightarrow> 'k \<Rightarrow> (nat \<times> nat) res \<times> 'k"
  a_ping :: "'k \<Rightarrow> err option \<times> 'k"

definition createOrder :: "'k api \<Rightarrow> string \<Rightarrow> bytes \<Rightarrow> 'k \<Rightarrow> response \<times> 'k" where
  "createOrder A idempotencyKey body k =
     (case ValidateIdempotencyKey idempotencyKey of
        Some e \<Rightarrow> (writeError 400 (err_text e), k)
      | None \<Rightarrow>
         (case a_decode A maxBodyBytes body of
            Inl e \<Rightarrow> (writeError 400 (''malformed request body: '' @ err_text e), k)
          | Inr req \<Rightarrow>
             (case Validate req of
                Some e \<Rightarrow> (writeError 400 (err_text e), k)
              | None \<Rightarrow>
                 (case a_uuid A k of (u1, k1) \<Rightarrow>
                 (case a_uuid A k1 of (u2, k2) \<Rightarrow>
                 (case a_now A k2 of (t, k3) \<Rightarrow>
                    let evt = NewEvent (a_sha1 A) u1 u2 t req idempotencyKey
                    in case a_publish A (OrderID evt) evt k3 of
                         (Inl e, k4) \<Rightarrow> (writeError 503 ''could not accept order, please retry'', k4)
                       | (Inr pos, k4) \<Rightarrow>
                           (writeJSON 202 (JObj [(''order_id'', JStr (OrderID evt)),
                                                 (''status'', JStr ''accepted'')]), k4)))))))"

definition healthz :: response where
  "healthz = writeJSON 200 (JObj [(''status'', JStr ''ok'')])"

definition readyz :: "'k api \<Rightarrow> 'k \<Rightarrow> response \<times> 'k" where
  "readyz A k =
     (case a_ping A k of
        (Some e, k1) \<Rightarrow> (writeJSON 503 (JObj [(''status'', JStr ''not ready''),
                                            (''reason'', JStr ''kafka unreachable'')]), k1)
      | (None, k1) \<Rightarrow> (writeJSON 200 (JObj [(''status'', JStr ''ready'')]), k1))"

section \<open>Reading\<close>

definition writeGRPCError :: "grpc_code \<times> string \<Rightarrow> response" where
  "writeGRPCError e =
     (case fst e of
        NotFound \<Rightarrow> writeError 404 ''order not found''
      | InvalidArgument \<Rightarrow> writeError 400 (snd e)
      | DeadlineExceeded \<Rightarrow> writeError 504 ''query service timed out''
      | Unavailable \<Rightarrow> writeError 503 ''query service unavailable''
      | _ \<Rightarrow> writeError 500 ''internal error'')"

definition item_json :: "pitem \<Rightarrow> json" where
  "item_json it =
     JObj [(''sku'', JStr (pSku it)), (''quantity'', JInt (sint (pQuantity it))),
           (''unit_price_cents'', JInt (sint (pUnitPriceCents it)))]"

definition orderJSON :: "(time \<Rightarrow> string) \<Rightarrow> porder \<Rightarrow> json" where
  "orderJSON fmt_time o' =
     JObj [(''order_id'', JStr (pOrderId o')), (''event_id'', JStr (pEventId o')),
           (''customer_id'', JStr (pCustomerId o')), (''items'', JArr (map item_json (pItems o'))),
           (''total_cents'', JInt (sint (pTotalCents o'))),
           (''occurred_at'', JStr (fmt_time (pOccurredAt o'))),
           (''processed_at'', JStr (fmt_time (pProcessedAt o')))]"

definition getOrder :: "(time \<Rightarrow> string) \<Rightarrow> (string \<Rightarrow> porder rpc) \<Rightarrow> string \<Rightarrow> response" where
  "getOrder fmt_time orders_get i =
     (case orders_get i of
        Inl e \<Rightarrow> writeGRPCError e
      | Inr o' \<Rightarrow> writeJSON 200 (orderJSON fmt_time o'))"

definition parsePageSize :: "string \<Rightarrow> i32 res" where
  "parsePageSize raw =
     (if raw = '''' then Inr 0
      else
        (case atoi raw of
           None \<Rightarrow> Inl (OtherErr ''page_size must be a number'')
         | Some n \<Rightarrow>
             if n < 0 then Inl (OtherErr ''page_size must not be negative'')
             else Inr (of_int (if n > api_maxPageSize then api_maxPageSize else n))))"

definition listOrders ::
  "(time \<Rightarrow> string) \<Rightarrow> (i32 \<Rightarrow> string \<Rightarrow> string \<Rightarrow> (porder list \<times> string) rpc) \<Rightarrow>
   string \<Rightarrow> string \<Rightarrow> string \<Rightarrow> response" where
  "listOrders fmt_time orders_list page_size page_token customer_id =
     (case parsePageSize page_size of
        Inl e \<Rightarrow> writeError 400 (err_text e)
      | Inr n \<Rightarrow>
          (case orders_list n page_token customer_id of
             Inl e \<Rightarrow> writeGRPCError e
           | Inr (os, next) \<Rightarrow>
               writeJSON 200 (JObj [(''orders'', JArr (map (orderJSON fmt_time) os)),
                                    (''next_page_token'', JStr next)])))"

section \<open>Properties\<close>

text \<open>
  An order is accepted only if the broker has acknowledged it. \<open>createOrder\<close> answers 202, 400 or
  503. It answers 400, and publishes nothing, exactly if the key is refused, the body does not
  decode or the request is invalid; otherwise it makes one publish call, of the event of the
  request under the key of its order, and answers 202 with that order's identifier exactly if
  the call succeeds.
\<close>

theorem createOrder_accepts:
  "case a_decode A maxBodyBytes body of
     Inl e \<Rightarrow> (\<exists>m. createOrder A key body k = (writeError 400 m, k))
   | Inr req \<Rightarrow>
       (if ValidateIdempotencyKey key \<noteq> None \<or> Validate req \<noteq> None
        then \<exists>m. createOrder A key body k = (writeError 400 m, k)
        else let (u1, k1) = a_uuid A k; (u2, k2) = a_uuid A k1; (t, k3) = a_now A k2;
                 evt = NewEvent (a_sha1 A) u1 u2 t req key;
                 (r, k4) = a_publish A (OrderID evt) evt k3
               in createOrder A key body k =
                    (case r of
                       Inl e \<Rightarrow> (writeError 503 ''could not accept order, please retry'', k4)
                     | Inr pos \<Rightarrow> (writeJSON 202 (JObj [(''order_id'', JStr (OrderID evt)),
                                                       (''status'', JStr ''accepted'')]), k4)))"
proof (cases "a_decode A maxBodyBytes body")
  case (Inl e)
  then show ?thesis by (auto simp: createOrder_def split: option.splits)
next
  case (Inr req)
  show ?thesis
  proof (cases "ValidateIdempotencyKey key \<noteq> None \<or> Validate req \<noteq> None")
    case True
    with Inr show ?thesis by (cases "ValidateIdempotencyKey key"; cases "Validate req") (auto simp: createOrder_def)
  next
    case False
    obtain u1 k1 where u1: "a_uuid A k = (u1, k1)" by fastforce
    obtain u2 k2 where u2: "a_uuid A k1 = (u2, k2)" by fastforce
    obtain t k3 where t: "a_now A k2 = (t, k3)" by fastforce
    let ?evt = "NewEvent (a_sha1 A) u1 u2 t req key"
    obtain r k4 where r: "a_publish A (OrderID ?evt) ?evt k3 = (r, k4)" by fastforce
    have "createOrder A key body k =
        (case r of
           Inl e \<Rightarrow> (writeError 503 ''could not accept order, please retry'', k4)
         | Inr pos \<Rightarrow> (writeJSON 202 (JObj [(''order_id'', JStr (OrderID ?evt)),
                                           (''status'', JStr ''accepted'')]), k4))"
      using False Inr u1 u2 t r by (auto simp: createOrder_def Let_def split: sum.splits)
    with False Inr u1 u2 t r show ?thesis by (simp add: Let_def)
  qed
qed

definition sample_front :: "nat api" where
  "sample_front =
     \<lparr>a_decode = (\<lambda>_ _. Inr sample_request), a_sha1 = (\<lambda>_ n. n), a_uuid = (\<lambda>k. (''u'', k)),
      a_now = (\<lambda>k. (7, k)), a_publish = (\<lambda>_ _ k. (Inr (0, k), Suc k)), a_ping = (\<lambda>k. (None, k))\<rparr>"

lemma createOrder_accepts_witness:
  "\<exists>b. createOrder sample_front ''k1'' ''{}'' 3 = (writeJSON 202 b, 4)"
proof -
  have v: "Validate sample_request = None" "ValidateIdempotencyKey ''k1'' = None" by code_simp+
  show ?thesis
    using createOrder_accepts[where A = sample_front and body = "''{}''" and key = "''k1''" and k = 3] v
    by (auto simp: sample_front_def Let_def)
qed

text \<open>
  The page size on the wire is the one asked for, clamped: \<open>parsePageSize\<close> refuses exactly what
  is not a number of the 64-bit range or is negative; an absent one is 0; and what it returns is
  the number asked for or 500 if that is less, so the conversion to \<open>int32\<close> never wraps.
\<close>

theorem parsePageSize_bounds:
  "case parsePageSize raw of
     Inr v \<Rightarrow> 0 \<le> sint v \<and> sint v \<le> 500 \<and>
       (raw = '''' \<and> v = 0 \<or> (\<exists>n \<ge> 0. atoi raw = Some n \<and> sint v = min n 500))
   | Inl _ \<Rightarrow> raw \<noteq> '''' \<and> (case atoi raw of None \<Rightarrow> True | Some n \<Rightarrow> n < 0)"
proof -
  have "sint (of_int n :: i32) = n" if "0 \<le> n" "n \<le> 500" for n
    using that by (simp add: signed_of_int signed_take_bit_int_eq_self)
  then show ?thesis
    by (auto simp: parsePageSize_def api_maxPageSize_def split: option.splits)
qed

text \<open>
  Listing, from the query string to the table and back. Against a healthy database, \<open>GET /orders\<close>
  answers 400 exactly if the page size is refused or a page token is given that is no cursor of a
  readable order identifier; and otherwise 200 with at most 500 orders.
\<close>

theorem listOrders_status:
  assumes "reads_ok rd"
  shows "case listOrders f (server_ListOrders (ListOrders pg js rd T)) page_size token cust of resp \<Rightarrow>
    (Status resp = 400 \<and>
       ((\<exists>e. parsePageSize page_size = Inl e) \<or>
        token \<noteq> '''' \<and> (case decodeCursor js token of Inl e \<Rightarrow> True | Inr c \<Rightarrow> uuid_in pg (CurOrderID c) = None))) \<or>
    (Status resp = 200 \<and> \<not> (\<exists>e. parsePageSize page_size = Inl e) \<and>
       (token = '''' \<or> (\<exists>c j. decodeCursor js token = Inr c \<and> uuid_in pg (CurOrderID c) = Some j)) \<and>
       (\<exists>os next. length os \<le> 500 \<and> Body resp = JObj [(''orders'', JArr (map (orderJSON f) os)), (''next_page_token'', JStr next)]))"
proof (cases "parsePageSize page_size")
  case (Inl e)
  then show ?thesis by (simp add: listOrders_def writeError_def writeJSON_def)
next
  case (Inr n)
  let ?L = "ListOrders pg js rd T (sint n) token cust"
  have caller: "IsCallerError (Some e)" if "decodeCursor js token = Inl e" for e
    using decodeCursor_error[OF that] by (simp add: IsCallerError_def)
  have scan: "scan_rows rd rs = Inr rs" for rs by (rule scan_rows_ok[OF assms])
  have q: "query_err rd = None" "rows_err rd = None" using assms by (simp_all add: reads_ok_def)
  have len: "length (fst p) \<le> 500" if "?L = Inr p" for p
  proof -
    have "nat (clampPageSize (sint n)) \<le> 500" using clampPageSize_range[of "sint n"] by (simp add: maxPageSize_def nat_le_iff)
    then show ?thesis
      using that q by (auto simp: ListOrders_def Let_def scan split: sum.splits if_splits)
  qed
  show ?thesis
  proof (cases ?L)
    case (Inr p)
    obtain os nxt where p: "p = (os, nxt)" by fastforce
    have "token = '''' \<or> (\<exists>c j. decodeCursor js token = Inr c \<and> uuid_in pg (CurOrderID c) = Some j)"
      using Inr q by (auto simp: ListOrders_def Let_def run_query_def split: sum.splits if_splits option.splits)
    with len[OF Inr] Inr \<open>parsePageSize page_size = Inr n\<close> p show ?thesis
      by (auto simp: listOrders_def server_ListOrders_def writeJSON_def intro!: exI[of _ "map toProto os"])
  next
    case (Inl e)
    have "token \<noteq> '''' \<and> (case decodeCursor js token of Inl e \<Rightarrow> True | Inr c \<Rightarrow> uuid_in pg (CurOrderID c) = None) \<and>
        IsCallerError (Some e)"
      using Inl q caller
      by (auto simp: ListOrders_def Let_def run_query_def scan invalid_text_def err_simps
          split: sum.splits if_splits option.splits)
    with Inl \<open>parsePageSize page_size = Inr n\<close> show ?thesis
      by (simp add: listOrders_def server_ListOrders_def writeGRPCError_def writeError_def writeJSON_def)
  qed
qed

lemma listOrders_status_witness:
  "Status (listOrders (\<lambda>_. ''t'') (server_ListOrders (ListOrders sample_pg sample_js sample_rd [sample_row 0])) ''10'' '''' '''') = 200"
  using listOrders_status[OF sample_reads, of "\<lambda>_. ''t''" sample_pg sample_js "[sample_row 0]" "''10''" "''''" "''''"]
  by (simp add: parsePageSize_def atoi_def char_digit_def)
end
