(* ===== verification/Healthcheck.thy ===== *)
theory Healthcheck
  imports Go_Prelude
begin

text \<open>
  \<open>internal/healthcheck/healthcheck.go\<close>: a service probing itself. The HTTP client and the TCP
  dialer are the fields of \<open>net\<close>: building a request, performing it (status code and text),
  and dialling and closing a connection. \<^const>\<open>None\<close> of an error is success.
\<close>

record net =
  net_build :: "string \<Rightarrow> err option"
  net_get :: "string \<Rightarrow> (int \<times> string) res"
  net_dial :: "string \<Rightarrow> err option"
  net_close :: "string \<Rightarrow> err option"

definition is_flag :: "string \<Rightarrow> bool" where
  "is_flag name \<longleftrightarrow> name = ''-healthcheck'' \<or> name = ''--healthcheck''"

fun requestedTarget :: "string list \<Rightarrow> string \<times> bool" where
  "requestedTarget [] = ('''', False)"
| "requestedTarget (arg # rest) =
     (case cut CHR ''='' arg of (name, value, inline) \<Rightarrow>
        if \<not> is_flag name then requestedTarget rest
        else if inline then (value, True)
        else (case rest of a # _ \<Rightarrow> (a, True) | [] \<Rightarrow> ('''', True)))"

definition probeHTTP :: "net \<Rightarrow> string \<Rightarrow> err option" where
  "probeHTTP n url =
     (case net_build n url of
        Some e \<Rightarrow> Some (Wrapf ''build request: '' e '''')
      | None \<Rightarrow>
          (case net_get n url of
             Inl e \<Rightarrow> Some (Wrapf (''get '' @ url @ '': '') e '''')
           | Inr (code, text) \<Rightarrow>
               if code < 200 \<or> code > 299 then Some (OtherErr (url @ '' answered '' @ text)) else None))"

definition probeTCP :: "net \<Rightarrow> string \<Rightarrow> err option" where
  "probeTCP n address =
     (case net_dial n address of
        Some e \<Rightarrow> Some (Wrapf (''dial '' @ address @ '': '') e '''')
      | None \<Rightarrow> net_close n address)"

definition trim_prefix :: "string \<Rightarrow> string \<Rightarrow> string" where
  "trim_prefix s p = (if has_prefix s p then drop (length p) s else s)"

definition Probe :: "(string \<Rightarrow> string) \<Rightarrow> net \<Rightarrow> string \<Rightarrow> err option" where
  "Probe quote n target =
     (if has_prefix target ''http://'' \<or> has_prefix target ''https://'' then probeHTTP n target
      else if has_prefix target ''tcp://'' then probeTCP n (trim_prefix target ''tcp://'')
      else if target = '''' then Some (OtherErr ''no target given'')
      else Some (OtherErr (''unsupported target '' @ quote target @ '': want http:// or tcp://'')))"

text \<open>\<^const>\<open>None\<close>: the service starts; otherwise the exit status.\<close>

definition RunIfRequested :: "(string \<Rightarrow> string) \<Rightarrow> net \<Rightarrow> string list \<Rightarrow> nat option" where
  "RunIfRequested quote n args =
     (case requestedTarget args of
        (target, False) \<Rightarrow> None
      | (target, True) \<Rightarrow> (case Probe quote n target of Some e \<Rightarrow> Some 1 | None \<Rightarrow> Some 0))"

section \<open>Properties\<close>

lemma requestedTarget_asked:
  "snd (requestedTarget args) \<longleftrightarrow> (\<exists>a \<in> set args. is_flag (fst (cut CHR ''='' a)))"
  by (induction args) (auto split: prod.splits list.splits)

lemma has_prefix_append: "has_prefix s p \<longleftrightarrow> (\<exists>r. s = p @ r)"
  by (auto simp: has_prefix_def) (metis append_take_drop_id)

text \<open>
  The exit status is the contract Docker wants. A service started without the flag in any
  spelling starts; one started with it never does, and exits 0 exactly if the target is an HTTP
  URL that answers 2xx or a \<open>tcp://\<close> address that accepts a connection. In particular the flag
  without a target, or with a target of another kind, exits 1.
\<close>

theorem RunIfRequested_status:
  "RunIfRequested quote n args =
     (if \<exists>a \<in> set args. is_flag (fst (cut CHR ''='' a))
      then Some (if (\<exists>u. fst (requestedTarget args) = u \<and> (has_prefix u ''http://'' \<or> has_prefix u ''https://'') \<and>
                       net_build n u = None \<and> (\<exists>code text. net_get n u = Inr (code, text) \<and> 200 \<le> code \<and> code \<le> 299)) \<or>
                    (\<exists>a. fst (requestedTarget args) = ''tcp://'' @ a \<and> net_dial n a = None \<and> net_close n a = None)
                 then 0 else 1)
      else None)"
proof (cases "snd (requestedTarget args)")
  case False
  then show ?thesis
    by (cases "requestedTarget args") (simp add: RunIfRequested_def requestedTarget_asked[symmetric])
next
  case True
  obtain u where u: "requestedTarget args = (u, True)" using True by (metis prod.collapse)
  have asked: "\<exists>a \<in> set args. is_flag (fst (cut CHR ''='' a))" using True by (simp add: requestedTarget_asked)
  have "Probe quote n u = None \<longleftrightarrow>
      ((has_prefix u ''http://'' \<or> has_prefix u ''https://'') \<and>
         net_build n u = None \<and> (\<exists>code text. net_get n u = Inr (code, text) \<and> 200 \<le> code \<and> code \<le> 299)) \<or>
      (\<exists>a. u = ''tcp://'' @ a \<and> net_dial n a = None \<and> net_close n a = None)"
  proof (cases "has_prefix u ''http://'' \<or> has_prefix u ''https://''")
    case True
    then have "\<not> has_prefix u ''tcp://''" by (auto simp: has_prefix_append)
    then have "\<nexists>a. u = ''tcp://'' @ a" by (auto simp: has_prefix_append)
    with True show ?thesis by (auto simp: Probe_def probeHTTP_def split: option.splits sum.splits)
  next
    case False
    then show ?thesis
      by (auto simp: Probe_def probeTCP_def trim_prefix_def has_prefix_append split: option.splits)
  qed
  with u asked show ?thesis by (auto simp: RunIfRequested_def split: option.splits)
qed

end
