(* ===== verification/Console_Config.thy ===== *)
theory Console_Config
  imports Config Go_Float
begin

text \<open>
  \<open>cmd/console/config.go\<close>: the configuration of the console. The process environment is \<open>ge\<close>, as
  in \<open>Config\<close>, whose \<open>env\<close> and \<open>level\<close> the console repeats word for word. \<open>strconv.ParseFloat\<close> and
  \<open>time.ParseDuration\<close> are the fields \<open>parse_float\<close> and \<open>parse_duration\<close>, \<open>rand.Read\<close> of 32 bytes is
  \<open>rand_key\<close> and \<open>fmt\<close>'s \<open>%q\<close> is \<open>quoted\<close>.
\<close>

record platform =
  ge :: "string \<Rightarrow> string option"
  parse_float :: "string \<Rightarrow> f64 option"
  parse_duration :: "string \<Rightarrow> duration option"
  rand_key :: "bytes res"
  quoted :: "string \<Rightarrow> string"

record cconfig =
  Addr :: string
  PasswordHash :: bytes
  SessionKey :: bytes
  SessionKeyRandom :: bool
  SessionTTL :: duration
  SecureCookie :: bool
  PrometheusURL :: string
  ProjectDir :: string
  MaxLoadRate :: f64
  MaxLoadDuration :: duration
  TrustedProxy :: bool
  CLogLevel :: log_level

definition hex_val :: "char \<Rightarrow> nat option" where
  "hex_val c =
     (let n = of_char c :: nat in
      if 48 \<le> n \<and> n \<le> 57 then Some (n - 48)
      else if 97 \<le> n \<and> n \<le> 102 then Some (n - 87)
      else if 65 \<le> n \<and> n \<le> 70 then Some (n - 55)
      else None)"

fun hex_decode :: "string \<Rightarrow> bytes option" where
  "hex_decode [] = Some []"
| "hex_decode [c] = None"
| "hex_decode (a # b # rest) =
     (case (hex_val a, hex_val b) of
        (Some x, Some y) \<Rightarrow> map_option (\<lambda>bs. char_of (16 * x + y) # bs) (hex_decode rest)
      | _ \<Rightarrow> None)"

definition trim_right :: "char \<Rightarrow> string \<Rightarrow> string" where
  "trim_right c s = rev (dropWhile (\<lambda>x. x = c) (rev s))"

definition envFloat :: "platform \<Rightarrow> string \<Rightarrow> f64 \<Rightarrow> f64 res" where
  "envFloat P key fallback =
     (case ge P key of
        None \<Rightarrow> Inr fallback
      | Some raw \<Rightarrow>
          if raw = '''' then Inr fallback
          else case parse_float P raw of
                 None \<Rightarrow> Inl (OtherErr (key @ '' must be a number, got '' @ quoted P raw))
               | Some v \<Rightarrow> Inr v)"

definition envDuration :: "platform \<Rightarrow> string \<Rightarrow> duration \<Rightarrow> duration res" where
  "envDuration P key fallback =
     (case ge P key of
        None \<Rightarrow> Inr fallback
      | Some raw \<Rightarrow>
          if raw = '''' then Inr fallback
          else case parse_duration P raw of
                 None \<Rightarrow> Inl (OtherErr (key @ '' must be a duration like 30s, got '' @ quoted P raw))
               | Some v \<Rightarrow> Inr v)"

text \<open>The session key: the one configured, of at least 32 bytes of hex, or a random one.\<close>

definition session_key :: "platform \<Rightarrow> (bytes \<times> bool) res" where
  "session_key P =
     (let raw = env_var (ge P) ''CONSOLE_SESSION_KEY'' '''' in
      if raw \<noteq> '''' then
        (case hex_decode raw of
           None \<Rightarrow> Inl (OtherErr ''CONSOLE_SESSION_KEY must be at least 32 bytes of hex'')
         | Some key \<Rightarrow>
             if length key < 32 then Inl (OtherErr ''CONSOLE_SESSION_KEY must be at least 32 bytes of hex'')
             else Inr (key, False))
      else
        (case rand_key P of
           Inl e \<Rightarrow> Inl (Wrapf ''generate session key: '' e '''')
         | Inr key \<Rightarrow> Inr (key, True)))"

definition loadConfig :: "platform \<Rightarrow> cconfig res" where
  "loadConfig P =
     (let env = env_var (ge P);
          hash = env ''CONSOLE_PASSWORD_HASH'' '''' in
      if hash = '''' then
        Inl (OtherErr ''CONSOLE_PASSWORD_HASH is required; generate one with `go run ./cmd/console -hash`'')
      else
        (case session_key P of
           Inl e \<Rightarrow> Inl e
         | Inr (key, random) \<Rightarrow>
             (case envFloat P ''CONSOLE_MAX_LOAD_RATE'' (Fin 20000) of
                Inl e \<Rightarrow> Inl e
              | Inr rate \<Rightarrow>
                  (case envDuration P ''CONSOLE_MAX_LOAD_DURATION'' (60 * second) of
                     Inl e \<Rightarrow> Inl e
                   | Inr d \<Rightarrow>
                       if f64_le rate (Fin 0) then Inl (OtherErr ''CONSOLE_MAX_LOAD_RATE must be positive'')
                       else if d \<le> 0 then Inl (OtherErr ''CONSOLE_MAX_LOAD_DURATION must be positive'')
                       else Inr \<lparr>Addr = env ''CONSOLE_ADDR'' ''127.0.0.1:8081'',
                                 PasswordHash = hash, SessionKey = key, SessionKeyRandom = random,
                                 SessionTTL = 720 * minute,
                                 SecureCookie = (env ''CONSOLE_SECURE_COOKIE'' '''' = ''true''),
                                 PrometheusURL = trim_right CHR ''/'' (env ''PROMETHEUS_URL'' ''http://localhost:9091''),
                                 ProjectDir = env ''CONSOLE_PROJECT_DIR'' ''.'',
                                 MaxLoadRate = rate, MaxLoadDuration = d,
                                 TrustedProxy = (env ''CONSOLE_TRUSTED_PROXY'' '''' = ''true''),
                                 CLogLevel = log_level_of (env ''LOG_LEVEL'' ''info'')\<rparr>))))"

text \<open>
  The console does not start unprotected. If \<open>loadConfig\<close> succeeds, there is a password hash;
  the session key has at least 32 bytes, if \<open>rand.Read\<close> fills its buffer, and is a random one
  exactly if none is configured; the limit on the duration of a load run is positive; and the
  limit on its rate is not a number at or below zero.
\<close>

theorem loadConfig_protected:
  assumes "loadConfig P = Inr cfg" and "\<And>k. rand_key P = Inr k \<Longrightarrow> length k = 32"
  shows "PasswordHash cfg \<noteq> '''' \<and> 32 \<le> length (SessionKey cfg) \<and>
    (SessionKeyRandom cfg \<longleftrightarrow> ge P ''CONSOLE_SESSION_KEY'' \<in> {None, Some ''''}) \<and>
    0 < MaxLoadDuration cfg \<and> \<not> f64_le (MaxLoadRate cfg) (Fin 0)"
proof -
  from assms(1) obtain key random where k: "session_key P = Inr (key, random)"
    and c: "PasswordHash cfg \<noteq> ''''" "SessionKey cfg = key" "SessionKeyRandom cfg = random"
      "0 < MaxLoadDuration cfg" "\<not> f64_le (MaxLoadRate cfg) (Fin 0)"
    by (auto simp: loadConfig_def Let_def split: if_splits sum.splits)
  from k assms(2) have "32 \<le> length key \<and> (random \<longleftrightarrow> ge P ''CONSOLE_SESSION_KEY'' \<in> {None, Some ''''})"
    by (auto simp: session_key_def env_var_def Let_def split: if_splits sum.splits option.splits)
  with c show ?thesis by simp
qed

definition sample_platform :: platform where
  "sample_platform =
     \<lparr>ge = (\<lambda>k. if k = ''CONSOLE_PASSWORD_HASH'' then Some ''hash'' else None),
      parse_float = (\<lambda>s. if s = ''NaN'' then Some NaN else if s = ''+Inf'' then Some PosInf
                         else map_option (\<lambda>n. Fin (of_int n)) (atoi s)),
      parse_duration = (\<lambda>s. map_option (\<lambda>n. n * second) (atoi s)),
      rand_key = Inr (replicate 32 CHR ''k''), quoted = (\<lambda>s. s)\<rparr>"

lemma loadConfig_protected_witness:
  "\<exists>cfg. loadConfig sample_platform = Inr cfg \<and> 32 \<le> length (SessionKey cfg)"
proof -
  have "(case loadConfig sample_platform of Inl _ \<Rightarrow> False | Inr _ \<Rightarrow> True)" by code_simp
  then obtain cfg where l: "loadConfig sample_platform = Inr cfg" by (auto split: sum.splits)
  have "length k = 32" if "rand_key sample_platform = Inr k" for k
    using that by (auto simp: sample_platform_def)
  from loadConfig_protected[OF l this] l show ?thesis by blast
qed

definition sample_cconfig :: cconfig where
  "sample_cconfig =
     \<lparr>Addr = '':8081'', PasswordHash = ''right'', SessionKey = replicate 32 CHR ''k'', SessionKeyRandom = True,
      SessionTTL = 720 * minute, SecureCookie = False, PrometheusURL = '''', ProjectDir = ''.'',
      MaxLoadRate = Fin 20000, MaxLoadDuration = 60 * second, TrustedProxy = False, CLogLevel = LevelInfo\<rparr>"

end
