(* ===== verification/Console_Auth.thy ===== *)
theory Console_Auth
  imports Console_Config Base64 "HOL-Library.AList" "HOL-Library.Multiset"
begin

text \<open>
  \<open>cmd/console/auth.go\<close>: the login of the console, its throttle and its sessions. The table of
  failures is an association list, one entry per address; the code's map has no order, so the
  properties hold for every order of the entries. A method that holds the mutex is one
  function on the table. Times are passed in: \<open>t1\<close> is the clock at \<open>lockedFor\<close>, \<open>t2\<close> the clock at
  \<open>recordFailure\<close> or \<open>issue\<close>. HMAC-SHA256 is the parameter \<open>hmac\<close> and bcrypt's comparison \<open>bcrypt\<close>;
  the session cookie of a request is the value \<open>net/http\<close> read, if there was one, and \<open>hdr\<close> is
  \<open>Header.Get\<close>.
\<close>

definition sessionCookie :: string where "sessionCookie = ''console_session''"
definition failureTTL :: duration where "failureTTL = 15 * minute"
definition maxTrackedIPs :: nat where "maxTrackedIPs = 4096"

record failure =
  f_count :: nat
  f_until :: time
  f_seen :: time

type_synonym failures = "(string \<times> failure) list"

record request =
  RemoteAddr :: string
  hdr :: "string \<Rightarrow> string"
  has_tls :: bool
  cookie_value :: "string option"

record cookie =
  CookieName :: string
  CookieValue :: string
  CookiePath :: string
  CookieHttpOnly :: bool
  CookieSecure :: bool
  CookieMaxAge :: int

record httpError =
  err_status :: nat
  err_msg :: string

section \<open>Time\<close>

text \<open>\<open>Time.Sub\<close> saturates; \<open>Time.Unix\<close> counts seconds from 1970, 62135596800 seconds after the zero time.\<close>

definition time_sub :: "time \<Rightarrow> time \<Rightarrow> duration" where
  "time_sub a b = max (- (2 ^ 63)) (min (2 ^ 63 - 1) (a - b))"

definition Unix :: "time \<Rightarrow> int" where
  "Unix t = t div second - 62135596800"

text \<open>\<open>Duration.Round\<close> to seconds and \<open>Duration.String\<close> of a whole number of seconds, both for positive durations.\<close>

definition round_seconds :: "duration \<Rightarrow> duration" where
  "round_seconds d = (let r = d mod second in if r + r < second then d - r else d + second - r)"

definition seconds_string :: "duration \<Rightarrow> string" where
  "seconds_string d =
     (let s = d div second in
      if s < 60 then itoa s @ ''s''
      else if s < 3600 then itoa (s div 60) @ ''m'' @ itoa (s mod 60) @ ''s''
      else itoa (s div 3600) @ ''h'' @ itoa (s div 60 mod 60) @ ''m'' @ itoa (s mod 60) @ ''s'')"

section \<open>The throttle\<close>

definition lockedFor :: "failures \<Rightarrow> string \<Rightarrow> time \<Rightarrow> duration" where
  "lockedFor fs ip now =
     (case map_of fs ip of
        None \<Rightarrow> 0
      | Some f \<Rightarrow> (let d = time_sub (f_until f) now in if d > 0 then d else 0))"

definition sweep :: "failures \<Rightarrow> time \<Rightarrow> failures" where
  "sweep fs now =
     (let kept = filter (\<lambda>(ip, f). \<not> (time_sub now (f_seen f) > failureTTL \<and> now > f_until f)) fs in
      if length kept < maxTrackedIPs then kept
      else let target = maxTrackedIPs * 9 div 10;
               entries = sort_key (\<lambda>(ip, f). f_seen f) kept;
               gone = map fst (take (length entries - target) entries)
           in filter (\<lambda>(ip, f). ip \<notin> set gone) kept)"

definition lock_backoff :: "nat \<Rightarrow> duration" where
  "lock_backoff n = min (2 ^ min (n - 3) 6 * second) minute"

definition recordFailure :: "failures \<Rightarrow> string \<Rightarrow> time \<Rightarrow> failures" where
  "recordFailure fs ip now =
     (let fs = sweep fs now;
          f = (case map_of fs ip of Some f \<Rightarrow> f | None \<Rightarrow> \<lparr>f_count = 0, f_until = 0, f_seen = 0\<rparr>);
          f = f\<lparr>f_count := f_count f + 1, f_seen := now\<rparr>;
          f = (if f_count f < 3 then f else f\<lparr>f_until := now + lock_backoff (f_count f)\<rparr>)
      in AList.update ip f fs)"

definition clearFailures :: "failures \<Rightarrow> string \<Rightarrow> failures" where
  "clearFailures fs ip = AList.delete ip fs"

section \<open>The caller's address\<close>

text \<open>
  \<open>net.SplitHostPort\<close>, the host it returns: cut at the last colon, an address in brackets kept
  whole; none for a missing port, a second colon outside brackets or a stray bracket.
\<close>

definition last_colon :: "string \<Rightarrow> nat option" where
  "last_colon s =
     (let r = takeWhile (\<lambda>c. c \<noteq> CHR '':'') (rev s) in
      if length r < length s then Some (length s - 1 - length r) else None)"

definition split_host :: "string \<Rightarrow> string option" where
  "split_host s =
     (case last_colon s of
        None \<Rightarrow> None
      | Some i \<Rightarrow>
          if s \<noteq> [] \<and> hd s = CHR ''['' then
            (let e = length (takeWhile (\<lambda>c. c \<noteq> CHR '']'') s) in
             if e = length s \<or> e + 1 \<noteq> i then None
             else if CHR ''['' \<in> set (drop 1 s) \<or> CHR '']'' \<in> set (drop (e + 1) s) then None
             else Some (take (e - 1) (drop 1 s)))
          else
            (let host = take i s in
             if CHR '':'' \<in> set host then None
             else if CHR ''['' \<in> set s \<or> CHR '']'' \<in> set s then None
             else Some host))"

definition remote_host :: "request \<Rightarrow> string" where
  "remote_host r = (case split_host (RemoteAddr r) of None \<Rightarrow> RemoteAddr r | Some host \<Rightarrow> host)"

definition clientIP :: "cconfig \<Rightarrow> request \<Rightarrow> string" where
  "clientIP cfg r =
     (let xff = hdr r ''X-Forwarded-For''; ip = trim_space (fst (cut CHR '','' xff)) in
      if TrustedProxy cfg \<and> xff \<noteq> '''' \<and> ip \<noteq> '''' then ip else remote_host r)"

definition secure :: "cconfig \<Rightarrow> request \<Rightarrow> bool" where
  "secure cfg r \<longleftrightarrow>
     SecureCookie cfg \<or> (TrustedProxy cfg \<and> hdr r ''X-Forwarded-Proto'' = ''https'') \<or> has_tls r"

section \<open>Sessions\<close>

definition sign :: "(bytes \<Rightarrow> bytes \<Rightarrow> bytes) \<Rightarrow> cconfig \<Rightarrow> string \<Rightarrow> bytes" where
  "sign hmac cfg payload = hmac (SessionKey cfg) payload"

definition issue :: "(bytes \<Rightarrow> bytes \<Rightarrow> bytes) \<Rightarrow> cconfig \<Rightarrow> time \<Rightarrow> string" where
  "issue hmac cfg expiry =
     (let payload = itoa (Unix expiry) in payload @ ''.'' @ b64_encode (sign hmac cfg payload))"

definition valid :: "(bytes \<Rightarrow> bytes \<Rightarrow> bytes) \<Rightarrow> cconfig \<Rightarrow> request \<Rightarrow> time \<Rightarrow> bool" where
  "valid hmac cfg r now =
     (case cookie_value r of
        None \<Rightarrow> False
      | Some value \<Rightarrow>
         (case cut CHR ''.'' value of (payload, sig, ok) \<Rightarrow>
            if \<not> ok then False
            else case b64_decode sig of
                   None \<Rightarrow> False
                 | Some want \<Rightarrow>
                     if want \<noteq> sign hmac cfg payload then False
                     else case atoi payload of None \<Rightarrow> False | Some expiry \<Rightarrow> Unix now < expiry))"

definition session_cookie :: "cconfig \<Rightarrow> request \<Rightarrow> string \<Rightarrow> int \<Rightarrow> cookie" where
  "session_cookie cfg r v age =
     \<lparr>CookieName = sessionCookie, CookieValue = v, CookiePath = ''/'', CookieHttpOnly = True,
      CookieSecure = secure cfg r, CookieMaxAge = age\<rparr>"

section \<open>Login and logout\<close>

definition login ::
  "(bytes \<Rightarrow> bytes \<Rightarrow> bytes) \<Rightarrow> (bytes \<Rightarrow> bytes \<Rightarrow> bool) \<Rightarrow> cconfig \<Rightarrow> request \<Rightarrow> string \<Rightarrow>
   time \<Rightarrow> time \<Rightarrow> failures \<Rightarrow> (httpError + cookie) \<times> failures" where
  "login hmac bcrypt cfg r password t1 t2 fs =
     (let ip = clientIP cfg r; wait = lockedFor fs ip t1 in
      if wait > 0 then
        (Inl \<lparr>err_status = 429, err_msg = ''too many attempts, try again in '' @
                seconds_string (round_seconds wait)\<rparr>, fs)
      else if \<not> bcrypt (PasswordHash cfg) password then
        (Inl \<lparr>err_status = 401, err_msg = ''wrong password''\<rparr>, recordFailure fs ip t2)
      else
        (Inr (session_cookie cfg r (issue hmac cfg (t2 + SessionTTL cfg)) (trunc_f64 (Seconds (SessionTTL cfg)))),
         clearFailures fs ip))"

definition logout :: "cconfig \<Rightarrow> request \<Rightarrow> cookie" where
  "logout cfg r = session_cookie cfg r '''' (-1)"

text \<open>\<open>require\<close>: \<open>Inl\<close> is the refusal with status 401, \<open>Inr\<close> what the wrapped handler answers.\<close>

definition require ::
  "(bytes \<Rightarrow> bytes \<Rightarrow> bytes) \<Rightarrow> cconfig \<Rightarrow> (request \<Rightarrow> 'a) \<Rightarrow> request \<Rightarrow> time \<Rightarrow> httpError + 'a" where
  "require hmac cfg handler r now =
     (if valid hmac cfg r now then Inr (handler r)
      else Inl \<lparr>err_status = 401, err_msg = ''not logged in''\<rparr>)"


section \<open>The throttle, step by step\<close>

type_synonym attempt = "request \<times> string \<times> time \<times> time"

text \<open>A sequence of attempts, in the order in which they take the mutex.\<close>

fun login_all ::
  "(bytes \<Rightarrow> bytes \<Rightarrow> bytes) \<Rightarrow> (bytes \<Rightarrow> bytes \<Rightarrow> bool) \<Rightarrow> cconfig \<Rightarrow> attempt list \<Rightarrow> failures \<Rightarrow>
   (httpError + cookie) list \<times> failures" where
  "login_all hmac bcrypt cfg [] fs = ([], fs)"
| "login_all hmac bcrypt cfg ((r, pw, t1, t2) # as) fs =
     (let (a, fs1) = login hmac bcrypt cfg r pw t1 t2 fs; (rest, fs2) = login_all hmac bcrypt cfg as fs1
      in (a # rest, fs2))"

definition failure_ok :: "time \<Rightarrow> failure \<Rightarrow> bool" where
  "failure_ok now f \<longleftrightarrow> 1 \<le> f_count f \<and> f_seen f \<le> now \<and>
     f_until f = (if f_count f < 3 then 0 else f_seen f + lock_backoff (f_count f))"

definition throttle_ok :: "time \<Rightarrow> failures \<Rightarrow> bool" where
  "throttle_ok now fs \<longleftrightarrow> distinct (map fst fs) \<and> length fs \<le> maxTrackedIPs \<and>
     (\<forall>(ip, f) \<in> set fs. failure_ok now f)"

lemma time_sub_gt: "0 \<le> c \<Longrightarrow> c < 2 ^ 63 - 1 \<Longrightarrow> time_sub a b > c \<longleftrightarrow> a - b > c"
  by (auto simp: time_sub_def)

lemma lockedFor_pos:
  "lockedFor fs ip now > 0 \<longleftrightarrow> (\<exists>f. map_of fs ip = Some f \<and> now < f_until f)"
  using time_sub_gt[of 0] by (auto simp: lockedFor_def Let_def split: option.splits)

lemma lock_backoff_range: "second \<le> lock_backoff c \<and> lock_backoff c \<le> minute"
  by (simp add: lock_backoff_def)

lemma lockedFor_le:
  assumes "throttle_ok now fs" and "now \<le> t" and "0 \<le> t"
  shows "lockedFor fs ip t \<le> minute"
proof (cases "map_of fs ip")
  case (Some f)
  then have "failure_ok now f" using assms(1) by (auto simp: throttle_ok_def dest: map_of_SomeD)
  then have "f_until f \<le> t + minute \<or> f_until f = 0"
    using assms(2) lock_backoff_range[of "f_count f"] by (auto simp: failure_ok_def)
  with Some assms(3) show ?thesis
    by (auto simp: lockedFor_def Let_def time_sub_def)
qed (simp add: lockedFor_def)

lemma sweep_below: "distinct (map fst fs) \<Longrightarrow> length (sweep fs now) < maxTrackedIPs"
proof -
  assume d: "distinct (map fst fs)"
  define kept where "kept = filter (\<lambda>(ip, f). \<not> (time_sub now (f_seen f) > failureTTL \<and> now > f_until f)) fs"
  define entries where "entries = sort_key (\<lambda>(ip :: string, f). f_seen f) kept"
  define n where "n = length entries - maxTrackedIPs * 9 div 10"
  let ?out = "\<lambda>(ip, f :: failure). ip \<notin> set (map fst (take n entries))"
  have ms: "mset entries = mset kept" by (simp add: entries_def)
  have "distinct (map fst kept)" using d by (simp add: kept_def distinct_map_filter)
  then have de: "distinct (map fst entries)" using ms by (metis mset_eq_imp_distinct_iff mset_map)
  then have "distinct (map fst (take n entries) @ map fst (drop n entries))"
    by (metis append_take_drop_id map_append)
  then have "filter ?out (take n entries) = []" "filter ?out (drop n entries) = drop n entries"
    by (auto simp: filter_empty_conv filter_id_conv) (force dest: in_set_takeD)+
  then have "filter ?out entries = drop n entries"
    by (metis append_Nil append_take_drop_id filter_append)
  then have "length (filter ?out kept) = length entries - n" by (metis length_drop ms mset_filter size_mset)
  moreover have "length entries - n \<le> maxTrackedIPs * 9 div 10" by (simp add: n_def)
  ultimately have "length (filter ?out kept) < maxTrackedIPs" by (simp add: maxTrackedIPs_def)
  then show ?thesis
    unfolding sweep_def Let_def kept_def[symmetric] entries_def[symmetric] n_def[symmetric] by simp
qed

lemma sweep_subset: "set (sweep fs now) \<subseteq> set fs"
  by (auto simp: sweep_def Let_def)

lemma sweep_distinct: "distinct (map fst fs) \<Longrightarrow> distinct (map fst (sweep fs now))"
  by (simp add: sweep_def Let_def distinct_map_filter)

lemma length_update_le: "length (AList.update k v xs) \<le> Suc (length xs)"
  by (induction xs) auto

lemma length_delete_le: "length (AList.delete k xs) \<le> length xs"
  by (simp add: AList.delete_eq)

lemma set_delete_sub: "x \<in> set (AList.delete k xs) \<Longrightarrow> x \<in> set xs"
  by (simp add: AList.delete_eq)

lemma failure_ok_mono: "failure_ok t f \<Longrightarrow> t \<le> t' \<Longrightarrow> failure_ok t' f"
  by (auto simp: failure_ok_def)

lemma set_update_sub: "x \<in> set (AList.update k v xs) \<Longrightarrow> x = (k, v) \<or> x \<in> set xs"
  by (induction xs) (auto split: if_splits)

lemma recordFailure_ok:
  assumes "throttle_ok now fs" and "now \<le> t"
  shows "throttle_ok t (recordFailure fs ip t)"
proof -
  have s: "\<forall>(ip, f) \<in> set (sweep fs t). failure_ok t f"
    using assms sweep_subset[of fs t] failure_ok_mono by (fastforce simp: throttle_ok_def)
  have d: "distinct (map fst fs)" using assms(1) by (simp add: throttle_ok_def)
  define f where "f = (case map_of (sweep fs t) ip of Some f \<Rightarrow> f | None \<Rightarrow> \<lparr>f_count = 0, f_until = 0, f_seen = 0\<rparr>)"
  have "f_count f < 3 \<longrightarrow> f_until f = 0"
    using s by (auto simp: f_def failure_ok_def split: option.splits dest!: map_of_SomeD)
  then have new: "failure_ok t (let g = f\<lparr>f_count := f_count f + 1, f_seen := t\<rparr> in
      if f_count g < 3 then g else g\<lparr>f_until := t + lock_backoff (f_count g)\<rparr>)"
    by (auto simp: failure_ok_def Let_def)
  show ?thesis
    unfolding throttle_ok_def recordFailure_def Let_def f_def[symmetric]
    using sweep_below[OF d, of t] sweep_distinct[OF d, of t] length_update_le s new
    by (auto simp: Let_def distinct_update Suc_le_eq intro: le_less_trans dest!: set_update_sub
        split: if_splits intro!: order_trans[OF length_update_le])
qed

lemma clearFailures_ok: "throttle_ok now fs \<Longrightarrow> now \<le> t \<Longrightarrow> throttle_ok t (clearFailures fs ip)"
  using failure_ok_mono[of now] length_delete_le[of ip fs]
  by (auto simp: throttle_ok_def clearFailures_def distinct_delete) (blast dest: set_delete_sub)

lemma throttle_ok_mono: "throttle_ok now fs \<Longrightarrow> now \<le> t \<Longrightarrow> throttle_ok t fs"
  using failure_ok_mono[of now] by (fastforce simp: throttle_ok_def)

lemma login_ok:
  assumes "throttle_ok now fs" and "now \<le> t2"
  shows "throttle_ok t2 (snd (login hmac bcrypt cfg r pw t1 t2 fs))"
  using recordFailure_ok[OF assms] clearFailures_ok[OF assms] throttle_ok_mono[OF assms]
  by (simp add: login_def Let_def)

definition in_order :: "attempt list \<Rightarrow> bool" where
  "in_order as \<longleftrightarrow> sorted (map (\<lambda>(r, pw, t1, t2). t2) as)"

lemma login_all_ok:
  "\<lbrakk>throttle_ok now fs; sorted (now # map (\<lambda>(r, pw, t1, t2). t2) as)\<rbrakk> \<Longrightarrow>
   \<exists>t. t \<in> set (now # map (\<lambda>(r, pw, t1, t2). t2) as) \<and> throttle_ok t (snd (login_all hmac bcrypt cfg as fs))"
proof (induction as arbitrary: now fs)
  case (Cons a as)
  obtain r pw t1 t2 where a: "a = (r, pw, t1, t2)" by (cases a)
  have "throttle_ok t2 (snd (login hmac bcrypt cfg r pw t1 t2 fs))"
    using Cons.prems by (intro login_ok) (auto simp: a)
  from Cons.IH[OF this] Cons.prems show ?case
    by (auto simp: a Let_def split: prod.splits)
qed auto

text \<open>
  C22. The failure table stays small and honest. After any sequence of logins, taken in the order
  of their clock readings, it has at most 4096 entries, one per address; an address has an
  entry only after a failure and is locked only after at least three; and no address is ever
  told to wait longer than a minute.
\<close>

theorem failure_table_bounded:
  assumes "in_order as" and "\<forall>(r, pw, t1, t2) \<in> set as. 0 \<le> t1 \<and> 0 \<le> t2 \<and> t2 \<le> now" and "0 \<le> now"
    and "login_all hmac bcrypt cfg as [] = (answers, fs)"
  shows "length fs \<le> 4096 \<and> distinct (map fst fs) \<and>
    (\<forall>ip f. map_of fs ip = Some f \<longrightarrow> 1 \<le> f_count f \<and> (now < f_until f \<longrightarrow> 3 \<le> f_count f)) \<and>
    lockedFor fs ip now \<le> minute"
proof -
  have "throttle_ok 0 []" by (simp add: throttle_ok_def)
  moreover have "sorted (0 # map (\<lambda>(r, pw, t1, t2). t2) as)" using assms(1,2) by (auto simp: in_order_def)
  ultimately obtain t where t: "t \<in> set (0 # map (\<lambda>(r, pw, t1, t2). t2) as)" "throttle_ok t fs"
    using login_all_ok[of 0 "[]" as hmac bcrypt cfg] assms(4) by (metis snd_conv)
  from t(1) assms(2,3) have "t \<le> now" by fastforce
  then have k: "throttle_ok now fs" by (rule throttle_ok_mono[OF t(2)])
  then have "failure_ok now f" if "map_of fs ip = Some f" for ip f
    using that by (auto simp: throttle_ok_def dest!: map_of_SomeD)
  then have "1 \<le> f_count f \<and> (now < f_until f \<longrightarrow> 3 \<le> f_count f)" if "map_of fs ip = Some f" for ip f
    using that assms(3) by (auto simp: failure_ok_def split: if_splits)
  moreover have "length fs \<le> 4096" "distinct (map fst fs)"
    using k by (simp_all add: throttle_ok_def maxTrackedIPs_def)
  ultimately show ?thesis using lockedFor_le[OF k] assms(3) by blast
qed

text \<open>
  What a login attempt does. From an address that is locked it is refused with status 429,
  whatever the password: bcrypt is not asked and the table does not change. Otherwise a wrong
  password is refused with 401 and counted, and from the third failure on locks the address for
  1, 2, 4, 8, 16, 32 and then 60 seconds; a right one is answered with a session cookie and
  clears the address, which is then not locked.
\<close>

theorem login_outcome:
  assumes "throttle_ok now fs" and "now \<le> t2"
  shows "case login hmac bcrypt cfg r pw t1 t2 fs of (answer, fs') \<Rightarrow>
    (if lockedFor fs (clientIP cfg r) t1 > 0
     then fs' = fs \<and> (\<forall>bcrypt' pw'. login hmac bcrypt' cfg r pw' t1 t2 fs = (answer, fs)) \<and>
          (\<exists>e. answer = Inl e \<and> err_status e = 429)
     else if bcrypt (PasswordHash cfg) pw
     then (\<exists>c. answer = Inr c \<and> CookieValue c = issue hmac cfg (t2 + SessionTTL cfg) \<and> CookieHttpOnly c) \<and>
          map_of fs' (clientIP cfg r) = None \<and> (\<forall>t. lockedFor fs' (clientIP cfg r) t = 0)
     else (\<exists>e. answer = Inl e \<and> err_status e = 401) \<and>
          (\<exists>f. map_of fs' (clientIP cfg r) = Some f \<and> 1 \<le> f_count f \<and> f_seen f = t2 \<and>
               (3 \<le> f_count f \<longrightarrow> f_until f = t2 + [1, 2, 4, 8, 16, 32, 60] ! min (f_count f - 3) 6 * second) \<and>
               f_count f = 1 + (case map_of (sweep fs t2) (clientIP cfg r) of None \<Rightarrow> 0 | Some g \<Rightarrow> f_count g)))"
proof -
  have lock: "lock_backoff c = [1, 2, 4, 8, 16, 32, 60] ! min (c - 3) 6 * second" for c
  proof -
    have "min (c - 3) 6 \<in> {0, 1, 2, 3, 4, 5, 6}" by auto
    then show ?thesis by (auto simp: lock_backoff_def)
  qed
  have "map_of (AList.delete ip fs) ip = None" for ip by (simp add: delete_conv')
  then show ?thesis
    by (auto simp: login_def Let_def session_cookie_def clearFailures_def lockedFor_def[of "AList.delete _ _"]
        recordFailure_def update_conv' lock split: option.splits)
qed


text \<open>An attempt from elsewhere leaves a locked address locked while the table has room.\<close>

lemma sweep_keeps:
  assumes "length fs < maxTrackedIPs" and "map_of fs ip = Some f" and "now \<le> f_until f"
    and "distinct (map fst fs)"
  shows "map_of (sweep fs now) ip = Some f" "length (sweep fs now) \<le> length fs"
proof -
  let ?kept = "filter (\<lambda>(ip, f). \<not> (time_sub now (f_seen f) > failureTTL \<and> now > f_until f)) fs"
  have "length ?kept < maxTrackedIPs" using length_filter_le assms(1) by (rule le_less_trans)
  then have s: "sweep fs now = ?kept" unfolding sweep_def Let_def by (rule if_P)
  then show "length (sweep fs now) \<le> length fs" by simp
  have "(ip, f) \<in> set ?kept" using assms(2,3) by (auto dest!: map_of_SomeD)
  then show "map_of (sweep fs now) ip = Some f"
    using sweep_distinct[OF assms(4), of now] by (simp add: s)
qed

lemma other_login_keeps_lock:
  assumes "length fs < maxTrackedIPs" and "distinct (map fst fs)"
    and "map_of fs ip = Some f" and "t2 \<le> f_until f" and "clientIP cfg r \<noteq> ip"
  shows "map_of (snd (login hmac bcrypt cfg r pw t1 t2 fs)) ip = Some f \<and>
    length (snd (login hmac bcrypt cfg r pw t1 t2 fs)) \<le> Suc (length fs) \<and>
    distinct (map fst (snd (login hmac bcrypt cfg r pw t1 t2 fs)))"
  using sweep_keeps[OF assms(1,3,4,2)] assms(2,3,5) sweep_distinct[OF assms(2), of t2]
    length_delete_le[of "clientIP cfg r" fs] order_trans[OF length_update_le, of "sweep fs t2" "Suc (length fs)"]
  by (simp add: login_def Let_def recordFailure_def clearFailures_def update_conv' delete_conv'
      distinct_update distinct_delete del: map_of_eq_Some_iff)



section \<open>Sessions and addresses\<close>

lemma nat_digits_no_dot: "CHR ''.'' \<notin> set (nat_digits n)"
proof (induction n rule: nat_digits.induct)
  case (1 n)
  have d: "digit_char d \<noteq> CHR ''.''" if "d < 10" for d
    using char_digit_digit_char[OF that] by (auto simp: char_digit_def Let_def)
  show ?case using 1 d[of n] d[of "n mod 10"] by (subst nat_digits.simps) auto
qed

lemma itoa_no_dot: "CHR ''.'' \<notin> set (itoa n)"
  using nat_digits_no_dot by (auto simp: itoa_def)

lemma valid_iff:
  "valid hmac cfg r now \<longleftrightarrow>
     (\<exists>payload sig e. cookie_value r = Some (payload @ CHR ''.'' # sig) \<and> CHR ''.'' \<notin> set payload \<and>
        b64_decode sig = Some (sign hmac cfg payload) \<and> atoi payload = Some e \<and> Unix now < e)"
  (is "_ \<longleftrightarrow> ?R")
proof
  assume v: "valid hmac cfg r now"
  then obtain val where c: "cookie_value r = Some val" by (auto simp: valid_def split: option.splits)
  obtain payload sig ok where k: "cut CHR ''.'' val = (payload, sig, ok)" by (cases "cut CHR ''.'' val")
  from v c k have "ok" by (auto simp: valid_def split: if_splits)
  with cut_found[OF k] have "val = payload @ CHR ''.'' # sig" "CHR ''.'' \<notin> set payload" by auto
  with v c k show ?R by (fastforce simp: valid_def split: if_splits option.splits)
next
  assume ?R then show "valid hmac cfg r now" by (auto simp: valid_def cut_append)
qed

lemma valid_issued:
  assumes "- (2 ^ 63) \<le> Unix e" and "Unix e < 2 ^ 63" and "cookie_value r = Some (issue hmac cfg e)"
  shows "valid hmac cfg r now \<longleftrightarrow> Unix now < Unix e"
  using assms atoi_itoa[OF assms(1,2)] itoa_no_dot[of "Unix e"]
  by (simp add: valid_def issue_def Let_def cut_append b64_round_trip)

text \<open>
  C23. Sessions. The cookie that a successful login sets lets a request pass \<open>require\<close> exactly until
  the session's lifetime is over, and a handler behind \<open>require\<close> runs only for a cookie whose
  expiry, still in the future, carries the MAC of that expiry under the session key: an expiry
  that was not signed is not believed.
\<close>

theorem session_round_trip:
  assumes "login hmac bcrypt cfg r0 pw t1 t2 fs = (Inr c, fs')"
    and "- (2 ^ 63) \<le> Unix (t2 + SessionTTL cfg)" and "Unix (t2 + SessionTTL cfg) < 2 ^ 63"
    and "cookie_value r = Some (CookieValue c)"
  shows "require hmac cfg handler r now =
      (if Unix now < Unix (t2 + SessionTTL cfg) then Inr (handler r)
       else Inl \<lparr>err_status = 401, err_msg = ''not logged in''\<rparr>) \<and>
    (\<forall>q t. (\<exists>x. require hmac cfg handler q t = Inr x) \<longrightarrow>
       (\<exists>payload sig e. cookie_value q = Some (payload @ CHR ''.'' # sig) \<and>
          b64_decode sig = Some (hmac (SessionKey cfg) payload) \<and> atoi payload = Some e \<and> Unix t < e))"
proof -
  have "CookieValue c = issue hmac cfg (t2 + SessionTTL cfg)"
    using assms(1) by (auto simp: login_def Let_def session_cookie_def split: if_splits)
  with assms(4) have "cookie_value r = Some (issue hmac cfg (t2 + SessionTTL cfg))" by simp
  from valid_issued[OF assms(2,3) this] show ?thesis
    by (auto simp: require_def valid_iff sign_def split: if_splits)
qed

text \<open>
  C39. Which address is throttled. With no proxy configured the key of the throttle is the host of
  the connection, whatever the headers say. Behind a proxy it is the first entry of
  \<open>X-Forwarded-For\<close>, so a client whose proxy appends to the header it was sent chooses the key
  itself, and by choosing a new one each time is never refused for too many attempts.
\<close>

theorem forwarded_key_is_chosen:
  "(\<not> TrustedProxy cfg \<longrightarrow> clientIP cfg (r\<lparr>hdr := h\<rparr>) = clientIP cfg r) \<and>
   (TrustedProxy cfg \<and> key \<noteq> '''' \<and> CHR '','' \<notin> set key \<and> trim_space key = key \<and>
    h ''X-Forwarded-For'' = key @ '','' @ added \<and> map_of fs key = None \<longrightarrow>
      clientIP cfg (r\<lparr>hdr := h\<rparr>) = key \<and>
      (\<forall>pw t1 t2. case fst (login hmac bcrypt cfg (r\<lparr>hdr := h\<rparr>) pw t1 t2 fs) of
         Inl e \<Rightarrow> err_status e = 401 \<and> \<not> bcrypt (PasswordHash cfg) pw | Inr c \<Rightarrow> bcrypt (PasswordHash cfg) pw))"
  by (auto simp: clientIP_def remote_host_def Let_def cut_append login_def lockedFor_def split: option.split)

section \<open>Examples\<close>

definition sample_visitor :: request where
  "sample_visitor = \<lparr>RemoteAddr = ''10.0.0.1:5000'', hdr = (\<lambda>_. ''''), has_tls = False, cookie_value = None\<rparr>"

definition sample_hmac :: "bytes \<Rightarrow> bytes \<Rightarrow> bytes" where "sample_hmac key payload = key @ payload"
definition sample_bcrypt :: "bytes \<Rightarrow> bytes \<Rightarrow> bool" where "sample_bcrypt h pw \<longleftrightarrow> h = pw"

lemma sample_ip: "clientIP sample_cconfig sample_visitor = ''10.0.0.1''"
  by (simp add: clientIP_def sample_cconfig_def sample_visitor_def remote_host_def split_host_def
      last_colon_def Let_def)

lemma failure_table_bounded_witness:
  "length (snd (login_all sample_hmac sample_bcrypt sample_cconfig
     [(sample_visitor, ''wrong'', second, second), (sample_visitor, ''right'', 2 * second, 2 * second)] [])) \<le> 4096"
  (is "length (snd (login_all _ _ _ ?as [])) \<le> _")
proof -
  have "in_order ?as" by (simp add: in_order_def)
  moreover have "\<forall>(r, pw, t1, t2) \<in> set ?as. 0 \<le> t1 \<and> 0 \<le> t2 \<and> t2 \<le> 3 * second" by simp
  ultimately show ?thesis using failure_table_bounded[OF _ _ _ prod.collapse[symmetric]] by fastforce
qed

lemma login_outcome_witness:
  "\<exists>e fs'. login sample_hmac sample_bcrypt sample_cconfig sample_visitor ''wrong'' 5 5 [] = (Inl e, fs') \<and> err_status e = 401"
  using login_outcome[where now = 5 and fs = "[]" and ?t1.0 = 5 and ?t2.0 = 5 and hmac = sample_hmac and bcrypt = sample_bcrypt and
      cfg = sample_cconfig and r = sample_visitor and pw = "''wrong''"]
  by (auto simp: throttle_ok_def lockedFor_def sample_bcrypt_def sample_cconfig_def split: prod.splits)


lemma session_round_trip_witness:
  "\<exists>c fs'. login sample_hmac sample_bcrypt sample_cconfig sample_visitor ''right'' 5 5 [] = (Inr c, fs') \<and>
     require sample_hmac sample_cconfig (\<lambda>_. True) (sample_visitor\<lparr>cookie_value := Some (CookieValue c)\<rparr>) 5 = Inr True"
proof -
  have t: "SessionTTL sample_cconfig = 720 * minute" by (simp add: sample_cconfig_def)
  obtain c fs' where l: "login sample_hmac sample_bcrypt sample_cconfig sample_visitor ''right'' 5 5 [] = (Inr c, fs')"
    by (auto simp: login_def Let_def lockedFor_def sample_bcrypt_def sample_cconfig_def)
  from session_round_trip[OF l, of "sample_visitor\<lparr>cookie_value := Some (CookieValue c)\<rparr>" "\<lambda>_. True" 5] l
  show ?thesis by (auto simp: t Unix_def)
qed

lemma forwarded_key_is_chosen_witness:
  "clientIP (sample_cconfig\<lparr>TrustedProxy := True\<rparr>) (sample_visitor\<lparr>hdr := (\<lambda>_. ''a,10.0.0.1'')\<rparr>) = ''a''"
  using forwarded_key_is_chosen[where cfg = "sample_cconfig\<lparr>TrustedProxy := True\<rparr>" and r = sample_visitor and
      h = "\<lambda>_. ''a,10.0.0.1''" and key = "''a''" and added = "''10.0.0.1''" and fs = "[]"]
  by (simp add: trim_space_def trim_front.simps Let_def space_encodings_def has_prefix_def char_of_def)

end
