(* ===== verification/Console_Action.thy ===== *)
theory Console_Action
  imports Console_Config "HOL-Library.Multiset" "HOL-Library.Product_Lexorder"
begin

text \<open>
  \<open>cmd/console/action.go\<close>: the allowlist of commands and the validation of their parameters.
  \<open>strconv.ParseFloat\<close>, \<open>FormatFloat\<close> with format \<open>'f'\<close> and \<open>fmt\<close>'s \<open>%g\<close> are the fields of \<open>numfmt\<close>; a
  Go map that is indexed for a missing key yields the zero value. The order in which a map is
  ranged over is the order of a list that the caller passes.
\<close>

record numfmt =
  nf_parse :: "string \<Rightarrow> f64 option"
  nf_f :: "f64 \<Rightarrow> string"
  nf_g :: "f64 \<Rightarrow> string"

datatype paramKind = paramNumber | paramChoice

record param =
  PName :: string
  PLabel :: string
  PKind :: paramKind
  PDefault :: string
  PChoices :: "string list"
  PMin :: f64
  PMax :: f64
  PUnit :: string

record vals =
  numbers :: "string \<rightharpoonup> f64"
  choices :: "string \<rightharpoonup> string"

definition num :: "vals \<Rightarrow> string \<Rightarrow> f64" where
  "num v name = (case numbers v name of Some n \<Rightarrow> n | None \<Rightarrow> Fin 0)"

definition str :: "vals \<Rightarrow> string \<Rightarrow> string" where
  "str v name = (case choices v name of Some s \<Rightarrow> s | None \<Rightarrow> '''')"

record action =
  ID :: string
  Label :: string
  Group :: string
  Summary :: string
  Destructive :: bool
  Timeout :: duration
  Params :: "param list"
  Report :: string
  Env :: "string list"
  argv :: "vals \<Rightarrow> cconfig \<Rightarrow> string list"

section \<open>Validation\<close>

fun contains :: "string list \<Rightarrow> string \<Rightarrow> bool" where
  "contains [] needle = False"
| "contains (s # rest) needle = (if s = needle then True else contains rest needle)"

definition unitSuffix :: "string \<Rightarrow> string" where
  "unitSuffix u = (if u = '''' then '''' else '' '' @ u)"

definition ceiling_of :: "action \<Rightarrow> param \<Rightarrow> cconfig \<Rightarrow> f64" where
  "ceiling_of a p cfg =
     (if ID a = ''load.send'' then
        (if PName p = ''rate'' then f64_min (PMax p) (MaxLoadRate cfg)
         else if PName p = ''duration'' then f64_min (PMax p) (Seconds (MaxLoadDuration cfg))
         else PMax p)
      else PMax p)"

definition validate_param :: "numfmt \<Rightarrow> action \<Rightarrow> (string \<rightharpoonup> string) \<Rightarrow> cconfig \<Rightarrow> param \<Rightarrow> vals \<Rightarrow> vals res" where
  "validate_param nf a raw cfg p out =
     (let got = (case raw (PName p) of None \<Rightarrow> PDefault p | Some s \<Rightarrow> if s = '''' then PDefault p else s) in
      case PKind p of
        paramNumber \<Rightarrow>
          (case nf_parse nf got of
             None \<Rightarrow> Inl (OtherErr (PLabel p @ '' must be a number''))
           | Some n \<Rightarrow>
               if \<not> is_finite n then Inl (OtherErr (PLabel p @ '' must be a finite number''))
               else let max = ceiling_of a p cfg in
                 if f64_less n (PMin p) \<or> f64_less max n
                 then Inl (OtherErr (PLabel p @ '' must be between '' @ nf_g nf (PMin p) @ '' and '' @
                        nf_g nf max @ unitSuffix (PUnit p)))
                 else Inr (out\<lparr>numbers := (numbers out)(PName p \<mapsto> n)\<rparr>))
      | paramChoice \<Rightarrow>
          if \<not> contains (PChoices p) got
          then Inl (OtherErr (PLabel p @ '' must be one of ['' @ join '' '' (PChoices p) @ '']''))
          else Inr (out\<lparr>choices := (choices out)(PName p \<mapsto> got)\<rparr>))"

fun validate_params :: "numfmt \<Rightarrow> action \<Rightarrow> (string \<rightharpoonup> string) \<Rightarrow> cconfig \<Rightarrow> param list \<Rightarrow> vals \<Rightarrow> vals res" where
  "validate_params nf a raw cfg [] out = Inr out"
| "validate_params nf a raw cfg (p # ps) out =
     (case validate_param nf a raw cfg p out of
        Inl e \<Rightarrow> Inl e
      | Inr out' \<Rightarrow> validate_params nf a raw cfg ps out')"

definition validate :: "numfmt \<Rightarrow> action \<Rightarrow> (string \<rightharpoonup> string) \<Rightarrow> cconfig \<Rightarrow> vals res" where
  "validate nf a raw cfg =
     validate_params nf a raw cfg (Params a) \<lparr>numbers = Map.empty, choices = Map.empty\<rparr>"

section \<open>The allowlist\<close>

text \<open>An entry with no parameters, and what the fields left out in the source are.\<close>

definition plain :: "string \<Rightarrow> string \<Rightarrow> string \<Rightarrow> string \<Rightarrow> bool \<Rightarrow> int \<Rightarrow> string list \<Rightarrow> action" where
  "plain i label gr summary destructive minutes command =
     \<lparr>ID = i, Label = label, Group = gr, Summary = summary, Destructive = destructive,
      Timeout = minutes * minute, Params = [], Report = '''', Env = [], argv = (\<lambda>_ _. command)\<rparr>"

definition actions :: "numfmt \<Rightarrow> action list" where
  "actions nf =
     [plain ''stack.up'' ''Start stack'' ''stack''
        ''Bring up Kafka, Postgres, the services and Prometheus.'' False 5
        [''docker'', ''compose'', ''up'', ''-d''],
      plain ''stack.down'' ''Stop stack'' ''stack''
        ''Stop every container. Volumes, and so all data, are kept.'' True 3
        [''docker'', ''compose'', ''down''],
      plain ''stack.reset'' ''Reset (deletes data)'' ''stack''
        ''Stop everything and delete the Kafka and Postgres volumes.'' True 3
        [''docker'', ''compose'', ''down'', ''-v''],
      (plain ''workers.scale'' ''Scale workers'' ''stack''
        ''Change the consumer group size and watch Kafka rebalance.'' False 3 [])
        \<lparr>Params := [\<lparr>PName = ''n'', PLabel = ''Workers'', PKind = paramChoice, PDefault = ''2'',
                    PChoices = [''0'', ''1'', ''2'', ''4'', ''8''], PMin = Fin 0, PMax = Fin 0, PUnit = ''''\<rparr>],
         argv := (\<lambda>p _. [''docker'', ''compose'', ''up'', ''-d'', ''--scale'', ''worker='' @ str p ''n''])\<rparr>,
      (plain ''load.send'' ''Send load'' ''load''
        ''Drive the API at a scheduled rate and report what actually happened.'' False 10 [])
        \<lparr>Params := [\<lparr>PName = ''rate'', PLabel = ''Rate'', PKind = paramNumber, PDefault = ''1000'',
                    PChoices = [], PMin = Fin 1, PMax = Fin 20000, PUnit = ''orders/s''\<rparr>,
                   \<lparr>PName = ''duration'', PLabel = ''Duration'', PKind = paramNumber, PDefault = ''15'',
                    PChoices = [], PMin = Fin 1, PMax = Fin 120, PUnit = ''s''\<rparr>],
         argv := (\<lambda>p _. [''go'', ''run'', ''./cmd/loadgen'', ''-rate'', nf_f nf (num p ''rate''),
                          ''-duration'', itoa (trunc_f64 (num p ''duration'')) @ ''s''])\<rparr>,
      (plain ''chaos.db'' ''Kill Postgres'' ''chaos''
        ''Remove the database for 90s under load. It comes back by itself.'' True 10
        [''bash'', ''scripts/chaos-db-outage.sh''])
        \<lparr>Report := ''results/reports/console-chaos-db.txt'', Env := [''TAG=console-chaos-db'']\<rparr>,
      (plain ''chaos.kafka'' ''Kill the broker'' ''chaos''
        ''Remove Kafka for 45s under load. Writes are refused while it is gone.'' True 10
        [''bash'', ''scripts/chaos-kafka.sh''])
        \<lparr>Report := ''results/reports/console-chaos-kafka.txt'', Env := [''TAG=console-chaos-kafka'']\<rparr>,
      plain ''dlq.inspect'' ''Inspect dead letters'' ''recovery''
        ''What is on the dead-letter topic, and what would be replayed. Changes nothing.'' False 3
        [''go'', ''run'', ''./cmd/replay''],
      plain ''dlq.replay'' ''Replay dead letters'' ''recovery''
        ''Send the recoverable dead letters back through the pipeline, then check the rows reached PostgreSQL.'' True 10
        [''go'', ''run'', ''./cmd/replay'', ''-apply'', ''-verify'', ''60s''],
      (plain ''experiment.matrix'' ''Scaling matrix'' ''experiment''
        ''3 partitions, 1/2/4/8 workers, drain measured at each. Minutes, not seconds.'' False 45
        [''bash'', ''scripts/scaling-matrix.sh'', ''3'', ''1'', ''2'', ''4'', ''8''])
        \<lparr>Env := [''OUT=results/console-scaling.tsv'']\<rparr>,
      (plain ''experiment.batch'' ''Batch matrix'' ''experiment''
        ''1/10/50/200 records per round trip, one worker. Minutes, not seconds.'' False 45
        [''bash'', ''scripts/batch-matrix.sh'', ''1'', ''10'', ''50'', ''200''])
        \<lparr>Env := [''OUT=results/console-batching.tsv'']\<rparr>,
      (plain ''experiment.ramp'' ''Overload ramp'' ''experiment''
        ''1k to 20k orders/s until something gives. Minutes, not seconds.'' False 45
        [''bash'', ''scripts/ramp.sh'', ''1000'', ''2500'', ''5000'', ''10000'', ''20000''])
        \<lparr>Env := [''OUT=results/console-ramp.tsv'']\<rparr>]"

text \<open>\<open>actions[id]\<close>: every key of the map is the identifier of its entry.\<close>

definition find_action :: "numfmt \<Rightarrow> string \<Rightarrow> action option" where
  "find_action nf i = map_of (map (\<lambda>a. (ID a, a)) (actions nf)) i"

definition groupRank :: "string \<Rightarrow> nat" where
  "groupRank g =
     (case map_of [(''stack'', 0), (''load'', 1), (''chaos'', 2), (''experiment'', 3)] g of
        Some n \<Rightarrow> n | None \<Rightarrow> 0)"

definition actionList :: "action list \<Rightarrow> action list" where
  "actionList ranged = sort_key (\<lambda>a. (groupRank (Group a), ID a)) ranged"

section \<open>What can be run\<close>

definition fixed_commands :: "string list list" where
  "fixed_commands =
     [[''docker'', ''compose'', ''up'', ''-d''], [''docker'', ''compose'', ''down''],
      [''docker'', ''compose'', ''down'', ''-v''], [''bash'', ''scripts/chaos-db-outage.sh''],
      [''bash'', ''scripts/chaos-kafka.sh''], [''go'', ''run'', ''./cmd/replay''],
      [''go'', ''run'', ''./cmd/replay'', ''-apply'', ''-verify'', ''60s''],
      [''bash'', ''scripts/scaling-matrix.sh'', ''3'', ''1'', ''2'', ''4'', ''8''],
      [''bash'', ''scripts/batch-matrix.sh'', ''1'', ''10'', ''50'', ''200''],
      [''bash'', ''scripts/ramp.sh'', ''1000'', ''2500'', ''5000'', ''10000'', ''20000'']]"

definition scale_command :: "string \<Rightarrow> string list" where
  "scale_command n = [''docker'', ''compose'', ''up'', ''-d'', ''--scale'', ''worker='' @ n]"

definition load_command :: "numfmt \<Rightarrow> rat \<Rightarrow> rat \<Rightarrow> string list" where
  "load_command nf rate dur =
     [''go'', ''run'', ''./cmd/loadgen'', ''-rate'', nf_f nf (Fin rate), ''-duration'', itoa \<lfloor>dur\<rfloor> @ ''s'']"

lemma contains_iff [simp]: "contains xs x \<longleftrightarrow> x \<in> set xs"
  by (induction xs) auto

lemma validate_number:
  assumes "validate_param nf a raw cfg p out = Inr out'" and "PKind p = paramNumber"
    and "PMin p = Fin l" and "ceiling_of a p cfg \<noteq> NaN"
  shows "\<exists>x. out' = out\<lparr>numbers := (numbers out)(PName p \<mapsto> Fin x)\<rparr> \<and> l \<le> x \<and> f64_le (Fin x) (ceiling_of a p cfg)"
proof -
  from assms(1,2) obtain n where n: "is_finite n" "\<not> f64_less n (PMin p)" "\<not> f64_less (ceiling_of a p cfg) n"
    "out' = out\<lparr>numbers := (numbers out)(PName p \<mapsto> n)\<rparr>"
    by (auto simp: validate_param_def Let_def split: option.splits if_splits)
  then obtain x where "n = Fin x" by (cases n) (auto simp: is_finite_def)
  with n assms(3,4) show ?thesis by (auto simp: f64_not_less)
qed

lemma validate_choice:
  assumes "validate_param nf a raw cfg p out = Inr out'" and "PKind p = paramChoice"
  shows "\<exists>s \<in> set (PChoices p). out' = out\<lparr>choices := (choices out)(PName p \<mapsto> s)\<rparr>"
  using assms by (auto simp: validate_param_def Let_def split: option.splits if_splits)

lemma actions_cases:
  assumes "a \<in> set (actions nf)"
  obtains (fixed) "\<forall>p cfg. argv a p cfg \<in> set fixed_commands" "Params a = []"
  | (scale) "ID a = ''workers.scale''" "\<forall>p cfg. argv a p cfg = scale_command (str p ''n'')"
      "Params a = [\<lparr>PName = ''n'', PLabel = ''Workers'', PKind = paramChoice, PDefault = ''2'',
         PChoices = [''0'', ''1'', ''2'', ''4'', ''8''], PMin = Fin 0, PMax = Fin 0, PUnit = ''''\<rparr>]"
  | (load) "ID a = ''load.send''"
      "\<forall>p cfg. argv a p cfg = [''go'', ''run'', ''./cmd/loadgen'', ''-rate'', nf_f nf (num p ''rate''),
         ''-duration'', itoa (trunc_f64 (num p ''duration'')) @ ''s'']"
      "Params a = [\<lparr>PName = ''rate'', PLabel = ''Rate'', PKind = paramNumber, PDefault = ''1000'',
         PChoices = [], PMin = Fin 1, PMax = Fin 20000, PUnit = ''orders/s''\<rparr>,
        \<lparr>PName = ''duration'', PLabel = ''Duration'', PKind = paramNumber, PDefault = ''15'',
         PChoices = [], PMin = Fin 1, PMax = Fin 120, PUnit = ''s''\<rparr>]"
  using assms unfolding actions_def
  by (simp add: plain_def scale_command_def) (elim disjE; simp add: fixed_commands_def)

lemma find_action_in: "find_action nf i = Some a \<Longrightarrow> a \<in> set (actions nf) \<and> ID a = i"
  by (auto simp: find_action_def dest!: map_of_SomeD)

text \<open>
  The console runs only what its allowlist says. Whatever a request sends, the command of an
  action whose parameters validate is one of ten constant commands, or a scaling to 0, 1, 2, 4
  or 8 workers, or a load run whose rate and duration are numbers within the limits of the
  action and of the deployment: nothing of the caller's text is in it.
\<close>

lemma command_allowed:
  assumes "find_action nf i = Some a" and "validate nf a raw cfg = Inr p" and "MaxLoadRate cfg \<noteq> NaN"
  shows "argv a p cfg \<in> set fixed_commands \<or>
    (\<exists>n \<in> {''0'', ''1'', ''2'', ''4'', ''8''}. argv a p cfg = scale_command n) \<or>
    (\<exists>rate dur. argv a p cfg = load_command nf rate dur \<and> 1 \<le> rate \<and> rate \<le> 20000 \<and>
       f64_le (Fin rate) (MaxLoadRate cfg) \<and> 1 \<le> dur \<and> dur \<le> 120 \<and>
       f64_le (Fin dur) (Seconds (MaxLoadDuration cfg)))"
  using conjunct1[OF find_action_in[OF assms(1)]]
proof (cases rule: actions_cases)
  case fixed
  then show ?thesis by blast
next
  case scale
  with assms(2) obtain q where "validate_param nf a raw cfg (hd (Params a)) \<lparr>numbers = Map.empty, choices = Map.empty\<rparr> = Inr q" "p = q"
    by (auto simp: validate_def split: sum.splits)
  with scale validate_choice[of nf a raw cfg "hd (Params a)"] show ?thesis by (fastforce simp: str_def)
next
  case load
  let ?r = "Params a ! 0" and ?d = "Params a ! 1"
  from assms(2) load obtain q where q:
    "validate_param nf a raw cfg ?r \<lparr>numbers = Map.empty, choices = Map.empty\<rparr> = Inr q"
    "validate_param nf a raw cfg ?d q = Inr p"
    by (auto simp: validate_def split: sum.splits)
  have c: "ceiling_of a ?r cfg = f64_min (Fin 20000) (MaxLoadRate cfg)"
    "ceiling_of a ?d cfg = f64_min (Fin 120) (Seconds (MaxLoadDuration cfg))"
    using load by (simp_all add: ceiling_of_def)
  have nn: "Seconds (MaxLoadDuration cfg) \<noteq> NaN" by (simp add: Seconds_def Let_def)
  from validate_number[OF q(1), of 1] obtain x where x: "1 \<le> x" "f64_le (Fin x) (ceiling_of a ?r cfg)"
    "numbers q = [''rate'' \<mapsto> Fin x]" using load assms(3) c by auto
  from validate_number[OF q(2), of 1] obtain y where y: "1 \<le> y" "f64_le (Fin y) (ceiling_of a ?d cfg)"
    "numbers p = [''rate'' \<mapsto> Fin x, ''duration'' \<mapsto> Fin y]" using load nn c x by auto
  have "f64_le (Fin x) (Fin 20000) \<and> f64_le (Fin x) (MaxLoadRate cfg)"
    "f64_le (Fin y) (Fin 120) \<and> f64_le (Fin y) (Seconds (MaxLoadDuration cfg))"
    using f64_le_min[OF x(2)[unfolded c(1)] assms(3)] f64_le_min[OF y(2)[unfolded c(2)] nn] by simp_all
  moreover have "argv a p cfg = load_command nf x y"
    using load y(1,3) by (simp add: load_command_def num_def trunc_f64_def)
  ultimately show ?thesis using x(1) y(1) by (metis f64_le_Fin)
qed

text \<open>
  C38. The cap on the load rate can be lifted. \<open>strconv.ParseFloat\<close> reads \<open>NaN\<close>, and no comparison with
  NaN holds, so \<open>loadConfig\<close> accepts \<open>CONSOLE_MAX_LOAD_RATE=NaN\<close>; the ceiling is then NaN, and the
  action takes a rate of any size, above its own maximum of 20000 too.
\<close>

theorem NaN_lifts_the_cap:
  assumes "ge P = [''CONSOLE_PASSWORD_HASH'' \<mapsto> ''h'', ''CONSOLE_MAX_LOAD_RATE'' \<mapsto> ''NaN'']"
    and "parse_float P ''NaN'' = Some NaN" and "rand_key P = Inr k"
    and "nf_parse nf ''15'' = Some (Fin 15)" and "nf_parse nf text = Some (Fin x)" and "text \<noteq> ''''" and "1 \<le> x"
  shows "\<exists>cfg a p. loadConfig P = Inr cfg \<and> find_action nf ''load.send'' = Some a \<and>
    validate nf a [''rate'' \<mapsto> text] cfg = Inr p \<and> num p ''rate'' = Fin x"
proof -
  have s: "Seconds (60 * second) = Fin 60" by code_simp
  from assms(1-3) obtain cfg where c: "loadConfig P = Inr cfg" "MaxLoadRate cfg = NaN" "MaxLoadDuration cfg = 60 * second"
    by (simp add: loadConfig_def session_key_def envFloat_def envDuration_def env_var_def Let_def f64_le_def)
  obtain a where a: "find_action nf ''load.send'' = Some a"
    by (simp add: find_action_def actions_def plain_def)
  have "\<exists>p. validate nf a [''rate'' \<mapsto> text] cfg = Inr p \<and> num p ''rate'' = Fin x"
    using a c(2,3) s assms(4-7)
    by (auto simp: find_action_def actions_def plain_def validate_def validate_param_def ceiling_of_def
        f64_min_def is_finite_def num_def)
  with c(1) a show ?thesis by blast
qed


definition sample_numfmt :: numfmt where
  "sample_numfmt =
     \<lparr>nf_parse = parse_float sample_platform,
      nf_f = (\<lambda>x. itoa (trunc_f64 x)), nf_g = (\<lambda>x. itoa (trunc_f64 x))\<rparr>"

lemma NaN_lifts_the_cap_witness:
  "\<exists>cfg a p. find_action sample_numfmt ''load.send'' = Some a \<and>
     validate sample_numfmt a [''rate'' \<mapsto> ''900000''] cfg = Inr p \<and> num p ''rate'' = Fin 900000"
proof -
  let ?P = "sample_platform\<lparr>ge := [''CONSOLE_PASSWORD_HASH'' \<mapsto> ''h'', ''CONSOLE_MAX_LOAD_RATE'' \<mapsto> ''NaN'']\<rparr>"
  have "parse_float ?P ''NaN'' = Some NaN" "rand_key ?P = Inr (replicate 32 CHR ''k'')"
    by (simp_all add: sample_platform_def)
  moreover have "nf_parse sample_numfmt ''15'' = Some (Fin 15)" "nf_parse sample_numfmt ''900000'' = Some (Fin 900000)"
    by (simp_all add: sample_numfmt_def sample_platform_def atoi_def char_digit_def Let_def)
  ultimately show ?thesis
    using NaN_lifts_the_cap[of ?P "replicate 32 CHR ''k''" sample_numfmt "''900000''" 900000] by auto
qed

text \<open>
  The list of actions has one order. However Go ranges over the map, \<open>actionList\<close> returns the
  same list, of every action once; and since \<open>recovery\<close> has no rank of its own, its two actions
  come first, before those of the stack.
\<close>

theorem actionList_order:
  assumes "mset ranged = mset (actions nf)"
  shows "actionList ranged = actionList (actions nf) \<and>
    map ID (actionList ranged) =
      [''dlq.inspect'', ''dlq.replay'', ''stack.down'', ''stack.reset'', ''stack.up'', ''workers.scale'',
       ''load.send'', ''chaos.db'', ''chaos.kafka'', ''experiment.batch'', ''experiment.matrix'', ''experiment.ramp'']"
proof -
  let ?k = "\<lambda>a. (groupRank (Group a), ID a)"
  have "inj_on ?k (set (actions nf))" by (simp add: actions_def plain_def)
  moreover have "set ranged = set (actions nf)" using assms by (rule mset_eq_setD)
  ultimately have "actionList ranged = actionList (actions nf)"
    using assms unfolding actionList_def by (intro sort_key_inj_key_eq) auto
  moreover have "map ID (actionList (actions nf)) =
      [''dlq.inspect'', ''dlq.replay'', ''stack.down'', ''stack.reset'', ''stack.up'', ''workers.scale'',
       ''load.send'', ''chaos.db'', ''chaos.kafka'', ''experiment.batch'', ''experiment.matrix'', ''experiment.ramp'']"
    by (simp add: actionList_def actions_def plain_def groupRank_def)
  ultimately show ?thesis by simp
qed

lemma actionList_order_witness:
  "map ID (actionList (rev (actions sample_numfmt))) = map ID (actionList (actions sample_numfmt))"
  using actionList_order[of "rev (actions sample_numfmt)" sample_numfmt] by simp

end
