(* ===== verification/Console_Runner.thy ===== *)
theory Console_Runner
  imports Console_Action
begin

text \<open>
  \<open>cmd/console/runner.go\<close>: running one action at a time and broadcasting its output. A method, or
  the part of one that holds a mutex throughout, is a function on the runner; since \<open>start\<close> and
  \<open>finish\<close> release the mutex before they write to the output, the goroutines are a step relation
  whose steps are those parts. A context is a number, its state in \<open>ctxs\<close>; a subscriber's channel
  is a number and the lines waiting in it. The process itself is not modelled: its output, its
  exit code and whether it could be started are what the steps range over.
\<close>

section \<open>Splitting output into lines\<close>

definition maxLine :: int where "maxLine = 64 * 1024"
definition maxReport :: int where "maxReport = 256 * 1024"

abbreviation nl :: char where "nl \<equiv> CHR 0x0A"
abbreviation cr :: char where "cr \<equiv> CHR 0x0D"

text \<open>The loop of \<open>Write\<close>: the lines it emits and what stays in the buffer.\<close>

function drain :: "bytes \<Rightarrow> string list \<times> bytes" where
  "drain buf =
     (case cut nl buf of (line, rest, found) \<Rightarrow>
        if \<not> found then ([], buf)
        else let (ls, r) = drain rest in (trim_right cr line # ls, r))"
  by pat_completeness auto
termination by (relation "measure length") (auto dest!: cut_found[OF sym])

declare drain.simps [simp del]

definition Write :: "bytes \<Rightarrow> bytes \<Rightarrow> string list \<times> bytes" where
  "Write p buf =
     (let (ls, buf) = drain (buf @ p) in
      if int (length buf) > maxLine then (ls @ [take (nat maxLine) buf], []) else (ls, buf))"

definition flush :: "bytes \<Rightarrow> string list \<times> bytes" where
  "flush buf = (if length buf > 0 then ([trim_right cr buf], []) else ([], buf))"

fun write_all :: "bytes list \<Rightarrow> bytes \<Rightarrow> string list \<times> bytes" where
  "write_all [] buf = ([], buf)"
| "write_all (p # ps) buf =
     (let (ls, buf1) = Write p buf; (ls', buf2) = write_all ps buf1 in (ls @ ls', buf2))"

lemma split_on_cut:
  "split_on sep s = (case cut sep s of (b, a, found) \<Rightarrow> if found then b # split_on sep a else [b])"
  by (induction s) (auto split: prod.splits list.splits)

lemma drain_split: "drain s = (map (trim_right cr) (butlast (split_on nl s)), last (split_on nl s))"
proof (induction s rule: drain.induct)
  case (1 buf)
  obtain b a f where c: "cut nl buf = (b, a, f)" by (cases "cut nl buf")
  show ?case
  proof (cases f)
    case True
    with 1 c have "drain a = (map (trim_right cr) (butlast (split_on nl a)), last (split_on nl a))" by simp
    with True c show ?thesis by (simp add: drain.simps[of buf] split_on_cut[of nl buf])
  next
    case False
    with cut_found[OF c] have "nl \<notin> set buf" by simp
    then have "drain buf = ([], buf)" "split_on nl buf = [buf]"
      by (simp_all add: drain.simps[of buf] cut_notin split_on_cut[of nl buf])
    then show ?thesis by simp
  qed
qed

lemma split_on_append:
  "split_on sep (s @ t) = butlast (split_on sep s) @ (last (split_on sep s) @ hd (split_on sep t)) # tl (split_on sep t)"
proof (induction s)
  case (Cons c s)
  obtain w ws where w: "split_on sep s = w # ws" by (cases "split_on sep s") auto
  with Cons show ?case by (cases ws) auto
qed simp

lemma sep_notin_split_on: "w \<in> set (split_on sep s) \<Longrightarrow> sep \<notin> set w"
proof (induction s arbitrary: w)
  case (Cons c s)
  then show ?case by (cases "split_on sep s") (auto split: if_splits)
qed simp


text \<open>What \<open>Write\<close> leaves in the buffer has no line break and fits the limit.\<close>

lemma Write_buffer: "Write p buf = (ls, buf') \<Longrightarrow> nl \<notin> set buf' \<and> int (length buf') \<le> maxLine"
  using sep_notin_split_on[of "last (split_on nl (buf @ p))" nl "buf @ p"]
  by (auto simp: Write_def drain_split maxLine_def split: if_splits prod.splits)

lemma Write_fits:
  assumes "nl \<notin> set buf" and "\<forall>l \<in> set (split_on nl (buf @ p @ q)). int (length l) \<le> maxLine"
  shows "Write p buf = (map (trim_right cr) (butlast (split_on nl (buf @ p))), last (split_on nl (buf @ p)))"
proof -
  have "last (split_on nl (buf @ p)) @ hd (split_on nl q) \<in> set (split_on nl ((buf @ p) @ q))"
    unfolding split_on_append[of nl "buf @ p" q] by simp
  with assms(2) have "int (length (last (split_on nl (buf @ p)))) \<le> maxLine" by fastforce
  then show ?thesis by (simp add: Write_def drain_split)
qed

lemma write_all_split:
  assumes "nl \<notin> set buf" and "\<forall>l \<in> set (split_on nl (buf @ concat ps)). int (length l) \<le> maxLine"
  shows "write_all ps buf =
    (map (trim_right cr) (butlast (split_on nl (buf @ concat ps))), last (split_on nl (buf @ concat ps)))"
  using assms
proof (induction ps arbitrary: buf)
  case Nil
  then show ?case by (simp add: split_on_no_sep)
next
  case (Cons p ps)
  let ?b = "last (split_on nl (buf @ p))"
  have s: "split_on nl (buf @ concat (p # ps)) =
      butlast (split_on nl (buf @ p)) @ (?b @ hd (split_on nl (concat ps))) # tl (split_on nl (concat ps))"
    using split_on_append[of nl "buf @ p" "concat ps"] by simp
  have nb: "nl \<notin> set ?b" by (rule sep_notin_split_on[of _ nl "buf @ p"]) simp
  have t: "split_on nl (?b @ concat ps) = (?b @ hd (split_on nl (concat ps))) # tl (split_on nl (concat ps))"
    using split_on_append[of nl ?b "concat ps"] split_on_no_sep[OF nb] by simp
  have w: "Write p buf = (map (trim_right cr) (butlast (split_on nl (buf @ p))), ?b)"
    using Write_fits[OF Cons.prems(1)] Cons.prems(2) by simp
  have "write_all ps ?b = (map (trim_right cr) (butlast (split_on nl (?b @ concat ps))), last (split_on nl (?b @ concat ps)))"
    using nb Cons.prems(2) unfolding s by (intro Cons.IH) (auto simp: t)
  then show ?case unfolding write_all.simps w s t by (simp add: butlast_append)
qed




section \<open>The runner\<close>

record line =
  Seq :: nat
  At :: time
  Stream :: string
  Text :: string

record runState =
  ActionID :: string
  RLabel :: string
  Command :: string
  Running :: bool
  Started :: time
  Ended :: time
  ExitCode :: int
  Err :: string

datatype ctx_err = NotDone | Canceled | DeadlineExceeded

record runner =
  rstate :: runState
  cancel :: "nat option"
  ctxs :: "ctx_err list"
  ring :: "line list"
  seq :: nat
  subs :: "(nat \<times> line list) list"
  maxRing :: nat

definition chan_cap :: nat where "chan_cap = 256"

definition newRunner :: runner where
  "newRunner =
     \<lparr>rstate = \<lparr>ActionID = '''', RLabel = '''', Command = '''', Running = False, Started = 0, Ended = 0,
                ExitCode = 0, Err = ''''\<rparr>,
      cancel = None, ctxs = [], ring = [], seq = 0, subs = [], maxRing = 500\<rparr>"

fun shellish :: "string list \<Rightarrow> string" where
  "shellish [] = ''''"
| "shellish [a] = a"
| "shellish (a # rest) = a @ '' '' @ shellish rest"

text \<open>The non-blocking send: a channel that is full does not take the line.\<close>

definition offer :: "line \<Rightarrow> nat \<times> line list \<Rightarrow> nat \<times> line list" where
  "offer l ch = (if length (snd ch) < chan_cap then (fst ch, snd ch @ [l]) else ch)"

definition emit :: "string \<Rightarrow> string \<Rightarrow> time \<Rightarrow> runner \<Rightarrow> runner" where
  "emit stream text now r =
     (let n = seq r + 1;
          l = \<lparr>Seq = n, At = now, Stream = stream, Text = text\<rparr>;
          rg = ring r @ [l];
          rg = (if length rg > maxRing r then drop (length rg - maxRing r) rg else rg)
      in r\<lparr>seq := n, ring := rg, subs := map (offer l) (subs r)\<rparr>)"

definition resetRing :: "runner \<Rightarrow> runner" where
  "resetRing r = r\<lparr>ring := []\<rparr>"

definition snapshot :: "runner \<Rightarrow> runState \<times> line list" where
  "snapshot r = (rstate r, ring r)"

text \<open>\<open>subscribe\<close> makes a channel, here the number \<open>i\<close> not in use, and returns how to unsubscribe.\<close>

definition subscribe :: "nat \<Rightarrow> runner \<Rightarrow> runner" where
  "subscribe i r = r\<lparr>subs := (i, []) # subs r\<rparr>"

definition unsubscribe :: "nat \<Rightarrow> runner \<Rightarrow> runner" where
  "unsubscribe i r = r\<lparr>subs := filter (\<lambda>(j, ls). j \<noteq> i) (subs r)\<rparr>"

definition errBusy :: err where "errBusy = OtherErr ''an experiment is already running''"

text \<open>\<open>start\<close> up to the release of the mutex: the context of the run is the next number.\<close>

definition start_locked :: "action \<Rightarrow> vals \<Rightarrow> cconfig \<Rightarrow> time \<Rightarrow> runner \<Rightarrow> err option \<times> runner" where
  "start_locked a p cfg now r =
     (if Running (rstate r) then (Some errBusy, r)
      else (None, r\<lparr>cancel := Some (length (ctxs r)), ctxs := ctxs r @ [NotDone],
                     rstate := \<lparr>ActionID = ID a, RLabel = Label a, Command = shellish (argv a p cfg),
                               Running = True, Started = now, Ended = 0, ExitCode = -1, Err = ''''\<rparr>\<rparr>))"

definition announce :: "string list \<Rightarrow> time \<Rightarrow> runner \<Rightarrow> runner" where
  "announce av now r = emit ''console'' (''$ '' @ shellish av) now r"

text \<open>\<open>start\<close> when nothing else runs in between.\<close>

definition start :: "action \<Rightarrow> vals \<Rightarrow> cconfig \<Rightarrow> time \<Rightarrow> runner \<Rightarrow> err option \<times> runner" where
  "start a p cfg now r =
     (case start_locked a p cfg now r of
        (Some e, r1) \<Rightarrow> (Some e, r1)
      | (None, r1) \<Rightarrow> (None, announce (argv a p cfg) now (resetRing r1)))"

definition cancel_ctx :: "ctx_err \<Rightarrow> nat \<Rightarrow> runner \<Rightarrow> runner" where
  "cancel_ctx e c r =
     (if c < length (ctxs r) \<and> ctxs r ! c = NotDone then r\<lparr>ctxs := (ctxs r)[c := e]\<rparr> else r)"

definition stop :: "time \<Rightarrow> runner \<Rightarrow> err option \<times> runner" where
  "stop now r =
     (case cancel r of
        None \<Rightarrow> (Some (OtherErr ''nothing is running''), r)
      | Some c \<Rightarrow>
          if \<not> Running (rstate r) then (Some (OtherErr ''nothing is running''), r)
          else (None, cancel_ctx Canceled c (emit ''console'' ''-- stop requested --'' now r)))"

text \<open>The end of \<open>supervise\<close>: the error that \<open>finish\<close> is told of.\<close>

definition supervise_err :: "ctx_err \<Rightarrow> bool \<Rightarrow> int \<Rightarrow> err option" where
  "supervise_err ctx waitErr code =
     (case ctx of
        DeadlineExceeded \<Rightarrow> Some (OtherErr ''timed out and was killed'')
      | Canceled \<Rightarrow> Some (OtherErr ''stopped'')
      | NotDone \<Rightarrow> if waitErr then Some (OtherErr (''exited '' @ itoa code)) else None)"

definition start_err :: "(string \<Rightarrow> string) \<Rightarrow> string list \<Rightarrow> err \<Rightarrow> err" where
  "start_err quote av e = Wrapf (''could not start '' @ quote (hd av) @ '': '') e ''''"

definition finish_locked :: "int \<Rightarrow> err option \<Rightarrow> time \<Rightarrow> runner \<Rightarrow> runner" where
  "finish_locked code e now r =
     r\<lparr>rstate := (rstate r)\<lparr>Running := False, Ended := now, ExitCode := code,
                            Err := (case e of None \<Rightarrow> Err (rstate r) | Some x \<Rightarrow> err_text x)\<rparr>\<rparr>"

definition finish_text :: "string \<Rightarrow> err option \<Rightarrow> string" where
  "finish_text label e =
     (case e of
        Some x \<Rightarrow> ''-- '' @ label @ '' failed: '' @ err_text x @ '' --''
      | None \<Rightarrow> ''-- '' @ label @ '' finished --'')"

definition finish :: "int \<Rightarrow> err option \<Rightarrow> time \<Rightarrow> runner \<Rightarrow> runner" where
  "finish code e now r =
     emit ''console'' (finish_text (RLabel (rstate r)) e) now (finish_locked code e now r)"

text \<open>\<open>appendReport\<close>: the lines of the report, which the scanner made of at most \<open>maxReport\<close> bytes of the file.\<close>

definition emit_all :: "string \<Rightarrow> string list \<Rightarrow> time \<Rightarrow> runner \<Rightarrow> runner" where
  "emit_all stream texts now r = fold (\<lambda>t. emit stream t now) texts r"

definition appendReport :: "(bytes \<Rightarrow> string list) \<Rightarrow> (string \<Rightarrow> bytes option) \<Rightarrow> string \<Rightarrow> time \<Rightarrow> runner \<Rightarrow> runner" where
  "appendReport scan open_file path now r =
     (if path = '''' then r
      else case open_file path of
             None \<Rightarrow> r
           | Some f \<Rightarrow>
               emit_all ''stdout'' (scan (take (nat maxReport) f)) now
                 (emit ''console'' (''-- '' @ path @ '' --'') now r))"


section \<open>Goroutines\<close>

text \<open>
  A job is the command and the context of a run. \<open>starting\<close> holds the calls of \<open>start\<close> that have
  released the mutex, with whether the ring is reset yet; \<open>supervised\<close> the goroutines in
  \<open>supervise\<close>; \<open>finishing\<close> the last line of a run whose \<open>finish\<close> has released the mutex.
\<close>

type_synonym job = "string list \<times> nat"

record sys =
  rn :: runner
  starting :: "(job \<times> bool) list"
  supervised :: "job list"
  finishing :: "string list"

definition init_sys :: sys where
  "init_sys = \<lparr>rn = newRunner, starting = [], supervised = [], finishing = []\<rparr>"

inductive action_step :: "cconfig \<Rightarrow> sys \<Rightarrow> sys \<Rightarrow> bool" for cfg where
  start: "start_locked a p cfg now (rn s) = (None, r) \<Longrightarrow>
    action_step cfg s (s\<lparr>rn := r, starting := starting s @ [((argv a p cfg, length (ctxs (rn s))), False)]\<rparr>)"
| reset: "starting s = xs @ (j, False) # ys \<Longrightarrow>
    action_step cfg s (s\<lparr>rn := resetRing (rn s), starting := xs @ (j, True) # ys\<rparr>)"
| launch: "starting s = xs @ (j, True) # ys \<Longrightarrow>
    action_step cfg s (s\<lparr>rn := announce (fst j) now (rn s), starting := xs @ ys, supervised := supervised s @ [j]\<rparr>)"
| print_line: "j \<in> set (supervised s) \<Longrightarrow> stream \<in> {''stdout'', ''stderr'', ''console''} \<Longrightarrow>
    action_step cfg s (s\<lparr>rn := emit stream text now (rn s)\<rparr>)"
| timeout: "c < length (ctxs (rn s)) \<Longrightarrow> action_step cfg s (s\<lparr>rn := cancel_ctx DeadlineExceeded c (rn s)\<rparr>)"
| stop: "stop now (rn s) = (None, r) \<Longrightarrow> action_step cfg s (s\<lparr>rn := r\<rparr>)"
| exited: "supervised s = xs @ j # ys \<Longrightarrow> e = supervise_err (ctxs (rn s) ! snd j) waitErr code \<Longrightarrow>
    action_step cfg s (s\<lparr>rn := finish_locked code e now (rn s), supervised := xs @ ys,
                  finishing := finishing s @ [finish_text (RLabel (rstate (rn s))) e]\<rparr>)"
| not_started: "supervised s = xs @ j # ys \<Longrightarrow> e = Some (start_err quote (fst j) e0) \<Longrightarrow>
    action_step cfg s (s\<lparr>rn := finish_locked (-1) e now (rn s), supervised := xs @ ys,
                  finishing := finishing s @ [finish_text (RLabel (rstate (rn s))) e]\<rparr>)"
| last_line: "finishing s = xs @ t # ys \<Longrightarrow>
    action_step cfg s (s\<lparr>rn := emit ''console'' t now (rn s), finishing := xs @ ys\<rparr>)"

inductive step :: "cconfig \<Rightarrow> sys \<Rightarrow> sys \<Rightarrow> bool" for cfg where
  run: "action_step cfg s t \<Longrightarrow> step cfg s t"
| subscribe: "i \<notin> fst ` set (subs (rn s)) \<Longrightarrow> step cfg s (s\<lparr>rn := subscribe i (rn s)\<rparr>)"
| unsubscribe: "step cfg s (s\<lparr>rn := unsubscribe i (rn s)\<rparr>)"
| receive: "subs (rn s) = xs @ (i, l # ls) # ys \<Longrightarrow>
    step cfg s (s\<lparr>rn := (rn s)\<lparr>subs := xs @ (i, ls) # ys\<rparr>\<rparr>)"

inductive reachable :: "cconfig \<Rightarrow> sys \<Rightarrow> bool" for cfg where
  init: "reachable cfg init_sys"
| step: "reachable cfg s \<Longrightarrow> step cfg s t \<Longrightarrow> reachable cfg t"

section \<open>Invariants\<close>

text \<open>The lines kept are the last ones emitted; a channel holds lines in the order of their numbers.\<close>

definition feed_ok :: "runner \<Rightarrow> bool" where
  "feed_ok r \<longleftrightarrow> maxRing r = 500 \<and> length (ring r) \<le> 500 \<and> length (ring r) \<le> seq r \<and>
     map Seq (ring r) = [Suc (seq r) - length (ring r)..<Suc (seq r)] \<and>
     (\<forall>(i, ls) \<in> set (subs r). length ls \<le> chan_cap \<and> sorted_wrt (<) (map Seq ls) \<and> (\<forall>l \<in> set ls. Seq l \<le> seq r))"

text \<open>While an action is marked running there is one job, and the cancel function is that job's.\<close>

definition jobs :: "sys \<Rightarrow> job list" where
  "jobs s = map fst (starting s) @ supervised s"

definition run_ok :: "sys \<Rightarrow> bool" where
  "run_ok s \<longleftrightarrow>
     (if Running (rstate (rn s))
      then \<exists>av c. jobs s = [(av, c)] \<and> cancel (rn s) = Some c \<and> c < length (ctxs (rn s)) \<and>
             Command (rstate (rn s)) = shellish av
      else jobs s = [])"

lemma emit_frame [simp]:
  "rstate (emit st t now r) = rstate r" "cancel (emit st t now r) = cancel r" "ctxs (emit st t now r) = ctxs r"
  "maxRing (emit st t now r) = maxRing r" "seq (emit st t now r) = Suc (seq r)"
  by (simp_all add: emit_def Let_def)

lemma runner_frames [simp]:
  "rstate (announce av now r) = rstate r" "cancel (announce av now r) = cancel r" "ctxs (announce av now r) = ctxs r"
  "rstate (resetRing r) = rstate r" "cancel (resetRing r) = cancel r" "ctxs (resetRing r) = ctxs r"
  "rstate (cancel_ctx e c r) = rstate r" "cancel (cancel_ctx e c r) = cancel r"
  "length (ctxs (cancel_ctx e c r)) = length (ctxs r)"
  "rstate (subscribe i r) = rstate r" "cancel (subscribe i r) = cancel r" "ctxs (subscribe i r) = ctxs r"
  "rstate (unsubscribe i r) = rstate r" "cancel (unsubscribe i r) = cancel r" "ctxs (unsubscribe i r) = ctxs r"
  by (simp_all add: announce_def resetRing_def cancel_ctx_def subscribe_def unsubscribe_def)

lemma emit_ring:
  "feed_ok r \<Longrightarrow> ring (emit st t now r) =
     (let rg = ring r @ [\<lparr>Seq = Suc (seq r), At = now, Stream = st, Text = t\<rparr>] in drop (length rg - 500) rg)"
  by (auto simp: emit_def Let_def feed_ok_def)

lemma emit_feed:
  assumes "feed_ok r"
  shows "feed_ok (emit st t now r)"
proof -
  let ?l = "\<lparr>Seq = Suc (seq r), At = now, Stream = st, Text = t\<rparr>" and ?n = "length (ring r)"
  have s: "map Seq (ring r @ [?l]) = [Suc (seq r) - ?n..<Suc (Suc (seq r))]"
    using assms by (simp add: feed_ok_def)
  have "map Seq (ring (emit st t now r)) = drop (Suc ?n - 500) [Suc (seq r) - ?n..<Suc (Suc (seq r))]"
    unfolding emit_ring[OF assms] Let_def drop_map[symmetric] s by simp
  moreover have "length (ring (emit st t now r)) = Suc ?n - (Suc ?n - 500)"
    by (simp add: emit_ring[OF assms] Let_def)
  moreover have "?n \<le> 500" "?n \<le> seq r" using assms by (auto simp: feed_ok_def)
  ultimately have "map Seq (ring (emit st t now r)) =
      [Suc (Suc (seq r)) - length (ring (emit st t now r))..<Suc (Suc (seq r))]"
    "length (ring (emit st t now r)) \<le> 500" "length (ring (emit st t now r)) \<le> Suc (seq r)"
    by (auto simp del: upt_Suc intro!: arg_cong2[of _ _ _ _ upt])
  moreover have "length ls \<le> chan_cap \<and> sorted_wrt (<) (map Seq ls) \<and> (\<forall>l \<in> set ls. Seq l \<le> Suc (seq r))"
    if "(i, ls) \<in> set (subs (emit st t now r))" for i ls
    using that assms by (fastforce simp: emit_def Let_def feed_ok_def offer_def sorted_wrt_append split: if_splits)
  ultimately show ?thesis using assms by (auto simp: feed_ok_def simp del: upt_Suc)
qed


lemma feed_ok_cong:
  "\<lbrakk>feed_ok r; maxRing r' = maxRing r; ring r' = ring r; seq r' = seq r; subs r' = subs r\<rbrakk> \<Longrightarrow> feed_ok r'"
  by (simp add: feed_ok_def)

lemma feed_ok_simps:
  "feed_ok r \<Longrightarrow> feed_ok (announce av now r)"
  "feed_ok r \<Longrightarrow> feed_ok (resetRing r)"
  "feed_ok r \<Longrightarrow> feed_ok (cancel_ctx e c r)"
  "feed_ok r \<Longrightarrow> feed_ok (finish_locked code err now r)"
  "feed_ok r \<Longrightarrow> feed_ok (subscribe i r)"
  "feed_ok r \<Longrightarrow> feed_ok (unsubscribe i r)"
  using emit_feed[of r]
  by (auto simp: announce_def resetRing_def cancel_ctx_def finish_locked_def subscribe_def unsubscribe_def
      feed_ok_def)

lemma stop_ok: "stop now r = (None, r') \<Longrightarrow>
    \<exists>c. cancel r = Some c \<and> Running (rstate r) \<and> r' = cancel_ctx Canceled c (emit ''console'' ''-- stop requested --'' now r)"
  by (auto simp: stop_def split: option.splits if_splits)

lemma action_feed: "action_step cfg s t \<Longrightarrow> feed_ok (rn s) \<Longrightarrow> feed_ok (rn t)"
proof (induction rule: action_step.induct)
  case (start a p now s r)
  then show ?case by (auto simp: start_locked_def intro: feed_ok_cong split: if_splits)
next
  case (stop now s r)
  then show ?case by (auto dest!: stop_ok intro: feed_ok_simps emit_feed)
qed (simp_all add: feed_ok_simps emit_feed)

lemma step_feed: "step cfg s t \<Longrightarrow> feed_ok (rn s) \<Longrightarrow> feed_ok (rn t)"
proof (induction rule: step.induct)
  case (receive s xs i l ls ys)
  then show ?case by (auto simp: feed_ok_def)
qed (simp_all add: action_feed feed_ok_simps)

lemma action_run: "action_step cfg s t \<Longrightarrow> run_ok s \<Longrightarrow> run_ok t"
proof (induction rule: action_step.induct)
  case (start a p now s r)
  then show ?case by (auto simp: run_ok_def start_locked_def jobs_def split: if_splits)
next
  case (stop now s r)
  then show ?case by (auto simp: run_ok_def jobs_def dest!: stop_ok)
next
  case (launch s xs j ys now)
  then show ?case by (auto simp: run_ok_def jobs_def append_eq_Cons_conv split: if_splits)
next
  case (exited s xs j ys e waitErr code now)
  then show ?case by (auto simp: run_ok_def jobs_def finish_locked_def append_eq_Cons_conv split: if_splits)
next
  case (not_started s xs j ys e quote e0 now)
  then show ?case by (auto simp: run_ok_def jobs_def finish_locked_def append_eq_Cons_conv split: if_splits)
qed (auto simp: run_ok_def jobs_def split: if_splits)

lemma step_run: "step cfg s t \<Longrightarrow> run_ok s \<Longrightarrow> run_ok t"
proof (induction rule: step.induct)
  case (run s t)
  then show ?case by (rule action_run)
qed (auto simp: run_ok_def jobs_def split: if_splits)

lemma reachable_ok: "reachable cfg s \<Longrightarrow> run_ok s \<and> feed_ok (rn s)"
proof (induction rule: reachable.induct)
  case init
  show ?case by (simp add: run_ok_def jobs_def feed_ok_def init_sys_def newRunner_def)
next
  case (step s t)
  then show ?case using step_run step_feed by blast
qed

text \<open>
  C2. One run at a time, and stop stops that one. However the goroutines interleave, there is at most
  one run between its \<open>start\<close> and its \<open>finish\<close>; a \<open>start\<close> is refused as busy exactly while there is
  one; and a \<open>stop\<close> succeeds exactly then and cancels the context of that run, unless its deadline
  came first, so that its \<open>finish\<close> reports it as stopped or timed out.
\<close>

theorem one_run_at_a_time:
  assumes "reachable cfg s"
  shows "length (starting s) + length (supervised s) \<le> 1 \<and>
    (fst (start_locked a p cfg now (rn s)) = Some errBusy \<longleftrightarrow> jobs s \<noteq> []) \<and>
    (fst (stop now (rn s)) = None \<longleftrightarrow> jobs s \<noteq> []) \<and>
    (\<forall>av c waitErr code. (av, c) \<in> set (jobs s) \<longrightarrow>
       supervise_err (ctxs (snd (stop now (rn s))) ! c) waitErr code \<in>
         {Some (OtherErr ''stopped''), Some (OtherErr ''timed out and was killed'')})"
proof -
  have ok: "run_ok s" using reachable_ok[OF assms] by blast
  show ?thesis
  proof (cases "Running (rstate (rn s))")
    case True
    with ok obtain av c where j: "jobs s = [(av, c)]" "cancel (rn s) = Some c" "c < length (ctxs (rn s))"
      by (auto simp: run_ok_def)
    have "length (jobs s) = length (starting s) + length (supervised s)" by (simp add: jobs_def)
    with j(1) have "length (starting s) + length (supervised s) = 1" by simp
    moreover have "ctxs (snd (stop now (rn s))) ! c \<noteq> NotDone"
      using True j by (simp add: stop_def cancel_ctx_def)
    ultimately show ?thesis using True j
      by (auto simp: start_locked_def stop_def supervise_err_def errBusy_def split: ctx_err.split)
  next
    case False
    with ok have "jobs s = []" by (simp add: run_ok_def)
    then show ?thesis using False
      by (auto simp: start_locked_def stop_def jobs_def split: option.split)
  qed
qed

text \<open>
  The output feed. In every reachable state the ring holds at most 500 lines, and these are the
  latest ones, numbered without a gap up to the last number given out; the channel of a
  subscriber holds at most 256 lines, in the order of their numbers. No step of a process's
  output ever waits for a subscriber: \<open>emit\<close> always takes effect.
\<close>

theorem output_feed:
  assumes "reachable cfg s"
  shows "length (ring (rn s)) \<le> 500 \<and>
    map Seq (ring (rn s)) = [Suc (seq (rn s)) - length (ring (rn s))..<Suc (seq (rn s))] \<and>
    (\<forall>i ls. (i, ls) \<in> set (subs (rn s)) \<longrightarrow> length ls \<le> 256 \<and> sorted_wrt (<) (map Seq ls)) \<and>
    last (ring (emit st t now (rn s))) = \<lparr>Seq = Suc (seq (rn s)), At = now, Stream = st, Text = t\<rparr>"
proof -
  have ok: "feed_ok (rn s)" using reachable_ok[OF assms] by blast
  then have "last (ring (emit st t now (rn s))) = \<lparr>Seq = Suc (seq (rn s)), At = now, Stream = st, Text = t\<rparr>"
    by (simp add: emit_ring Let_def last_drop feed_ok_def)
  with ok show ?thesis by (auto simp: feed_ok_def chan_cap_def)
qed


lemma ran: "reachable cfg s \<Longrightarrow> action_step cfg s t \<Longrightarrow> reachable cfg t"
  by (rule reachable.step[OF _ step.run])

text \<open>A first run of \<open>a1\<close> that has ended, its last line not yet written.\<close>

lemma first_run_ended:
  fixes a :: action
  shows "\<exists>r. reachable cfg \<lparr>rn = r, starting = [], supervised = [], finishing = [''-- '' @ Label a @ '' finished --'']\<rparr> \<and>
     \<not> Running (rstate r) \<and> maxRing r = 500"
proof -
  define r1 where "r1 = snd (start_locked a p cfg 0 newRunner)"
  define r2 where "r2 = announce (argv a p cfg) 0 (resetRing r1)"
  have l: "start_locked a p cfg 0 newRunner = (None, r1)" and b: "RLabel (rstate r1) = Label a" "ctxs r1 = [NotDone]" "maxRing r1 = 500"
    by (simp_all add: r1_def start_locked_def newRunner_def)
  have "reachable cfg \<lparr>rn = r1, starting = [((argv a p cfg, 0), False)], supervised = [], finishing = []\<rparr>"
    using ran[OF reachable.init action_step.start[of a p cfg 0 init_sys r1]] l
    by (simp add: init_sys_def newRunner_def)
  from ran[OF this action_step.reset[of _ "[]" _ "[]"]]
  have "reachable cfg \<lparr>rn = resetRing r1, starting = [((argv a p cfg, 0), True)], supervised = [], finishing = []\<rparr>" by simp
  from ran[OF this action_step.launch[of _ "[]" _ "[]" _ 0]]
  have "reachable cfg \<lparr>rn = r2, starting = [], supervised = [(argv a p cfg, 0)], finishing = []\<rparr>" by (simp add: r2_def)
  from ran[OF this action_step.exited[of _ "[]" "(argv a p cfg, 0)" "[]" None False 0 _ 0]]
  have "reachable cfg \<lparr>rn = finish_locked 0 None 0 r2, starting = [], supervised = [], finishing = [''-- '' @ Label a @ '' finished --'']\<rparr>"
    using b by (simp add: supervise_err_def finish_text_def r2_def)
  moreover have "\<not> Running (rstate (finish_locked 0 None 0 r2))" "maxRing (finish_locked 0 None 0 r2) = 500"
    using b by (simp_all add: finish_locked_def r2_def announce_def resetRing_def)
  ultimately show ?thesis by blast
qed

text \<open>
  C36. A run's last line can land in the next run's output. \<open>finish\<close> gives up the mutex before it
  writes that line, and \<open>start\<close> clears the output after taking the mutex, so there is a reachable
  state in which the second run is going on and the output shows its command followed by the
  line that says the first has finished.
\<close>

theorem last_line_in_next_run:
  fixes a1 a2 :: action
  shows "\<exists>s. reachable cfg s \<and> Running (rstate (rn s)) \<and> ActionID (rstate (rn s)) = ID a2 \<and>
     map Text (ring (rn s)) = [''$ '' @ shellish (argv a2 p2 cfg), ''-- '' @ Label a1 @ '' finished --'']"
proof -
  let ?m = "''-- '' @ Label a1 @ '' finished --''"
  obtain r where r: "reachable cfg \<lparr>rn = r, starting = [], supervised = [], finishing = [?m]\<rparr>"
    "\<not> Running (rstate r)" "maxRing r = 500" using first_run_ended by blast
  define r1 where "r1 = snd (start_locked a2 p2 cfg 0 r)"
  have l: "start_locked a2 p2 cfg 0 r = (None, r1)" and b: "Running (rstate r1)" "ActionID (rstate r1) = ID a2" "maxRing r1 = 500"
    using r(2,3) by (simp_all add: r1_def start_locked_def)
  define r2 where "r2 = announce (argv a2 p2 cfg) 0 (resetRing r1)"
  let ?j = "(argv a2 p2 cfg, length (ctxs r))"
  from ran[OF r(1) action_step.start[of a2 p2 cfg 0 _ r1]] l
  have "reachable cfg \<lparr>rn = r1, starting = [(?j, False)], supervised = [], finishing = [?m]\<rparr>" by simp
  from ran[OF this action_step.reset[of _ "[]" _ "[]"]]
  have "reachable cfg \<lparr>rn = resetRing r1, starting = [(?j, True)], supervised = [], finishing = [?m]\<rparr>" by simp
  from ran[OF this action_step.launch[of _ "[]" _ "[]" _ 0]]
  have "reachable cfg \<lparr>rn = r2, starting = [], supervised = [?j], finishing = [?m]\<rparr>" by (simp add: r2_def)
  from ran[OF this action_step.last_line[of _ "[]" ?m "[]" _ 0]]
  have "reachable cfg \<lparr>rn = emit ''console'' ?m 0 r2, starting = [], supervised = [?j], finishing = []\<rparr>" by simp
  moreover have "map Text (ring (emit ''console'' ?m 0 r2)) = [''$ '' @ shellish (argv a2 p2 cfg), ?m]"
    using b by (simp add: r2_def announce_def resetRing_def emit_def Let_def)
  ultimately show ?thesis using b by (fastforce simp: r2_def)
qed

lemma one_run_at_a_time_witness:
  "\<exists>s r. start_locked (hd (actions sample_numfmt)) \<lparr>numbers = Map.empty, choices = Map.empty\<rparr> sample_cconfig 5 newRunner = (None, r) \<and>
     rn (s :: sys) = r \<and> length (starting s) = 1 \<and> fst (stop 6 (rn s)) = None"
proof -
  let ?a = "hd (actions sample_numfmt)" and ?p = "\<lparr>numbers = Map.empty, choices = Map.empty\<rparr>"
  obtain r where l: "start_locked ?a ?p sample_cconfig 5 newRunner = (None, r)"
    by (simp add: start_locked_def newRunner_def)
  let ?s = "init_sys\<lparr>rn := r, starting := [((argv ?a ?p sample_cconfig, 0), False)]\<rparr>"
  have "reachable sample_cconfig ?s"
    using ran[OF reachable.init action_step.start[of ?a ?p sample_cconfig 5 init_sys r]] l
    by (simp add: init_sys_def newRunner_def)
  from one_run_at_a_time[OF this, of ?a ?p 6] l show ?thesis
    by (intro exI[of _ ?s] exI[of _ r]) (simp add: jobs_def)
qed

lemma output_feed_witness:
  "last (ring (emit ''stdout'' ''hello'' 7 (rn init_sys))) = \<lparr>Seq = 1, At = 7, Stream = ''stdout'', Text = ''hello''\<rparr>"
  using output_feed[OF reachable.init, of "''stdout''" "''hello''" 7] by (simp add: init_sys_def newRunner_def)

end
