(* ===== verification/Console_Stack.thy ===== *)
theory Console_Stack
  imports Config "HOL-Library.Multiset"
begin

text \<open>
  \<open>cmd/console/stack.go\<close>: what the console knows of the containers. \<open>docker compose ps\<close> is a result
  passed in: its output, or what it wrote to the standard error and the error of running it.
  \<open>json.Unmarshal\<close> into a list of rows and into one row are the fields \<open>j_rows\<close> and \<open>j_row\<close>. Comparing
  the state with \<open>running\<close> under case folding only meets ASCII letters, since no other letter
  folds to one of that word. The timer that calls \<open>poll\<close> is in \<open>Console_Watch\<close>.
\<close>

record container =
  CName :: string
  CService :: string
  CState :: string
  CHealth :: string
  CStatus :: string

record stackSnapshot =
  Containers :: "container list"
  Workers :: nat
  Up :: bool
  SnapErr :: string
  CheckedAt :: time

record row_codec =
  j_rows :: "bytes \<Rightarrow> container list option"
  j_row :: "bytes \<Rightarrow> container option"

text \<open>The loop over the lines: blank ones and ones that are not an object are passed over.\<close>

definition parse_lines :: "row_codec \<Rightarrow> bytes \<Rightarrow> container list" where
  "parse_lines J raw =
     List.map_filter (\<lambda>l. let l = trim_space l in if length l = 0 then None else j_row J l)
       (split_on CHR 0x0A raw)"

definition parseComposePS :: "row_codec \<Rightarrow> bytes \<Rightarrow> container list" where
  "parseComposePS J raw =
     (let raw = trim_space raw in
      if length raw = 0 then []
      else if hd raw = CHR ''['' then (case j_rows J raw of Some rows \<Rightarrow> rows | None \<Rightarrow> [])
      else parse_lines J raw)"

definition is_running :: "container \<Rightarrow> bool" where
  "is_running c \<longleftrightarrow> map lower_char (CState c) = ''running''"

fun count_up :: "container list \<Rightarrow> nat \<times> bool \<Rightarrow> nat \<times> bool" where
  "count_up [] acc = acc"
| "count_up (c # cs) (workers, up) =
     count_up cs (if CService c = ''worker'' \<and> is_running c then workers + 1 else workers,
                  if is_running c then True else up)"

definition poll :: "row_codec \<Rightarrow> (bytes \<times> err) + bytes \<Rightarrow> time \<Rightarrow> stackSnapshot" where
  "poll J result now =
     (let snap = \<lparr>Containers = [], Workers = 0, Up = False, SnapErr = '''', CheckedAt = now\<rparr> in
      case result of
        Inl (stderr, e) \<Rightarrow>
          (let m = trim_space stderr in snap\<lparr>SnapErr := (if m = '''' then err_text e else m)\<rparr>)
      | Inr stdout \<Rightarrow>
          (let cs = parseComposePS J stdout; (workers, up) = count_up cs (0, False)
           in snap\<lparr>Containers := sort_key CName cs, Workers := workers, Up := up\<rparr>))"

lemma count_up_eq:
  "count_up cs (n, b) =
     (n + length (filter (\<lambda>c. CService c = ''worker'' \<and> is_running c) cs), b \<or> (\<exists>c \<in> set cs. is_running c))"
  by (induction cs arbitrary: n b) auto

lemma map_filter_lines:
  assumes "\<forall>l \<in> set ls. trim_space l = l \<and> l \<noteq> []"
  shows "List.map_filter (\<lambda>l. let l = trim_space l in if length l = 0 then None else g l) ls = List.map_filter g ls"
  using assms by (induction ls) (auto simp: List.map_filter_simps Let_def split: option.split)

lemma map_filter_Some: "(\<forall>x \<in> set xs. f (h x) = Some x) \<Longrightarrow> List.map_filter f (map h xs) = xs"
  by (induction xs) (auto simp: List.map_filter_simps)

lemma split_join:
  assumes "ls \<noteq> []" and "\<forall>l \<in> set ls. sep \<notin> set l"
  shows "split_on sep (join [sep] ls) = ls"
  using assms
proof (induction "[sep]" ls rule: join.induct)
  case (2 w)
  then show ?case by (simp add: split_on_no_sep)
next
  case (3 w v vs)
  have "split_on sep (w @ sep # x) = w # split_on sep x" if "sep \<notin> set w" for x
    using that by (induction w) (auto split: list.splits)
  with 3 show ?case by simp
qed simp

text \<open>
  Both shapes of \<open>docker compose ps\<close> are read alike. If the decoder reads a text as the list of
  rows \<open>cs\<close>, and one line per row as that row, then a snapshot taken from the array and one
  taken from the lines are the same: it lists every container once, by name, counts the running
  workers and says whether anything runs. A failed command gives an empty stack and a reason.
\<close>

theorem poll_shapes_agree:
  assumes "j_rows J arr = Some cs" and "trim_space arr = arr" and "hd arr = CHR ''[''" and "arr \<noteq> ''''"
    and "\<forall>c \<in> set cs. j_row J (enc c) = Some c \<and> enc c \<noteq> '''' \<and> trim_space (enc c) = enc c \<and>
           CHR 0x0A \<notin> set (enc c) \<and> hd (enc c) \<noteq> CHR ''[''"
    and "lines1 = join [CHR 0x0A] (map enc cs)" and "trim_space lines1 = lines1" and "cs \<noteq> []"
  shows "poll J (Inr lines1) now = poll J (Inr arr) now \<and>
    mset (Containers (poll J (Inr arr) now)) = mset cs \<and>
    sorted (map CName (Containers (poll J (Inr arr) now))) \<and>
    Workers (poll J (Inr arr) now) = length (filter (\<lambda>c. CService c = ''worker'' \<and> is_running c) cs) \<and>
    (Up (poll J (Inr arr) now) \<longleftrightarrow> (\<exists>c \<in> set cs. is_running c)) \<and>
    (\<forall>stderr e. err_text e \<noteq> '''' \<longrightarrow> SnapErr (poll J (Inl (stderr, e)) now) \<noteq> '''' \<and> \<not> Up (poll J (Inl (stderr, e)) now))"
proof -
  obtain c cs' where c: "cs = c # cs'" using assms(8) by (cases cs) auto
  have a: "parseComposePS J arr = cs" using assms(1-4) by (simp add: parseComposePS_def)
  have "hd lines1 = hd (enc c)" "lines1 \<noteq> []" using assms(5,6) by (cases cs'; simp add: c)+
  then have "parseComposePS J lines1 = parse_lines J lines1"
    using assms(5,7) by (simp add: parseComposePS_def c)
  also have "\<dots> = List.map_filter (\<lambda>l. let l = trim_space l in if length l = 0 then None else j_row J l) (map enc cs)"
    unfolding parse_lines_def assms(6) by (subst split_join) (use assms(5,8) in auto)
  also have "\<dots> = List.map_filter (j_row J) (map enc cs)"
    by (rule map_filter_lines) (use assms(5) in auto)
  also have "\<dots> = cs" using assms(5) by (simp add: map_filter_Some)
  finally have l: "parseComposePS J lines1 = cs" .
  show ?thesis by (simp add: poll_def Let_def a l count_up_eq)
qed

definition sample_rows :: row_codec where
  "sample_rows =
     \<lparr>j_rows = (\<lambda>b. Some [\<lparr>CName = ''w1'', CService = ''worker'', CState = ''Running'', CHealth = '''', CStatus = ''''\<rparr>]),
      j_row = (\<lambda>b. Some \<lparr>CName = ''w1'', CService = ''worker'', CState = ''Running'', CHealth = '''', CStatus = ''''\<rparr>)\<rparr>"

lemma poll_shapes_agree_witness:
  "Workers (poll sample_rows (Inr ''[x]'') 3) = 1 \<and> poll sample_rows (Inr ''{x}'') 3 = poll sample_rows (Inr ''[x]'') 3"
proof -
  have t: "trim_space ''[x]'' = ''[x]''" "trim_space ''{x}'' = ''{x}''" by code_simp+
  have r: "is_running \<lparr>CName = ''w1'', CService = ''worker'', CState = ''Running'', CHealth = '''', CStatus = ''''\<rparr>"
    by code_simp
  show ?thesis
    using poll_shapes_agree[of sample_rows "''[x]''" _ "\<lambda>_. ''{x}''" "''{x}''" 3] t r
    by (simp add: sample_rows_def)
qed

end
