(* ===== verification/Console_Prom.thy ===== *)
theory Console_Prom
  imports Go_Float "HOL-Library.Multiset"
begin

text \<open>
  \<open>cmd/console/prom.go\<close>: the metrics on the console's page. The HTTP client, URL encoding, the JSON
  decoder and \<open>strconv.ParseFloat\<close> are the fields of \<open>prom\<close>; a body is what the decoder makes of the
  answer. The goroutines of \<open>snapshot\<close> each run one query and then record its result under the
  mutex, so a snapshot is a fold over the queries in the order in which they take it.
\<close>

record instant_body =
  i_status :: string
  i_result :: "bytes list"

record range_body =
  r_status :: string
  r_result :: "(bytes \<times> bytes) list list"

record prom =
  p_base :: string
  p_encode :: "(string \<times> string) list \<Rightarrow> string"
  p_build :: "string \<Rightarrow> err option"
  p_do :: "string \<Rightarrow> (nat \<times> string \<times> bytes) res"
  p_instant :: "bytes \<Rightarrow> instant_body res"
  p_range :: "bytes \<Rightarrow> range_body res"
  p_string :: "bytes \<Rightarrow> string option"
  p_number :: "bytes \<Rightarrow> f64 option"
  p_parse :: "string \<Rightarrow> f64 option"

section \<open>The queries\<close>

record tile =
  t_key :: string
  t_label :: string
  t_query :: string
  t_unit :: string

definition mk_tile :: "string \<Rightarrow> string \<Rightarrow> string \<Rightarrow> string \<Rightarrow> tile" where
  "mk_tile k l q u = \<lparr>t_key = k, t_label = l, t_query = q, t_unit = u\<rparr>"

definition tiles :: "tile list" where
  \<open>tiles =
     [mk_tile ''accepted'' ''Accepted'' ''sum(orders_accepted_total)'' ''orders'',
      mk_tile ''persisted'' ''Persisted'' ''sum(orders_processed_total{status="persisted"})'' ''orders'',
      mk_tile ''duplicate'' ''Duplicates'' ''sum(orders_processed_total{status="duplicate"})'' ''orders'',
      mk_tile ''rejected'' ''Rejected'' ''sum(orders_rejected_total)'' ''orders'',
      mk_tile ''dlq'' ''Dead letters'' ''sum(dlq_total)'' ''records'',
      mk_tile ''retries'' ''Retries'' ''sum(retries_total)'' ''attempts'',
      mk_tile ''accept_rate'' ''Accept rate'' ''sum(rate(orders_accepted_total[30s]))'' ''/s'',
      mk_tile ''throughput'' ''Persist rate'' ''sum(rate(orders_processed_total{status="persisted"}[30s]))'' ''/s'',
      mk_tile ''lag'' ''Consumer lag'' ''sum(kafka_consumergroup_lag{consumergroup="order-processors"})'' ''records'',
      mk_tile ''partitions_owned'' ''Partitions owned'' ''sum(consumer_partitions_owned)'' '''',
      mk_tile ''partitions_paused'' ''Partitions paused'' ''sum(consumer_partitions_paused)'' '''',
      mk_tile ''p99_accept'' ''p99 produce''
        ''histogram_quantile(0.99, sum by (le) (rate(kafka_produce_duration_seconds_bucket[1m])))'' ''s'',
      mk_tile ''p99_persist'' ''p99 persist''
        ''histogram_quantile(0.99, sum by (le) (rate(order_processing_duration_seconds_bucket{status="persisted"}[1m])))'' ''s'',
      mk_tile ''p99_e2e'' ''p99 end-to-end''
        ''histogram_quantile(0.99, sum by (le) (rate(order_end_to_end_latency_seconds_bucket[1m])))'' ''s'']\<close>

definition sparks :: "(string \<times> string) list" where
  \<open>sparks =
     [(''lag'', ''sum(kafka_consumergroup_lag{consumergroup="order-processors"})''),
      (''throughput'', ''sum(rate(orders_processed_total{status="persisted"}[30s]))''),
      (''accept_rate'', ''sum(rate(orders_accepted_total[30s]))'')]\<close>

section \<open>One query\<close>

definition get :: "prom \<Rightarrow> string \<Rightarrow> (string \<times> string) list \<Rightarrow> (bytes \<Rightarrow> 'b res) \<Rightarrow> 'b res" where
  "get P path params decode =
     (let url = p_base P @ path @ ''?'' @ p_encode P params in
      case p_build P url of
        Some e \<Rightarrow> Inl e
      | None \<Rightarrow>
          (case p_do P url of
             Inl e \<Rightarrow> Inl (OtherErr (''prometheus unreachable at '' @ p_base P))
           | Inr (code, status, body) \<Rightarrow>
               if code \<noteq> 200 then Inl (OtherErr (''prometheus returned '' @ status)) else decode body))"

definition parseSample :: "prom \<Rightarrow> bytes \<Rightarrow> f64 option" where
  "parseSample P raw =
     (case p_string P raw of
        None \<Rightarrow> None
      | Some s \<Rightarrow> (case p_parse P s of None \<Rightarrow> None | Some f \<Rightarrow> if is_finite f then Some f else None))"

definition instant :: "prom \<Rightarrow> string \<Rightarrow> f64 option res" where
  "instant P q =
     (case get P ''/api/v1/query'' [(''query'', q)] (p_instant P) of
        Inl e \<Rightarrow> Inl e
      | Inr body \<Rightarrow>
          if i_status body \<noteq> ''success'' \<or> length (i_result body) = 0 then Inr None
          else Inr (parseSample P (hd (i_result body))))"

definition range_pairs :: "prom \<Rightarrow> (bytes \<times> bytes) list \<Rightarrow> (f64 \<times> f64) list" where
  "range_pairs P =
     List.map_filter (\<lambda>(t, v). case p_number P t of None \<Rightarrow> None
                         | Some ts \<Rightarrow> map_option (\<lambda>f. (ts, f)) (parseSample P v))"

definition rangeQuery :: "prom \<Rightarrow> string \<Rightarrow> int \<Rightarrow> int \<Rightarrow> int \<Rightarrow> (f64 \<times> f64) list res" where
  "rangeQuery P q start end_s step =
     (case get P ''/api/v1/query_range''
             [(''query'', q), (''start'', itoa start), (''end'', itoa end_s), (''step'', itoa step @ ''s'')] (p_range P) of
        Inl e \<Rightarrow> Inl e
      | Inr body \<Rightarrow>
          if r_status body \<noteq> ''success'' \<or> length (r_result body) = 0 then Inr []
          else Inr (range_pairs P (hd (r_result body))))"

section \<open>The snapshot\<close>

record tileValue =
  v_label :: string
  v_unit :: string
  v_value :: "f64 option"

record promSnapshot =
  Tiles :: "string \<rightharpoonup> tileValue"
  Sparks :: "string \<rightharpoonup> (f64 \<times> f64) list"
  Reachable :: bool
  PErr :: string

datatype query = Tile tile | Spark string string

record collecting =
  g_tiles :: "string \<rightharpoonup> tileValue"
  g_sparks :: "string \<rightharpoonup> (f64 \<times> f64) list"
  g_err :: "err option"

definition first_err :: "err option \<Rightarrow> 'a res \<Rightarrow> err option" where
  "first_err old r = (case (r, old) of (Inl e, None) \<Rightarrow> Some e | _ \<Rightarrow> old)"

text \<open>What one goroutine records; a query that failed has the zero value.\<close>

definition record_query :: "prom \<Rightarrow> int \<Rightarrow> int \<Rightarrow> query \<Rightarrow> collecting \<Rightarrow> collecting" where
  "record_query P start end_s q g =
     (case q of
        Tile t \<Rightarrow>
          (let r = instant P (t_query t) in
           g\<lparr>g_err := first_err (g_err g) r,
             g_tiles := (g_tiles g)(t_key t \<mapsto> \<lparr>v_label = t_label t, v_unit = t_unit t,
                                              v_value = (case r of Inl _ \<Rightarrow> None | Inr v \<Rightarrow> v)\<rparr>)\<rparr>)
      | Spark key qs \<Rightarrow>
          (let r = rangeQuery P qs start end_s 10 in
           g\<lparr>g_err := first_err (g_err g) r,
             g_sparks := (g_sparks g)(key \<mapsto> (case r of Inl _ \<Rightarrow> [] | Inr xs \<Rightarrow> xs))\<rparr>))"

definition queries :: "query list" where
  "queries = map Tile tiles @ map (\<lambda>(k, q). Spark k q) sparks"

definition snapshot :: "prom \<Rightarrow> int \<Rightarrow> query list \<Rightarrow> promSnapshot" where
  "snapshot P end_s finished =
     (let g = fold (record_query P (end_s - 300) end_s) finished \<lparr>g_tiles = Map.empty, g_sparks = Map.empty, g_err = None\<rparr>
      in \<lparr>Tiles = g_tiles g, Sparks = g_sparks g, Reachable = (g_err g = None),
          PErr = (case g_err g of None \<Rightarrow> '''' | Some e \<Rightarrow> err_text e)\<rparr>)"

section \<open>Properties\<close>

definition tile_value :: "prom \<Rightarrow> tile \<Rightarrow> tileValue" where
  "tile_value P t =
     \<lparr>v_label = t_label t, v_unit = t_unit t, v_value = (case instant P (t_query t) of Inl _ \<Rightarrow> None | Inr v \<Rightarrow> v)\<rparr>"

definition spark_value :: "prom \<Rightarrow> int \<Rightarrow> int \<Rightarrow> string \<Rightarrow> (f64 \<times> f64) list" where
  "spark_value P start end_s q = (case rangeQuery P q start end_s 10 of Inl _ \<Rightarrow> [] | Inr xs \<Rightarrow> xs)"

text \<open>The error of a query, if it has one.\<close>

definition query_err :: "prom \<Rightarrow> int \<Rightarrow> int \<Rightarrow> query \<Rightarrow> err option" where
  "query_err P start end_s q =
     (case q of Tile t \<Rightarrow> (case instant P (t_query t) of Inl e \<Rightarrow> Some e | Inr _ \<Rightarrow> None)
      | Spark k qs \<Rightarrow> (case rangeQuery P qs start end_s 10 of Inl e \<Rightarrow> Some e | Inr _ \<Rightarrow> None))"

lemma record_query_simps:
  "g_tiles (record_query P s e (Tile t) g) = (g_tiles g)(t_key t \<mapsto> tile_value P t)"
  "g_tiles (record_query P s e (Spark k q) g) = g_tiles g"
  "g_sparks (record_query P s e (Spark k q) g) = (g_sparks g)(k \<mapsto> spark_value P s e q)"
  "g_sparks (record_query P s e (Tile t) g) = g_sparks g"
  by (simp_all add: record_query_def Let_def tile_value_def spark_value_def)

lemma record_query_err:
  "g_err (record_query P s e q g) = (case g_err g of Some x \<Rightarrow> Some x | None \<Rightarrow> query_err P s e q)"
  by (simp add: record_query_def Let_def first_err_def query_err_def split: query.split sum.split option.split)

lemma fold_tile:
  "\<lbrakk>Tile t \<in> set xs; \<And>t'. Tile t' \<in> set xs \<Longrightarrow> t_key t' = t_key t \<Longrightarrow> t' = t\<rbrakk> \<Longrightarrow>
   g_tiles (fold (record_query P s e) xs g) (t_key t) = Some (tile_value P t)"
proof (induction xs rule: rev_induct)
  case (snoc x xs)
  have IH: "g_tiles (fold (record_query P s e) xs g) (t_key t) = Some (tile_value P t)" if "Tile t \<in> set xs"
    by (rule snoc.IH[OF that]) (rule snoc.prems(2), simp_all)
  show ?case
  proof (cases x)
    case (Tile t')
    then show ?thesis using IH snoc.prems(1) snoc.prems(2)[of t']
      by (cases "t_key t' = t_key t") (auto simp: record_query_simps)
  next
    case (Spark k q)
    then show ?thesis using IH snoc.prems(1) by (simp add: record_query_simps)
  qed
qed simp

lemma fold_spark:
  "\<lbrakk>Spark k q \<in> set xs; \<And>q'. Spark k q' \<in> set xs \<Longrightarrow> q' = q\<rbrakk> \<Longrightarrow>
   g_sparks (fold (record_query P s e) xs g) k = Some (spark_value P s e q)"
proof (induction xs rule: rev_induct)
  case (snoc x xs)
  have IH: "g_sparks (fold (record_query P s e) xs g) k = Some (spark_value P s e q)" if "Spark k q \<in> set xs"
    by (rule snoc.IH[OF that]) (rule snoc.prems(2), simp)
  show ?case
  proof (cases x)
    case (Spark k' q')
    then show ?thesis using IH snoc.prems(1) snoc.prems(2)[of q']
      by (cases "k' = k") (auto simp: record_query_simps)
  next
    case (Tile t)
    then show ?thesis using IH snoc.prems(1) by (simp add: record_query_simps)
  qed
qed simp

lemma fold_doms:
  "dom (g_tiles (fold (record_query P s e) xs g)) = dom (g_tiles g) \<union> {t_key t |t. Tile t \<in> set xs}"
  "dom (g_sparks (fold (record_query P s e) xs g)) = dom (g_sparks g) \<union> {k. \<exists>q. Spark k q \<in> set xs}"
proof (induction xs arbitrary: g)
  case (Cons x xs)
  { case 1 show ?case using Cons(1)[of "record_query P s e x g"] by (cases x) (auto simp: record_query_simps split: if_splits) }
  { case 2 show ?case using Cons(2)[of "record_query P s e x g"] by (cases x) (auto simp: record_query_simps split: if_splits) }
qed simp_all

lemma map_filter_Nil_iff: "List.map_filter f xs = [] \<longleftrightarrow> (\<forall>x \<in> set xs. f x = None)"
  by (induction xs) (auto simp: List.map_filter_simps split: option.splits)

lemma fold_err:
  "g_err (fold (record_query P s e) xs g) =
     (case g_err g of Some x \<Rightarrow> Some x
      | None \<Rightarrow> (case List.map_filter (query_err P s e) xs of [] \<Rightarrow> None | x # _ \<Rightarrow> Some x))"
  by (induction xs arbitrary: g) (auto simp: record_query_err List.map_filter_simps split: option.split)

lemma parseSample_finite: "parseSample P raw = Some f \<Longrightarrow> is_finite f"
  by (auto simp: parseSample_def split: option.splits if_splits)

lemma range_pairs_finite: "(t, f) \<in> set (range_pairs P xs) \<Longrightarrow> is_finite f"
  by (auto simp: range_pairs_def List.map_filter_def dest!: parseSample_finite split: option.splits)

lemma tile_finite: "v_value (tile_value P t) = Some f \<Longrightarrow> is_finite f"
  by (auto simp: tile_value_def instant_def dest: parseSample_finite split: sum.splits if_splits)

lemma spark_finite: "(t, f) \<in> set (spark_value P s e q) \<Longrightarrow> is_finite f"
  by (auto simp: spark_value_def rangeQuery_def dest: range_pairs_finite split: sum.splits if_splits)

lemma queries_keys:
  "Tile t \<in> set queries \<longleftrightarrow> t \<in> set tiles" "Spark k q \<in> set queries \<longleftrightarrow> (k, q) \<in> set sparks"
  "inj_on t_key (set tiles)" "inj_on fst (set sparks)"
  by (auto simp: queries_def) (simp_all add: tiles_def sparks_def mk_tile_def)

text \<open>
  The page does not depend on the race. In whatever order the seventeen queries end, a snapshot
  has a value for exactly the fourteen tiles and the three charts, each the answer to its own
  query; no value shown is NaN or infinite; and it is called reachable exactly if no query
  failed, otherwise with the text of the error of one that did.
\<close>

theorem snapshot_order:
  assumes "mset finished = mset queries"
  shows "dom (Tiles (snapshot P now finished)) = t_key ` set tiles \<and>
    (\<forall>t \<in> set tiles. Tiles (snapshot P now finished) (t_key t) = Some (tile_value P t) \<and>
       (\<forall>f. v_value (tile_value P t) = Some f \<longrightarrow> is_finite f)) \<and>
    dom (Sparks (snapshot P now finished)) = fst ` set sparks \<and>
    (\<forall>(k, q) \<in> set sparks. Sparks (snapshot P now finished) k = Some (spark_value P (now - 300) now q) \<and>
       (\<forall>(ts, f) \<in> set (spark_value P (now - 300) now q). is_finite f)) \<and>
    (Reachable (snapshot P now finished) \<longleftrightarrow> (\<forall>q \<in> set queries. query_err P (now - 300) now q = None)) \<and>
    (\<not> Reachable (snapshot P now finished) \<longrightarrow>
       (\<exists>q \<in> set queries. \<exists>e. query_err P (now - 300) now q = Some e \<and> PErr (snapshot P now finished) = err_text e))"
proof -
  let ?g0 = "\<lparr>g_tiles = Map.empty, g_sparks = Map.empty, g_err = None\<rparr>"
  let ?f = "fold (record_query P (now - 300) now) finished ?g0"
  have st: "set finished = set queries" using assms by (rule mset_eq_setD)
  have "g_tiles ?f (t_key t) = Some (tile_value P t)" if "t \<in> set tiles" for t
    by (rule fold_tile) (use that st queries_keys(1) inj_onD[OF queries_keys(3)] in auto)
  moreover have "g_sparks ?f k = Some (spark_value P (now - 300) now q)" if "(k, q) \<in> set sparks" for k q
    by (rule fold_spark) (use that st queries_keys(2) inj_onD[OF queries_keys(4)] in fastforce)+
  moreover have "dom (g_tiles ?f) = t_key ` set tiles" "dom (g_sparks ?f) = fst ` set sparks"
    using queries_keys(1,2) by (auto simp: fold_doms st image_iff) force
  moreover have e: "g_err ?f = (case List.map_filter (query_err P (now - 300) now) finished of [] \<Rightarrow> None | x # _ \<Rightarrow> Some x)"
    by (simp add: fold_err)
  have "(g_err ?f = None) = (\<forall>q \<in> set queries. query_err P (now - 300) now q = None)"
    unfolding e st[symmetric] map_filter_Nil_iff[symmetric] by (simp split: list.split)
  moreover have "\<exists>q \<in> set queries. query_err P (now - 300) now q = Some x" if "g_err ?f = Some x" for x
  proof -
    have "x \<in> set (List.map_filter (query_err P (now - 300) now) finished)"
      using that e by (auto split: list.splits)
    then show ?thesis by (auto simp: List.map_filter_def st)
  qed
  ultimately show ?thesis
    using tile_finite spark_finite
    by (auto simp: snapshot_def Let_def split: option.split) blast
qed

definition sample_prom :: prom where
  "sample_prom =
     \<lparr>p_base = '''', p_encode = (\<lambda>_. ''''), p_build = (\<lambda>_. None), p_do = (\<lambda>_. Inr (200, ''200 OK'', '''')),
      p_instant = (\<lambda>_. Inr \<lparr>i_status = ''success'', i_result = [''NaN'']\<rparr>),
      p_range = (\<lambda>_. Inr \<lparr>r_status = ''success'', r_result = []\<rparr>),
      p_string = Some, p_number = (\<lambda>_. None), p_parse = (\<lambda>_. Some NaN)\<rparr>"

lemma snapshot_order_witness:
  "Tiles (snapshot sample_prom 900 (rev queries)) ''lag'' = Some \<lparr>v_label = ''Consumer lag'', v_unit = ''records'', v_value = None\<rparr>"
proof -
  let ?t = "tiles ! 8"
  have t: "?t \<in> set tiles" "t_key ?t = ''lag''" "t_label ?t = ''Consumer lag''" "t_unit ?t = ''records''"
    by (simp_all add: tiles_def mk_tile_def)
  have "mset (rev queries) = mset queries" by simp
  from snapshot_order[OF this, of sample_prom 900] t
  have "Tiles (snapshot sample_prom 900 (rev queries)) ''lag'' = Some (tile_value sample_prom ?t)" by metis
  then show ?thesis using t by (simp add: tile_value_def instant_def get_def parseSample_def sample_prom_def is_finite_def Let_def)
qed

end
