(* ===== verification/Console_Server.thy ===== *)
theory Console_Server
  imports Console_Auth Console_Runner Console_Stack Console_Prom Api
begin

text \<open>
  \<open>cmd/console/api.go\<close>: the HTTP handlers of the console. The state is the table of login failures,
  the runner and the stack watcher's last snapshot; a handler returns its response and, for login
  and logout, the cookie it sets.
  \<open>decode\<close> into the body of a login and of a run are the fields \<open>dec_login\<close> and \<open>dec_run\<close> of \<open>console\<close>,
  which stand for the strict JSON decoder on the first 64 KiB of the body. \<open>start\<close> is taken here as
  one call; what other goroutines can do between its parts is in \<open>Console_Runner\<close>. \<open>k_ended\<close> is the order in which the
  queries of the metrics end. A nil slice and an empty one are both an empty array of the response.
  The event stream is in \<open>Console_Stream\<close>; the page and its files are not modelled.
\<close>

record console =
  k_cfg :: cconfig
  k_hmac :: "bytes \<Rightarrow> bytes \<Rightarrow> bytes"
  k_bcrypt :: "bytes \<Rightarrow> bytes \<Rightarrow> bool"
  k_fmt :: numfmt
  k_ranged :: "action list"
  k_time :: "time \<Rightarrow> string"
  dec_login :: "bytes \<Rightarrow> string option"
  dec_run :: "bytes \<Rightarrow> (string \<times> (string \<rightharpoonup> string)) option"
  k_prom :: prom
  k_ended :: "query list"

record cstate =
  c_failures :: failures
  c_runner :: runner
  c_stack :: stackSnapshot

type_synonym reply = "response \<times> cookie option"

definition json_error :: "nat \<Rightarrow> string \<Rightarrow> reply" where
  "json_error status msg = (writeJSON status (JObj [(''error'', JStr msg)]), None)"

definition malformed :: string where "malformed = ''malformed request body''"

text \<open>\<open>csrf\<close> and \<open>require\<close> around a handler that may change the state.\<close>

definition csrf :: "request \<Rightarrow> (cstate \<Rightarrow> reply \<times> cstate) \<Rightarrow> cstate \<Rightarrow> reply \<times> cstate" where
  "csrf r handler s =
     (if hdr r ''X-Console-Request'' \<noteq> ''1'' then (json_error 403 ''bad request origin'', s) else handler s)"

definition required :: "console \<Rightarrow> request \<Rightarrow> time \<Rightarrow> (cstate \<Rightarrow> reply \<times> cstate) \<Rightarrow> cstate \<Rightarrow> reply \<times> cstate" where
  "required K r now handler s =
     (case require (k_hmac K) (k_cfg K) (\<lambda>_. handler s) r now of
        Inl e \<Rightarrow> (json_error (err_status e) (err_msg e), s)
      | Inr x \<Rightarrow> x)"

definition h_session :: "console \<Rightarrow> request \<Rightarrow> time \<Rightarrow> cstate \<Rightarrow> reply \<times> cstate" where
  "h_session K r now s =
     ((writeJSON 200 (JObj [(''authenticated'', JBool (valid (k_hmac K) (k_cfg K) r now))]), None), s)"

definition h_login :: "console \<Rightarrow> request \<Rightarrow> bytes \<Rightarrow> time \<Rightarrow> time \<Rightarrow> cstate \<Rightarrow> reply \<times> cstate" where
  "h_login K r body t1 t2 s =
     (case dec_login K body of
        None \<Rightarrow> (json_error 400 malformed, s)
      | Some password \<Rightarrow>
          (case login (k_hmac K) (k_bcrypt K) (k_cfg K) r password t1 t2 (c_failures s) of
             (Inl e, fs) \<Rightarrow> (json_error (err_status e) (err_msg e), s\<lparr>c_failures := fs\<rparr>)
           | (Inr c, fs) \<Rightarrow> ((writeJSON 200 (JObj [(''authenticated'', JBool True)]), Some c), s\<lparr>c_failures := fs\<rparr>)))"

definition h_logout :: "console \<Rightarrow> request \<Rightarrow> cstate \<Rightarrow> reply \<times> cstate" where
  "h_logout K r s =
     ((writeJSON 200 (JObj [(''authenticated'', JBool False)]), Some (logout (k_cfg K) r)), s)"

definition kind_text :: "paramKind \<Rightarrow> string" where
  "kind_text k = (case k of paramNumber \<Rightarrow> ''number'' | paramChoice \<Rightarrow> ''choice'')"

definition param_json :: "cconfig \<Rightarrow> action \<Rightarrow> param \<Rightarrow> json" where
  "param_json cfg a p =
     JObj [(''name'', JStr (PName p)), (''label'', JStr (PLabel p)), (''kind'', JStr (kind_text (PKind p))),
           (''default'', JStr (PDefault p)), (''choices'', JArr (map JStr (PChoices p))),
           (''min'', JFloat (PMin p)), (''max'', JFloat (ceiling_of a p cfg)), (''unit'', JStr (PUnit p))]"

definition action_json :: "cconfig \<Rightarrow> action \<Rightarrow> json" where
  "action_json cfg a =
     JObj [(''id'', JStr (ID a)), (''label'', JStr (Label a)), (''group'', JStr (Group a)),
           (''summary'', JStr (Summary a)), (''destructive'', JBool (Destructive a)),
           (''params'', JArr (map (param_json cfg a) (Params a)))]"

definition h_listActions :: "console \<Rightarrow> cstate \<Rightarrow> reply \<times> cstate" where
  "h_listActions K s =
     ((writeJSON 200 (JObj [(''actions'', JArr (map (action_json (k_cfg K)) (actionList (k_ranged K))))]), None), s)"

definition runState_json :: "(time \<Rightarrow> string) \<Rightarrow> runState \<Rightarrow> json" where
  "runState_json fmt_time st =
     JObj ([(''action_id'', JStr (ActionID st)), (''label'', JStr (RLabel st)), (''command'', JStr (Command st)),
            (''running'', JBool (Running st)), (''started'', JStr (fmt_time (Started st))),
            (''ended'', JStr (fmt_time (Ended st))), (''exit_code'', JInt (ExitCode st))] @
           (if Err st = '''' then [] else [(''err'', JStr (Err st))]))"

definition h_runAction :: "console \<Rightarrow> bytes \<Rightarrow> time \<Rightarrow> cstate \<Rightarrow> reply \<times> cstate" where
  "h_runAction K body now s =
     (case dec_run K body of
        None \<Rightarrow> (json_error 400 malformed, s)
      | Some (i, params) \<Rightarrow>
          (case find_action (k_fmt K) i of
             None \<Rightarrow> (json_error 404 ''no such action'', s)
           | Some a \<Rightarrow>
               (case validate (k_fmt K) a params (k_cfg K) of
                  Inl e \<Rightarrow> (json_error 400 (err_text e), s)
                | Inr p \<Rightarrow>
                    (case start a p (k_cfg K) now (c_runner s) of
                       (Some e, r) \<Rightarrow> (json_error (if errors_is e errBusy then 409 else 500) (err_text e), s\<lparr>c_runner := r\<rparr>)
                     | (None, r) \<Rightarrow> ((writeJSON 202 (runState_json (k_time K) (fst (Console_Runner.snapshot r))), None), s\<lparr>c_runner := r\<rparr>)))))"

definition h_stopAction :: "time \<Rightarrow> cstate \<Rightarrow> reply \<times> cstate" where
  "h_stopAction now s =
     (case stop now (c_runner s) of
        (Some e, r) \<Rightarrow> (json_error 409 (err_text e), s\<lparr>c_runner := r\<rparr>)
      | (None, r) \<Rightarrow> ((writeJSON 200 (JObj [(''stopping'', JBool True)]), None), s\<lparr>c_runner := r\<rparr>))"

text \<open>The parts of the state: the stack, the metrics and the run. A map is written with its keys in order.\<close>

definition container_json :: "container \<Rightarrow> json" where
  "container_json c =
     JObj ([(''name'', JStr (CName c)), (''service'', JStr (CService c)), (''state'', JStr (CState c))] @
           (if CHealth c = '''' then [] else [(''health'', JStr (CHealth c))]) @ [(''status'', JStr (CStatus c))])"

definition stack_json :: "(time \<Rightarrow> string) \<Rightarrow> stackSnapshot \<Rightarrow> json" where
  "stack_json fmt_time s =
     JObj ([(''containers'', JArr (map container_json (Containers s))), (''workers'', JInt (int (Workers s))),
            (''up'', JBool (Up s))] @ (if SnapErr s = '''' then [] else [(''err'', JStr (SnapErr s))]) @
           [(''checked_at'', JStr (fmt_time (CheckedAt s)))])"

definition map_json :: "('v \<Rightarrow> json) \<Rightarrow> string list \<Rightarrow> (string \<rightharpoonup> 'v) \<Rightarrow> json" where
  "map_json enc keys m =
     JObj (List.map_filter (\<lambda>k. map_option (\<lambda>v. (k, enc v)) (m k)) (sort keys))"

definition tile_json :: "tileValue \<Rightarrow> json" where
  "tile_json v =
     JObj [(''label'', JStr (v_label v)), (''unit'', JStr (v_unit v)),
           (''value'', case v_value v of None \<Rightarrow> JNull | Some f \<Rightarrow> JFloat f)]"

definition series_json :: "(f64 \<times> f64) list \<Rightarrow> json" where
  "series_json xs = JArr (map (\<lambda>(t, f). JArr [JFloat t, JFloat f]) xs)"

definition prom_json :: "promSnapshot \<Rightarrow> json" where
  "prom_json s =
     JObj ([(''tiles'', map_json tile_json (map t_key tiles) (Tiles s)),
            (''sparks'', map_json series_json (map fst sparks) (Sparks s)), (''reachable'', JBool (Reachable s))] @
           (if PErr s = '''' then [] else [(''err'', JStr (PErr s))]))"

definition h_state :: "console \<Rightarrow> time \<Rightarrow> cstate \<Rightarrow> reply \<times> cstate" where
  "h_state K now s =
     ((writeJSON 200
         (JObj [(''stack'', stack_json (k_time K) (c_stack s)),
                (''metrics'', prom_json (Console_Prom.snapshot (k_prom K) (Unix now) (k_ended K))),
                (''run'', runState_json (k_time K) (fst (Console_Runner.snapshot (c_runner s))))]), None), s)"

section \<open>Routes\<close>

datatype route = GetSession | PostLogin | PostLogout | GetActions | GetState | PostRun | PostStop

definition serve :: "console \<Rightarrow> route \<Rightarrow> request \<Rightarrow> bytes \<Rightarrow> time \<Rightarrow> time \<Rightarrow> cstate \<Rightarrow> reply \<times> cstate" where
  "serve K rt r body t1 t2 =
     (case rt of
        GetSession \<Rightarrow> h_session K r t1
      | PostLogin \<Rightarrow> csrf r (h_login K r body t1 t2)
      | PostLogout \<Rightarrow> csrf r (h_logout K r)
      | GetActions \<Rightarrow> required K r t1 (h_listActions K)
      | GetState \<Rightarrow> required K r t1 (h_state K t2)
      | PostRun \<Rightarrow> csrf r (required K r t1 (h_runAction K body t2))
      | PostStop \<Rightarrow> csrf r (required K r t1 (h_stopAction t2)))"

section \<open>Properties\<close>

text \<open>The runner changes only behind both guards, and only through \<open>start\<close> and \<open>stop\<close>.\<close>

lemma runAction_cases:
  assumes "h_runAction K body now s = (rep, s')"
  shows "c_failures s' = c_failures s \<and>
    (c_runner s' = c_runner s \<or>
     (\<exists>i params a p. dec_run K body = Some (i, params) \<and> find_action (k_fmt K) i = Some a \<and>
        validate (k_fmt K) a params (k_cfg K) = Inr p \<and> \<not> Running (rstate (c_runner s)) \<and>
        start a p (k_cfg K) now (c_runner s) = (None, c_runner s') \<and> Status (fst rep) = 202))"
  using assms
  by (auto simp: h_runAction_def json_error_def writeJSON_def start_def start_locked_def
      split: option.splits sum.splits prod.splits if_splits)

lemma stopAction_cases:
  "h_stopAction now s = (rep, s') \<Longrightarrow> c_failures s' = c_failures s \<and>
     (c_runner s' = c_runner s \<or> stop now (c_runner s) = (None, c_runner s'))"
  by (auto simp: h_stopAction_def stop_def split: option.splits prod.splits if_splits)

lemma required_cases:
  assumes "required K r now handler s = (rep, s')"
  shows "(valid (k_hmac K) (k_cfg K) r now \<and> handler s = (rep, s')) \<or>
    (\<not> valid (k_hmac K) (k_cfg K) r now \<and> s' = s \<and> Status (fst rep) = 401)"
  using assms by (auto simp: required_def require_def json_error_def writeJSON_def split: if_splits)

lemma csrf_cases:
  assumes "csrf r handler s = (rep, s')"
  shows "(hdr r ''X-Console-Request'' = ''1'' \<and> handler s = (rep, s')) \<or>
    (hdr r ''X-Console-Request'' \<noteq> ''1'' \<and> s' = s \<and> Status (fst rep) = 403)"
  using assms by (auto simp: csrf_def json_error_def writeJSON_def split: if_splits)

lemma start_command:
  "start a p cfg now r = (None, r') \<Longrightarrow> Running (rstate r') \<and> Command (rstate r') = shellish (argv a p cfg)"
  by (auto simp: start_def start_locked_def announce_def resetRing_def split: option.splits if_splits prod.splits)



definition sample_console :: console where
  "sample_console =
     \<lparr>k_cfg = sample_cconfig, k_hmac = sample_hmac, k_bcrypt = sample_bcrypt, k_fmt = sample_numfmt,
      k_ranged = actions sample_numfmt, k_time = itoa, dec_login = Some,
      dec_run = (\<lambda>b. Some (b, Map.empty)), k_prom = sample_prom, k_ended = queries\<rparr>"

definition sample_cstate :: cstate where
  "sample_cstate =
     \<lparr>c_failures = [], c_runner = newRunner,
      c_stack = \<lparr>Containers = [], Workers = 0, Up = False, SnapErr = '''', CheckedAt = 0\<rparr>\<rparr>"



section \<open>What can be encoded\<close>

text \<open>
  \<open>encoding/json\<close> refuses NaN and the infinities, and \<open>writeJSON\<close> drops the error after the status is
  sent: a body that cannot be encoded reaches the page as an empty one.
\<close>

fun encodable :: "json \<Rightarrow> bool" where
  "encodable (JFloat f) = is_finite f"
| "encodable (JArr xs) = list_all encodable xs"
| "encodable (JObj kvs) = list_all (\<lambda>kv. encodable (snd kv)) kvs"
| "encodable _ = True"

lemma encodable_error [simp]: "encodable (Body (fst (json_error status msg)))"
  by (simp add: json_error_def writeJSON_def)

lemma encodable_writeJSON [simp]: "encodable (Body (writeJSON status j)) = encodable j"
  by (simp add: writeJSON_def)

lemma encodable_runState [simp]: "encodable (runState_json fmt_time st)"
  by (simp add: runState_json_def)

lemma encodable_stack [simp]: "encodable (stack_json fmt_time s)"
  by (simp add: stack_json_def container_json_def list_all_iff)

lemma encodable_map:
  assumes "\<And>k v. m k = Some v \<Longrightarrow> encodable (enc v)"
  shows "encodable (map_json enc keys m)"
  using assms by (auto simp: map_json_def list_all_iff List.map_filter_def)

lemma fold_finite:
  assumes "\<And>raw f. p_number P raw = Some f \<Longrightarrow> is_finite f"
  shows "(\<And>k v. g_tiles g k = Some v \<Longrightarrow> encodable (tile_json v)) \<Longrightarrow> (\<And>k v. g_sparks g k = Some v \<Longrightarrow> encodable (series_json v)) \<Longrightarrow>
    (\<forall>k v. g_tiles (fold (record_query P a b) qs g) k = Some v \<longrightarrow> encodable (tile_json v)) \<and>
    (\<forall>k v. g_sparks (fold (record_query P a b) qs g) k = Some v \<longrightarrow> encodable (series_json v))"
proof (induction qs arbitrary: g)
  case (Cons q qs)
  have t: "encodable (tile_json (tile_value P t))" for t
    by (auto simp: tile_json_def dest: tile_finite split: option.split)
  have "encodable (series_json (range_pairs P xs))" for xs
    by (auto simp: series_json_def list_all_iff range_pairs_def List.map_filter_def assms dest: parseSample_finite split: option.splits)
  then have s: "encodable (series_json (spark_value P a b q))" for q
    by (auto simp: spark_value_def rangeQuery_def series_json_def split: sum.split if_splits)
  show ?case unfolding fold_Cons o_def
    by (rule Cons.IH) (use Cons.prems t s in \<open>cases q; auto simp: record_query_simps split: if_splits\<close>)+
qed simp

lemma encodable_prom:
  assumes "\<And>raw f. p_number P raw = Some f \<Longrightarrow> is_finite f"
  shows "encodable (prom_json (Console_Prom.snapshot P now qs))"
proof -
  let ?g = "\<lparr>g_tiles = Map.empty, g_sparks = Map.empty, g_err = None\<rparr>"
  have "encodable (tile_json v)" if "g_tiles (fold (record_query P (now - 300) now) qs ?g) k = Some v" for k v
    using fold_finite[of P ?g "now - 300" now qs] assms that by fastforce
  moreover have "encodable (series_json v)" if "g_sparks (fold (record_query P (now - 300) now) qs ?g) k = Some v" for k v
    using fold_finite[of P ?g "now - 300" now qs] assms that by fastforce
  ultimately show ?thesis
    by (auto simp: prom_json_def Console_Prom.snapshot_def Let_def intro!: encodable_map)
qed

lemma encodable_actions:
  assumes "MaxLoadRate cfg \<noteq> NegInf"
  shows "(\<forall>a \<in> set (actions nf). encodable (action_json cfg a)) \<longleftrightarrow> MaxLoadRate cfg \<noteq> NaN"
proof -
  have "is_finite (f64_min (Fin 120) (Seconds (MaxLoadDuration cfg)))"
    by (simp add: is_finite_def f64_min_def Seconds_def Let_def)
  moreover have "is_finite (f64_min (Fin 20000) (MaxLoadRate cfg)) \<longleftrightarrow> MaxLoadRate cfg \<noteq> NaN"
    using assms by (cases "MaxLoadRate cfg") (auto simp: is_finite_def f64_min_def)
  ultimately show ?thesis
    by (simp add: actions_def plain_def action_json_def param_json_def ceiling_of_def is_finite_def)
qed

text \<open>
  C27. Every answer of the console is one that can be encoded: an error, the session, the state with
  its metrics, a started or stopped run. The only exception is the list of actions when the rate
  limit of the configuration is NaN: it is answered with status 200 and no body.
\<close>

theorem replies_encodable:
  assumes "serve K rt r body t1 t2 s = (rep, s')" and "mset (k_ranged K) = mset (actions (k_fmt K))"
    and "\<forall>raw f. p_number (k_prom K) raw = Some f \<longrightarrow> is_finite f" and "MaxLoadRate (k_cfg K) \<noteq> NegInf"
  shows "encodable (Body (fst rep)) \<longleftrightarrow>
    \<not> (rt = GetActions \<and> valid (k_hmac K) (k_cfg K) r t1 \<and> MaxLoadRate (k_cfg K) = NaN)"
proof -
  have acts: "encodable (Body (fst (fst (h_listActions K s)))) \<longleftrightarrow> MaxLoadRate (k_cfg K) \<noteq> NaN"
    using encodable_actions[OF assms(4)] mset_eq_setD[OF assms(2)]
    by (simp add: h_listActions_def list_all_iff actionList_def)
  have req: "required K r t1 h s = (if valid (k_hmac K) (k_cfg K) r t1 then h s else (json_error 401 ''not logged in'', s))" for h
    by (simp add: required_def require_def)
  have post: "encodable (Body (fst (fst (h_runAction K body t2 s))))" "encodable (Body (fst (fst (h_stopAction t2 s))))"
    "encodable (Body (fst (fst (h_login K r body t1 t2 s))))" "encodable (Body (fst (fst (h_logout K r s))))"
    "encodable (Body (fst (fst (h_state K t2 s))))" "encodable (Body (fst (fst (h_session K r t1 s))))"
    using encodable_prom[of "k_prom K"] assms(3)
    by (auto simp: h_runAction_def h_stopAction_def h_login_def h_logout_def h_state_def h_session_def
        split: option.split sum.split prod.split)
  have "rep = fst (serve K rt r body t1 t2 s)" using assms(1) by simp
  then show ?thesis using acts post by (cases rt) (auto simp: serve_def csrf_def req)
qed

lemma replies_encodable_witness:
  "\<exists>rep. fst (serve sample_console GetState
       (sample_visitor\<lparr>cookie_value := Some (issue sample_hmac sample_cconfig (9 * second))\<rparr>) '''' 5 6 sample_cstate) = rep \<and>
     encodable (Body (fst rep))"
proof -
  let ?r = "sample_visitor\<lparr>cookie_value := Some (issue sample_hmac sample_cconfig (9 * second))\<rparr>"
  obtain rep s' where p: "serve sample_console GetState ?r '''' 5 6 sample_cstate = (rep, s')" by fastforce
  have "mset (k_ranged sample_console) = mset (actions (k_fmt sample_console))"
    "\<forall>raw f. p_number (k_prom sample_console) raw = Some f \<longrightarrow> is_finite f" "MaxLoadRate (k_cfg sample_console) \<noteq> NegInf"
    by (simp_all add: sample_console_def sample_prom_def sample_cconfig_def)
  from replies_encodable[OF p this] p show ?thesis by simp
qed

end
