(* ===== verification/Console_Stream.thy ===== *)
theory Console_Stream
  imports Console_Server
begin

text \<open>
  \<open>cmd/console/api.go\<close>, \<open>stream\<close> and \<open>writeSSE\<close>: the event stream behind the output pane. A connection
  is the handler of one request: the channel it subscribed, where it is in its code, and what
  was written to the response. Handlers, and the goroutines of the runner, are interleaved at the
  points where they take the runner's mutex or the channel. A handler is the only one to
  receive from its channel and to close it, on its way out, so a receive from a closed channel
  does not occur. \<open>json\<close> is \<open>json.Marshal\<close> of a line. A write that fails leaves no chunk behind. The check
  that the response can be flushed holds for every server of \<open>net/http\<close>.
\<close>

section \<open>Handlers\<close>

datatype phase = Subscribed | Replaying "line list" | Live | Gone

record conn =
  chan :: nat
  phase :: phase
  wrote :: "string list"

definition writeSSE :: "(line \<Rightarrow> string res) \<Rightarrow> bool \<Rightarrow> line \<Rightarrow> string list \<Rightarrow> bool \<times> string list" where
  "writeSSE json ok l w =
     (case json l of
        Inl _ \<Rightarrow> (True, w)
      | Inr payload \<Rightarrow> if ok then (True, w @ [''data: '' @ payload @ [nl, nl]]) else (False, w))"

definition ping_chunk :: string where "ping_chunk = '': ping'' @ [nl, nl]"

text \<open>The loop over the backlog, one line at a time, and the step to the ticker after it.\<close>

definition replay_line :: "(line \<Rightarrow> string res) \<Rightarrow> bool \<Rightarrow> conn \<Rightarrow> conn" where
  "replay_line json ok c =
     (case phase c of
        Replaying [] \<Rightarrow> c\<lparr>phase := Live\<rparr>
      | Replaying (l # ls) \<Rightarrow>
          (let (more, w) = writeSSE json ok l (wrote c)
           in c\<lparr>phase := (if more then Replaying ls else Gone), wrote := w\<rparr>)
      | _ \<Rightarrow> c)"

text \<open>The select: a line from the channel, a tick, or the end of the request.\<close>

definition live_line :: "(line \<Rightarrow> string res) \<Rightarrow> bool \<Rightarrow> line \<Rightarrow> conn \<Rightarrow> conn" where
  "live_line json ok l c =
     (let (more, w) = writeSSE json ok l (wrote c)
      in c\<lparr>phase := (if more then Live else Gone), wrote := w\<rparr>)"

definition live_ping :: "bool \<Rightarrow> conn \<Rightarrow> conn" where
  "live_ping ok c = (if ok then c\<lparr>wrote := wrote c @ [ping_chunk]\<rparr> else c\<lparr>phase := Gone\<rparr>)"

record watch =
  core :: sys
  conns :: "conn list"

text \<open>The deferred unsubscription of a handler that returns.\<close>

definition leave :: "conn \<Rightarrow> runner \<Rightarrow> runner" where
  "leave c r = (if phase c = Gone then unsubscribe (chan c) r else r)"

inductive stream_step :: "cconfig \<Rightarrow> (line \<Rightarrow> string res) \<Rightarrow> watch \<Rightarrow> watch \<Rightarrow> bool" for cfg json where
  run: "action_step cfg (core w) s \<Longrightarrow> stream_step cfg json w (w\<lparr>core := s\<rparr>)"
| connect: "i \<notin> fst ` set (subs (rn (core w))) \<Longrightarrow> i \<notin> chan ` set (conns w) \<Longrightarrow>
    stream_step cfg json w
      (w\<lparr>core := (core w)\<lparr>rn := subscribe i (rn (core w))\<rparr>,
         conns := conns w @ [\<lparr>chan = i, phase = Subscribed, wrote = []\<rparr>]\<rparr>)"
| backlog: "conns w = xs @ c # ys \<Longrightarrow> phase c = Subscribed \<Longrightarrow>
    stream_step cfg json w (w\<lparr>conns := xs @ c\<lparr>phase := Replaying (snd (Console_Runner.snapshot (rn (core w))))\<rparr> # ys\<rparr>)"
| replay: "conns w = xs @ c # ys \<Longrightarrow> phase c = Replaying ls \<Longrightarrow> c' = replay_line json ok c \<Longrightarrow>
    stream_step cfg json w (w\<lparr>core := (core w)\<lparr>rn := leave c' (rn (core w))\<rparr>, conns := xs @ c' # ys\<rparr>)"
| live_recv: "conns w = xs @ c # ys \<Longrightarrow> phase c = Live \<Longrightarrow> subs (rn (core w)) = us @ (chan c, l # ls) # vs \<Longrightarrow>
    c' = live_line json ok l c \<Longrightarrow>
    stream_step cfg json w
      (w\<lparr>core := (core w)\<lparr>rn := leave c' ((rn (core w))\<lparr>subs := us @ (chan c, ls) # vs\<rparr>)\<rparr>, conns := xs @ c' # ys\<rparr>)"
| live_tick: "conns w = xs @ c # ys \<Longrightarrow> phase c = Live \<Longrightarrow> c' = live_ping ok c \<Longrightarrow>
    stream_step cfg json w (w\<lparr>core := (core w)\<lparr>rn := leave c' (rn (core w))\<rparr>, conns := xs @ c' # ys\<rparr>)"
| request_done: "conns w = xs @ c # ys \<Longrightarrow> phase c = Live \<Longrightarrow> c' = c\<lparr>phase := Gone\<rparr> \<Longrightarrow>
    stream_step cfg json w (w\<lparr>core := (core w)\<lparr>rn := leave c' (rn (core w))\<rparr>, conns := xs @ c' # ys\<rparr>)"

inductive stream_reachable :: "cconfig \<Rightarrow> (line \<Rightarrow> string res) \<Rightarrow> watch \<Rightarrow> bool" for cfg json where
  init: "stream_reachable cfg json \<lparr>core = init_sys, conns = []\<rparr>"
| step: "stream_reachable cfg json w \<Longrightarrow> stream_step cfg json w w' \<Longrightarrow> stream_reachable cfg json w'"


section \<open>What a connection has seen\<close>

definition sse :: "(line \<Rightarrow> string res) \<Rightarrow> line \<Rightarrow> string list" where
  "sse json l = (case json l of Inl _ \<Rightarrow> [] | Inr payload \<Rightarrow> [''data: '' @ payload @ [nl, nl]])"

definition seen :: "(line \<Rightarrow> string res) \<Rightarrow> conn \<Rightarrow> line list \<Rightarrow> bool" where
  "seen json c ls \<longleftrightarrow> filter (\<lambda>s. s \<noteq> ping_chunk) (wrote c) = concat (map (sse json) ls)"

text \<open>
  The lines a subscriber got or will get, of those numbered after \<open>n0\<close> up to \<open>n\<close>: in order, and one is
  missing only if 256 others came before it.
\<close>

definition followed :: "nat \<Rightarrow> nat \<Rightarrow> line list \<Rightarrow> bool" where
  "followed n0 n ls \<longleftrightarrow>
     sorted_wrt (<) (map Seq ls) \<and> (\<forall>l \<in> set ls. n0 < Seq l \<and> Seq l \<le> n) \<and>
     (\<forall>k. n0 < k \<and> k \<le> n \<and> k \<notin> Seq ` set ls \<longrightarrow> 256 \<le> length (filter (\<lambda>l. Seq l < k) ls))"

lemma followed_Nil [simp]: "followed n n []"
  by (simp add: followed_def)

lemma followed_keep:
  assumes "followed n0 n ls" and "Seq l = Suc n" and "n0 \<le> n"
  shows "followed n0 (Suc n) (ls @ [l])"
proof -
  have "256 \<le> length (filter (\<lambda>l. Seq l < k) (ls @ [l]))"
    if "n0 < k \<and> k \<le> Suc n \<and> k \<notin> Seq ` set (ls @ [l])" for k
    using assms(1,2) that by (auto simp: followed_def le_Suc_eq)
  moreover have "sorted_wrt (<) (map Seq (ls @ [l]))"
    using assms(1,2) by (auto simp: followed_def sorted_wrt_append)
  moreover have "\<forall>x \<in> set (ls @ [l]). n0 < Seq x \<and> Seq x \<le> Suc n"
    using assms by (auto simp: followed_def)
  ultimately show ?thesis by (auto simp: followed_def)
qed

lemma followed_drop:
  assumes "followed n0 n ls" and "256 \<le> length ls"
  shows "followed n0 (Suc n) ls"
proof -
  have "filter (\<lambda>l. Seq l < Suc n) ls = ls"
    using assms(1) by (intro filter_True) (auto simp: followed_def less_Suc_eq_le)
  with assms show ?thesis by (auto simp: followed_def le_Suc_eq)
qed

text \<open>
  What is known of an open connection: \<open>B\<close> and \<open>R\<close> are the backlog, written and still to be written,
  \<open>D\<close> the lines received, \<open>q\<close> those waiting; \<open>H\<close> gives the line of each number.
\<close>

definition conn_ok :: "(line \<Rightarrow> string res) \<Rightarrow> (nat \<Rightarrow> line) \<Rightarrow> nat \<Rightarrow> line list \<Rightarrow> conn \<Rightarrow> bool" where
  "conn_ok json H n q c \<longleftrightarrow>
     (\<exists>B R D n0 m. seen json c (B @ D) \<and> followed n0 n (D @ q) \<and>
        map Seq (B @ R) = [Suc m - length (B @ R)..<Suc m] \<and> n0 \<le> m \<and> m \<le> n \<and>
        (\<forall>l \<in> set (B @ R @ D @ q). H (Seq l) = l) \<and>
        (case phase c of
           Subscribed \<Rightarrow> B = [] \<and> R = [] \<and> D = []
         | Replaying ls \<Rightarrow> R = ls \<and> D = []
         | _ \<Rightarrow> R = []))"

lemma seen_writeSSE:
  "seen json c ls \<Longrightarrow> writeSSE json ok l (wrote c) = (True, w) \<Longrightarrow> seen json (c\<lparr>phase := p, wrote := w\<rparr>) (ls @ [l])"
  by (auto simp: seen_def writeSSE_def sse_def ping_chunk_def split: sum.splits if_splits)

lemma conn_ok_emit:
  assumes "conn_ok json H n q c" and "Seq l = Suc n"
  shows "conn_ok json (H(Suc n := l)) (Suc n) (snd (offer l (i, q))) c"
proof -
  obtain B R D n0 m where c: "seen json c (B @ D)" "followed n0 n (D @ q)"
    "map Seq (B @ R) = [Suc m - length (B @ R)..<Suc m]" "n0 \<le> m" "m \<le> n" "\<forall>l \<in> set (B @ R @ D @ q). H (Seq l) = l"
    "case phase c of Subscribed \<Rightarrow> B = [] \<and> R = [] \<and> D = [] | Replaying ls \<Rightarrow> R = ls \<and> D = [] | _ \<Rightarrow> R = []"
    using assms(1) unfolding conn_ok_def by blast
  let ?q = "snd (offer l (i, q))"
  have f: "followed n0 (Suc n) (D @ ?q)"
    using followed_keep[OF c(2) assms(2)] followed_drop[OF c(2)] c(4,5) by (simp add: offer_def chan_cap_def)
  have "Seq x \<le> n" if "x \<in> set (B @ R)" for x
  proof -
    have "Seq x \<in> set (map Seq (B @ R))" using that by auto
    then show ?thesis unfolding c(3) using c(5) by auto
  qed
  moreover have "Seq x \<le> n" if "x \<in> set (D @ q)" for x using c(2) that unfolding followed_def by blast
  ultimately have le: "Seq x \<le> n" if "x \<in> set (B @ R @ D @ q)" for x using that by auto
  have "(H(Suc n := l)) (Seq x) = x" if "x \<in> set (B @ R @ D @ q)" for x
    using le[OF that] bspec[OF c(6) that] by simp
  then have h: "\<forall>x \<in> set (B @ R @ D @ ?q). (H(Suc n := l)) (Seq x) = x"
    using assms(2) by (auto simp: offer_def)
  have m: "m \<le> Suc n" using c(5) by simp
  show ?thesis unfolding conn_ok_def
    by (intro exI[of _ B] exI[of _ R] exI[of _ D] exI[of _ n0] exI[of _ m] conjI c(1) f c(3) c(4) m h c(7))
qed

lemma cancel_ctx_feed [simp]:
  "seq (cancel_ctx e c r) = seq r" "subs (cancel_ctx e c r) = subs r" "ring (cancel_ctx e c r) = ring r"
  by (simp_all add: cancel_ctx_def)

text \<open>To the feed, a step of the runner is one line more, or nothing but a cleared ring.\<close>

lemma action_feed_cases:
  assumes "action_step cfg s t" and "feed_ok (rn s)"
  shows "(seq (rn t) = seq (rn s) \<and> subs (rn t) = subs (rn s) \<and> set (ring (rn t)) \<subseteq> set (ring (rn s))) \<or>
    (\<exists>l. Seq l = Suc (seq (rn s)) \<and> seq (rn t) = Suc (seq (rn s)) \<and> subs (rn t) = map (offer l) (subs (rn s)) \<and>
       set (ring (rn t)) \<subseteq> insert l (set (ring (rn s))))"
proof -
  have e: "\<exists>l. Seq l = Suc (seq r) \<and> subs (emit st tx now r) = map (offer l) (subs r) \<and>
      set (ring (emit st tx now r)) \<subseteq> insert l (set (ring r))" for st tx now r
    by (rule exI[of _ "\<lparr>Seq = Suc (seq r), At = now, Stream = st, Text = tx\<rparr>"])
      (auto simp: emit_def Let_def dest: in_set_dropD)
  show ?thesis using assms(1)
  proof (cases rule: action_step.cases)
    case (stop now r)
    from stop_ok[OF stop(2)] e show ?thesis
      by (auto simp: stop(1))
  qed (use e in \<open>auto simp: start_locked_def announce_def resetRing_def finish_locked_def split: if_splits\<close>)
qed


text \<open>The subscriptions are those of the open connections.\<close>

definition watch_ok :: "(line \<Rightarrow> string res) \<Rightarrow> (nat \<Rightarrow> line) \<Rightarrow> watch \<Rightarrow> bool" where
  "watch_ok json H w \<longleftrightarrow>
     feed_ok (rn (core w)) \<and> (\<forall>l \<in> set (ring (rn (core w))). H (Seq l) = l) \<and>
     distinct (map fst (subs (rn (core w)))) \<and> distinct (map chan (conns w)) \<and>
     fst ` set (subs (rn (core w))) = chan ` {c \<in> set (conns w). phase c \<noteq> Gone} \<and>
     (\<forall>c \<in> set (conns w). phase c \<noteq> Gone \<longrightarrow>
        (\<exists>q. map_of (subs (rn (core w))) (chan c) = Some q \<and> conn_ok json H (seq (rn (core w))) q c))"

lemma map_of_offer: "map_of (map (offer l) xs) i = map_option (\<lambda>q. snd (offer l (i, q))) (map_of xs i)"
  by (induction xs) (auto simp: offer_def)

lemma fst_offer: "fst (offer l x) = fst x" "fst \<circ> offer l = fst"
  by (auto simp: offer_def)

lemma map_of_filter_other: "j \<noteq> i \<Longrightarrow> map_of (filter (\<lambda>(j, ls). j \<noteq> i) xs) j = map_of xs j"
  by (induction xs) auto

lemma run_ok_step:
  assumes "watch_ok json H w" and "action_step cfg (core w) s"
  shows "\<exists>H'. watch_ok json H' (w\<lparr>core := s\<rparr>)"
proof -
  let ?r = "rn (core w)"
  have f: "feed_ok ?r" using assms(1) by (simp add: watch_ok_def)
  from action_feed_cases[OF assms(2) f] consider
      (quiet) "seq (rn s) = seq ?r" "subs (rn s) = subs ?r" "set (ring (rn s)) \<subseteq> set (ring ?r)"
    | (line) l where "Seq l = Suc (seq ?r)" "seq (rn s) = Suc (seq ?r)" "subs (rn s) = map (offer l) (subs ?r)"
        "set (ring (rn s)) \<subseteq> insert l (set (ring ?r))" by blast
  then show ?thesis
  proof cases
    case quiet
    with assms(1) action_feed[OF assms(2) f] have "watch_ok json H (w\<lparr>core := s\<rparr>)" by (auto simp: watch_ok_def)
    then show ?thesis by blast
  next
    case line
    let ?H = "H(Suc (seq ?r) := l)"
    have "Seq x \<noteq> Suc (seq ?r)" if "x \<in> set (ring ?r)" for x
    proof -
      have "Seq x \<in> set (map Seq (ring ?r))" using that by auto
      moreover have "map Seq (ring ?r) = [Suc (seq ?r) - length (ring ?r)..<Suc (seq ?r)]" using f by (simp add: feed_ok_def)
      ultimately show ?thesis by auto
    qed
    with assms(1) line(1,4) have "\<forall>x \<in> set (ring (rn s)). ?H (Seq x) = x" by (auto simp: watch_ok_def)
    moreover have "\<exists>q. map_of (subs (rn s)) (chan c) = Some q \<and> conn_ok json ?H (seq (rn s)) q c"
      if "c \<in> set (conns w)" "phase c \<noteq> Gone" for c
      using assms(1) that conn_ok_emit[OF _ line(1)] line(2,3) unfolding watch_ok_def by (fastforce simp: map_of_offer)
    moreover have "fst ` set (subs (rn s)) = fst ` set (subs ?r)" by (simp add: line(3) image_image fst_offer(1))
    ultimately have "watch_ok json ?H (w\<lparr>core := s\<rparr>)"
      using assms(1) action_feed[OF assms(2) f] line(3) by (auto simp: watch_ok_def fst_offer)
    then show ?thesis by blast
  qed
qed

text \<open>A step of one handler leaves the other connections as they are.\<close>

lemma handler_step:
  assumes ok: "watch_ok json H w" and w: "conns w = xs @ c # ys" and p: "phase c \<noteq> Gone" and ch: "chan c' = chan c"
    and feed: "feed_ok r" "seq r = seq (rn (core w))" "ring r = ring (rn (core w))"
    and sub: "map fst (subs r) = map fst (subs (rn (core w)))"
      "\<And>j. j \<noteq> chan c \<Longrightarrow> map_of (subs r) j = map_of (subs (rn (core w))) j"
    and new: "phase c' \<noteq> Gone \<Longrightarrow> \<exists>q. map_of (subs r) (chan c) = Some q \<and> conn_ok json H (seq r) q c'"
  shows "watch_ok json H (w\<lparr>core := (core w)\<lparr>rn := leave c' r\<rparr>, conns := xs @ c' # ys\<rparr>)"
proof -
  let ?r = "rn (core w)"
  from ok have d: "distinct (map chan (xs @ c # ys))" "distinct (map fst (subs ?r))"
    "fst ` set (subs ?r) = chan ` {x \<in> set (xs @ c # ys). phase x \<noteq> Gone}" "\<forall>l \<in> set (ring ?r). H (Seq l) = l"
    unfolding watch_ok_def w by blast+
  have old: "\<exists>q. map_of (subs ?r) (chan x) = Some q \<and> conn_ok json H (seq ?r) q x"
    if "x \<in> set xs \<union> set ys" "phase x \<noteq> Gone" for x
    using ok that by (auto simp: watch_ok_def w)
  have ne: "chan x \<noteq> chan c" if "x \<in> set xs \<union> set ys" for x using d(1) that by (auto simp: image_iff)
  have dom: "fst ` set (subs r) = fst ` set (subs ?r)" using sub(1) by (metis list.set_map)
  have l: "feed_ok (leave c' r)" "seq (leave c' r) = seq r" "ring (leave c' r) = ring r"
    using feed(1) feed_ok_simps(6) by (auto simp: leave_def unsubscribe_def)
  have m: "map_of (subs (leave c' r)) j = map_of (subs ?r) j" if "j \<noteq> chan c" for j
    using sub(2)[OF that] that ch by (simp add: leave_def unsubscribe_def map_of_filter_other)
  have "fst ` set (subs (leave c' r)) = chan ` {x \<in> set (xs @ c' # ys). phase x \<noteq> Gone}"
  proof (cases "phase c' = Gone")
    case True
    then have "fst ` set (subs (leave c' r)) = fst ` set (subs r) - {chan c}"
      by (force simp: leave_def unsubscribe_def ch)
    also have "\<dots> = chan ` {x \<in> set xs \<union> set ys. phase x \<noteq> Gone}" using d(3) ne p dom by auto
    finally show ?thesis using True by auto
  next
    case False
    have "{z \<in> set (xs @ x # ys). phase z \<noteq> Gone} = insert x {z \<in> set xs \<union> set ys. phase z \<noteq> Gone}"
      if "phase x \<noteq> Gone" for x using that by auto
    with False d(3) p ch dom show ?thesis by (simp add: leave_def)
  qed
  moreover have "distinct (map fst (subs (leave c' r)))"
    using d(2) sub(1) by (auto simp: leave_def unsubscribe_def distinct_map_filter)
  moreover have "distinct (map chan (xs @ c' # ys))" using d(1) ch by simp
  moreover have "\<exists>q. map_of (subs (leave c' r)) (chan x) = Some q \<and> conn_ok json H (seq r) q x"
    if "x \<in> set (xs @ c' # ys)" "phase x \<noteq> Gone" for x
  proof (cases "x \<in> set xs \<union> set ys")
    case True
    with old[OF this that(2)] m[OF ne] feed(2) show ?thesis by simp
  next
    case False
    with that have "x = c'" by auto
    with new that(2) ch show ?thesis by (simp add: leave_def)
  qed
  ultimately show ?thesis using d(4) l feed by (simp add: watch_ok_def)
qed


lemma replay_ok:
  assumes "conn_ok json H n q c" and "phase c = Replaying ls" and "phase (replay_line json ok c) \<noteq> Gone"
  shows "conn_ok json H n q (replay_line json ok c)"
proof -
  obtain B n0 m where c: "seen json c B" "followed n0 n q" "map Seq (B @ ls) = [Suc m - length (B @ ls)..<Suc m]"
    "n0 \<le> m" "m \<le> n" "\<forall>l \<in> set (B @ ls @ q). H (Seq l) = l"
    using assms(1,2) by (auto simp: conn_ok_def)
  show ?thesis
  proof (cases ls)
    case Nil
    with assms(2) have "replay_line json ok c = c\<lparr>phase := Live\<rparr>" by (simp add: replay_line_def)
    with c Nil show ?thesis unfolding conn_ok_def
      by (intro exI[of _ B] exI[of _ "[]"] exI[of _ n0] exI[of _ m]) (simp add: seen_def)
  next
    case (Cons l rest)
    obtain w where w: "writeSSE json ok l (wrote c) = (True, w)"
      using assms(2,3) Cons by (cases "writeSSE json ok l (wrote c)") (auto simp: replay_line_def split: if_splits)
    then have eq: "replay_line json ok c = c\<lparr>phase := Replaying rest, wrote := w\<rparr>"
      using assms(2) Cons by (simp add: replay_line_def)
    have s: "seen json (c\<lparr>phase := Replaying rest, wrote := w\<rparr>) ((B @ [l]) @ [])" using seen_writeSSE[OF c(1) w] by simp
    have "map Seq ((B @ [l]) @ rest) = [Suc m - length ((B @ [l]) @ rest)..<Suc m]" using c(3) Cons by (simp del: upt_Suc)
    moreover have "followed n0 n ([] @ q)" "\<forall>x \<in> set ((B @ [l]) @ rest @ [] @ q). H (Seq x) = x" using c Cons by auto
    ultimately show ?thesis unfolding conn_ok_def eq
      using s c(4,5) by (intro exI[of _ "B @ [l]"] exI[of _ rest] exI[of _ "[]"] exI[of _ n0] exI[of _ m] conjI) simp_all
  qed
qed

lemma live_ok:
  assumes "conn_ok json H n (l # ls) c" and "phase c = Live" and "phase (live_line json ok l c) \<noteq> Gone"
  shows "conn_ok json H n ls (live_line json ok l c)"
proof -
  obtain B D n0 m where c: "seen json c (B @ D)" "followed n0 n (D @ l # ls)" "map Seq (B @ []) = [Suc m - length (B @ [])..<Suc m]"
    "n0 \<le> m" "m \<le> n" "\<forall>x \<in> set (B @ [] @ D @ l # ls). H (Seq x) = x"
    using assms(1,2) by (auto simp: conn_ok_def simp del: upt_Suc)
  obtain w where w: "writeSSE json ok l (wrote c) = (True, w)"
    using assms(2,3) by (cases "writeSSE json ok l (wrote c)") (auto simp: live_line_def split: if_splits)
  then have eq: "live_line json ok l c = c\<lparr>phase := Live, wrote := w\<rparr>" by (simp add: live_line_def)
  have s: "seen json (c\<lparr>phase := Live, wrote := w\<rparr>) (B @ D @ [l])" using seen_writeSSE[OF c(1) w] by simp
  have "followed n0 n ((D @ [l]) @ ls)" "\<forall>x \<in> set (B @ [] @ (D @ [l]) @ ls). H (Seq x) = x" using c by auto
  then show ?thesis unfolding conn_ok_def eq
    by (intro exI[of _ B] exI[of _ "[]"] exI[of _ "D @ [l]"] exI[of _ n0] exI[of _ m] conjI s c(3,4,5)) simp_all
qed

lemma ping_ok:
  assumes "conn_ok json H n q c" and "phase c = Live" and "phase (live_ping ok c) \<noteq> Gone"
  shows "conn_ok json H n q (live_ping ok c)"
proof -
  have "live_ping ok c = c\<lparr>wrote := wrote c @ [ping_chunk]\<rparr>" using assms(3) by (auto simp: live_ping_def split: if_splits)
  moreover have "seen json (c\<lparr>wrote := wrote c @ [ping_chunk]\<rparr>) ls = seen json c ls" for ls by (simp add: seen_def)
  ultimately show ?thesis using assms(1,2) unfolding conn_ok_def by simp
qed

lemma backlog_ok:
  assumes "conn_ok json H (seq r) q c" and "phase c = Subscribed" and "feed_ok r" and "\<forall>l \<in> set (ring r). H (Seq l) = l"
  shows "conn_ok json H (seq r) q (c\<lparr>phase := Replaying (ring r)\<rparr>)"
proof -
  obtain n0 m where c: "seen json c []" "followed n0 (seq r) q" "n0 \<le> m" "m \<le> seq r" "\<forall>l \<in> set q. H (Seq l) = l"
    using assms(1,2) by (auto simp: conn_ok_def)
  have "map Seq ([] @ ring r) = [Suc (seq r) - length ([] @ ring r)..<Suc (seq r)]"
    using assms(3) by (simp add: feed_ok_def)
  moreover have "\<forall>l \<in> set ([] @ ring r @ [] @ q). H (Seq l) = l" using c(5) assms(4) by auto
  moreover have "seen json (c\<lparr>phase := Replaying (ring r)\<rparr>) ([] @ [])" using c(1) by (simp add: seen_def)
  moreover have "n0 \<le> seq r" "followed n0 (seq r) ([] @ q)" using c by simp_all
  ultimately show ?thesis unfolding conn_ok_def
    by (intro exI[of _ "[]"] exI[of _ "ring r"] exI[of _ n0] exI[of _ "seq r"]) (simp del: upt_Suc)
qed

lemma connect_ok:
  assumes "watch_ok json H w" and "i \<notin> fst ` set (subs (rn (core w)))" and "i \<notin> chan ` set (conns w)"
  shows "watch_ok json H (w\<lparr>core := (core w)\<lparr>rn := subscribe i (rn (core w))\<rparr>,
           conns := conns w @ [\<lparr>chan = i, phase = Subscribed, wrote = []\<rparr>]\<rparr>)"
proof -
  let ?r = "rn (core w)" and ?c = "\<lparr>chan = i, phase = Subscribed, wrote = []\<rparr>"
  have "conn_ok json H (seq ?r) [] ?c" unfolding conn_ok_def
    by (intro exI[of _ "[]"] exI[of _ "seq ?r"]) (simp add: seen_def)
  moreover have "feed_ok (subscribe i ?r)" using assms(1) feed_ok_simps(5) by (simp add: watch_ok_def)
  moreover have "fst ` set (subs (subscribe i ?r)) = chan ` {c \<in> set (conns w @ [?c]). phase c \<noteq> Gone}"
  proof -
    have "{c \<in> set (conns w @ [?c]). phase c \<noteq> Gone} = insert ?c {c \<in> set (conns w). phase c \<noteq> Gone}" by auto
    with assms(1) show ?thesis by (simp add: subscribe_def watch_ok_def)
  qed
  moreover have "\<exists>q. map_of (subs (subscribe i ?r)) (chan c) = Some q \<and> conn_ok json H (seq ?r) q c"
    if "c \<in> set (conns w)" "phase c \<noteq> Gone" for c
    using assms(1,3) that by (auto simp: subscribe_def watch_ok_def)
  ultimately show ?thesis using assms unfolding watch_ok_def by (simp add: subscribe_def)
qed


lemma watch_ok_conn:
  assumes "watch_ok json H w" and "c \<in> set (conns w)" and "phase c \<noteq> Gone"
  obtains q where "map_of (subs (rn (core w))) (chan c) = Some q" "conn_ok json H (seq (rn (core w))) q c"
  using assms by (auto simp: watch_ok_def)

lemma quiet_handler_step:
  assumes "watch_ok json H w" and "conns w = xs @ c # ys" and "phase c \<noteq> Gone" and "chan c' = chan c"
    and "\<And>q. conn_ok json H (seq (rn (core w))) q c \<Longrightarrow> phase c' \<noteq> Gone \<Longrightarrow> conn_ok json H (seq (rn (core w))) q c'"
  shows "watch_ok json H (w\<lparr>core := (core w)\<lparr>rn := leave c' (rn (core w))\<rparr>, conns := xs @ c' # ys\<rparr>)"
proof -
  have "c \<in> set (conns w)" by (simp add: assms(2))
  from watch_ok_conn[OF assms(1) this assms(3)] obtain q where
    "map_of (subs (rn (core w))) (chan c) = Some q" "conn_ok json H (seq (rn (core w))) q c" .
  with assms show ?thesis by (intro handler_step[OF assms(1-4)]) (auto simp: watch_ok_def)
qed

lemma receive_step:
  assumes "watch_ok json H w" and "conns w = xs @ c # ys" and "phase c = Live"
    and "subs (rn (core w)) = us @ (chan c, l # ls) # vs"
  shows "watch_ok json H (w\<lparr>core := (core w)\<lparr>rn := leave (live_line json ok l c) ((rn (core w))\<lparr>subs := us @ (chan c, ls) # vs\<rparr>)\<rparr>,
           conns := xs @ live_line json ok l c # ys\<rparr>)"
proof -
  let ?r = "rn (core w)" and ?c = "live_line json ok l c"
  have f: "feed_ok ?r" and d: "distinct (map fst (subs ?r))" using assms(1) by (simp_all add: watch_ok_def)
  have q: "map_of (subs ?r) (chan c) = Some (l # ls)" by (rule map_of_is_SomeI[OF d]) (simp add: assms(4))
  have "distinct (map fst (us @ (chan c, ls) # vs))" using d by (simp add: assms(4))
  then have q': "map_of (us @ (chan c, ls) # vs) (chan c) = Some ls" by (rule map_of_is_SomeI) simp
  have "c \<in> set (conns w)" "phase c \<noteq> Gone" by (simp_all add: assms(2,3))
  from watch_ok_conn[OF assms(1) this] q have c: "conn_ok json H (seq ?r) (l # ls) c" by auto
  show ?thesis
  proof (rule handler_step[OF assms(1,2)])
    show "feed_ok (?r\<lparr>subs := us @ (chan c, ls) # vs\<rparr>)" using f by (auto simp: feed_ok_def assms(4))
    show "map_of (subs (?r\<lparr>subs := us @ (chan c, ls) # vs\<rparr>)) j = map_of (subs ?r) j" if "j \<noteq> chan c" for j
      using that by (simp add: assms(4) map_add_def split: option.split)
    show "\<exists>q. map_of (subs (?r\<lparr>subs := us @ (chan c, ls) # vs\<rparr>)) (chan c) = Some q \<and>
        conn_ok json H (seq (?r\<lparr>subs := us @ (chan c, ls) # vs\<rparr>)) q ?c" if "phase ?c \<noteq> Gone"
      using live_ok[OF c assms(3) that] q' by auto
  qed (use assms(3,4) in \<open>auto simp: live_line_def split: prod.split\<close>)
qed

lemma stream_step_ok:
  assumes "stream_step cfg json w w'" and "watch_ok json H w"
  shows "\<exists>H'. watch_ok json H' w'"
  using assms(1)
proof (cases rule: stream_step.cases)
  case (run s)
  then show ?thesis using run_ok_step[OF assms(2)] by blast
next
  case (connect i)
  then show ?thesis using connect_ok[OF assms(2)] by blast
next
  case (backlog xs c ys)
  let ?c = "c\<lparr>phase := Replaying (ring (rn (core w)))\<rparr>"
  have "watch_ok json H (w\<lparr>core := (core w)\<lparr>rn := leave ?c (rn (core w))\<rparr>, conns := xs @ ?c # ys\<rparr>)"
    using assms(2) backlog(3) backlog_ok by (intro quiet_handler_step[OF assms(2) backlog(2)]) (auto simp: watch_ok_def)
  with backlog(1) show ?thesis by (auto simp: leave_def Console_Runner.snapshot_def)
next
  case (replay xs c ys ls c' ok)
  have "chan c' = chan c" using replay(3,4) by (auto simp: replay_line_def split: list.split prod.split)
  then have "watch_ok json H (w\<lparr>core := (core w)\<lparr>rn := leave c' (rn (core w))\<rparr>, conns := xs @ c' # ys\<rparr>)"
    using replay(3,4) replay_ok by (intro quiet_handler_step[OF assms(2) replay(2)]) auto
  with replay(1) show ?thesis by blast
next
  case (live_recv xs c ys us l ls vs c' ok)
  then show ?thesis using receive_step[OF assms(2) live_recv(2,3,4)] by blast
next
  case (live_tick xs c ys c' ok)
  have "watch_ok json H (w\<lparr>core := (core w)\<lparr>rn := leave c' (rn (core w))\<rparr>, conns := xs @ c' # ys\<rparr>)"
    using live_tick(3,4) ping_ok by (intro quiet_handler_step[OF assms(2) live_tick(2)]) (auto simp: live_ping_def)
  with live_tick(1) show ?thesis by blast
next
  case (request_done xs c ys c')
  have "watch_ok json H (w\<lparr>core := (core w)\<lparr>rn := leave c' (rn (core w))\<rparr>, conns := xs @ c' # ys\<rparr>)"
    using request_done(3,4) by (intro quiet_handler_step[OF assms(2) request_done(2)]) auto
  with request_done(1) show ?thesis by blast
qed

lemma stream_reachable_ok: "stream_reachable cfg json w \<Longrightarrow> \<exists>H. watch_ok json H w"
proof (induction rule: stream_reachable.induct)
  case init
  show ?case by (simp add: watch_ok_def feed_ok_def init_sys_def newRunner_def)
next
  case (step w w')
  then show ?case using stream_step_ok by blast
qed




end
