(* ===== verification/Console_Process.thy ===== *)
theory Console_Process
  imports Console_Runner
begin

text \<open>
  \<open>cmd/console/runner_unix.go\<close> and \<open>runner_windows.go\<close>: the process group of a command and how it is
  killed. The processes alive are a list of process numbers with their parent and their group. A
  process that is forked is in the group of its parent; \<open>SIGKILL\<close> to a negative number ends every
  process of that group, and is an error if there is none. The kernel gives no new process a
  number in use, as a process or as a group, nor that of a child that has not been waited for.
  On Windows \<open>taskkill\<close> is another program: what it does is an argument.
\<close>

record oproc =
  o_parent :: nat
  o_group :: nat

type_synonym ptable = "(nat \<times> oproc) list"

record cmd =
  Setpgid :: bool
  Process :: "nat option"

definition configureProcessGroup :: "cmd \<Rightarrow> cmd" where
  "configureProcessGroup c = c\<lparr>Setpgid := True\<rparr>"

text \<open>\<open>cmd.Start\<close>: process \<open>pid\<close> as a child of the console.\<close>

definition start_cmd :: "nat \<Rightarrow> oproc \<Rightarrow> nat \<Rightarrow> cmd \<Rightarrow> ptable \<Rightarrow> cmd \<times> ptable" where
  "start_cmd console me pid c tab =
     (c\<lparr>Process := Some pid\<rparr>,
      (pid, \<lparr>o_parent = console, o_group = (if Setpgid c then pid else o_group me)\<rparr>) # tab)"

definition kill_group :: "nat \<Rightarrow> ptable \<Rightarrow> ptable res" where
  "kill_group g tab =
     (if list_ex (\<lambda>(p, o1). o_group o1 = g) tab then Inr (filter (\<lambda>(p, o1). o_group o1 \<noteq> g) tab)
      else Inl (OtherErr ''no such process''))"

definition kill_process :: "nat \<Rightarrow> ptable \<Rightarrow> err option \<times> ptable" where
  "kill_process pid tab =
     (if list_ex (\<lambda>(p, o1). p = pid) tab then (None, filter (\<lambda>(p, o1). p \<noteq> pid) tab)
      else (Some (OtherErr ''os: process already finished''), tab))"

definition killTree :: "cmd \<Rightarrow> ptable \<Rightarrow> err option \<times> ptable" where
  "killTree c tab =
     (case Process c of
        None \<Rightarrow> (None, tab)
      | Some pid \<Rightarrow>
          (case kill_group pid tab of
             Inl e \<Rightarrow> kill_process pid tab
           | Inr tab' \<Rightarrow> (None, tab')))"

definition killTree_windows ::
  "(string list \<Rightarrow> ptable \<Rightarrow> (string \<times> err) + ptable) \<Rightarrow> cmd \<Rightarrow> ptable \<Rightarrow> err option \<times> ptable" where
  "killTree_windows command c tab =
     (case Process c of
        None \<Rightarrow> (None, tab)
      | Some pid \<Rightarrow>
          (case command [''taskkill'', ''/T'', ''/F'', ''/PID'', itoa (int pid)] tab of
             Inr tab' \<Rightarrow> (None, tab')
           | Inl (out, e) \<Rightarrow>
               (case kill_process pid tab of
                  (None, tab') \<Rightarrow> (None, tab')
                | (Some killErr, tab') \<Rightarrow>
                    (Some (Wrapf (''taskkill: '' @ err_text e @ '' ('' @ out @ ''); kill: '') killErr ''''), tab'))))"

section \<open>What a command starts\<close>

text \<open>
  The tables that can arise after a command was started: processes fork and end. \<open>D\<close> is the set of
  the command's process and those it started, directly or not.
\<close>

inductive ptree :: "nat \<Rightarrow> cmd \<Rightarrow> ptable \<Rightarrow> nat set \<Rightarrow> bool" for console where
  started: "(console, me) \<in> set tab \<Longrightarrow> pid \<notin> fst ` set tab \<Longrightarrow> pid \<notin> o_group ` snd ` set tab \<Longrightarrow>
    start_cmd console me pid (configureProcessGroup c) tab = (c', tab') \<Longrightarrow> ptree console c' tab' {pid}"
| fork: "ptree console c tab D \<Longrightarrow> (p, o1) \<in> set tab \<Longrightarrow>
    q \<notin> fst ` set tab \<Longrightarrow> q \<notin> o_group ` snd ` set tab \<Longrightarrow> Process c \<noteq> Some q \<Longrightarrow>
    ptree console c ((q, \<lparr>o_parent = p, o_group = o_group o1\<rparr>) # tab) (if p \<in> D then insert q D else D - {q})"
| ended: "ptree console c tab D \<Longrightarrow> q \<noteq> console \<Longrightarrow> ptree console c (filter (\<lambda>(p, o1). p \<noteq> q) tab) D"

text \<open>The command's group is its processes, whoever their parent is now.\<close>

lemma ptree_group:
  "ptree console c tab D \<Longrightarrow>
    (\<exists>pid. Process c = Some pid \<and> pid \<in> D \<and> (\<forall>(p, o1) \<in> set tab. o_group o1 = pid \<longleftrightarrow> p \<in> D)) \<and>
    console \<in> fst ` set tab \<and> console \<notin> D"
proof (induction rule: ptree.induct)
  case (started me tab pid c c' tab')
  have "console \<noteq> pid" using started(1,2) by force
  moreover have "o_group o1 = pid \<longleftrightarrow> p \<in> {pid}" if "(p, o1) \<in> set tab" for p o1
    using started(2,3) that by force
  moreover have "Process c' = Some pid" "tab' = (pid, \<lparr>o_parent = console, o_group = pid\<rparr>) # tab"
    using started(4) by (auto simp: start_cmd_def configureProcessGroup_def)
  moreover have "console \<in> fst ` set tab" using started(1) by (force simp: image_iff)
  ultimately show ?case by auto
next
  case (fork c tab D p o1 q)
  then obtain pid where p: "Process c = Some pid" "pid \<in> D" "\<forall>(p, o1) \<in> set tab. o_group o1 = pid \<longleftrightarrow> p \<in> D"
    "console \<in> fst ` set tab" "console \<notin> D" by blast
  have "q \<noteq> console" "q \<noteq> pid" using fork(3,5) p(1,4) by auto
  moreover have "r \<noteq> q" if "(r, o2) \<in> set tab" for r o2 using fork(3) that by force
  moreover have "o_group o1 = pid \<longleftrightarrow> p \<in> D" using fork(2) p(3) by blast
  ultimately have "\<forall>(r, o2) \<in> set ((q, \<lparr>o_parent = p, o_group = o_group o1\<rparr>) # tab).
      o_group o2 = pid \<longleftrightarrow> r \<in> (if p \<in> D then insert q D else D - {q})"
    "pid \<in> (if p \<in> D then insert q D else D - {q})" "console \<notin> (if p \<in> D then insert q D else D - {q})"
    using p(2,3,5) by auto
  with p(1,4) show ?case by auto
next
  case (ended c tab D q)
  then obtain pid where p: "Process c = Some pid" "pid \<in> D" "\<forall>(p, o1) \<in> set tab. o_group o1 = pid \<longleftrightarrow> p \<in> D"
    "console \<in> fst ` set tab" "console \<notin> D" by blast
  from p(4) ended(2) have "console \<in> fst ` set (filter (\<lambda>(p, o1). p \<noteq> q) tab)" by (auto simp: image_iff)
  with p(1,2,3,5) show ?case by auto
qed

text \<open>
  C10. Stopping a run stops all of it and nothing else. Whatever the command's processes have started
  and whichever have ended, after \<open>killTree\<close> the processes alive are those alive before that the
  command did not start; the console is one of them.
\<close>

theorem killTree_stops_tree:
  assumes "ptree console c tab D"
  shows "snd (killTree c tab) = filter (\<lambda>(p, o1). p \<notin> D) tab \<and> console \<in> fst ` set (snd (killTree c tab))"
proof -
  from ptree_group[OF assms] obtain pid where p: "Process c = Some pid" "pid \<in> D"
    and all: "\<forall>(p, o1) \<in> set tab. o_group o1 = pid \<longleftrightarrow> p \<in> D" and con: "console \<in> fst ` set tab" "console \<notin> D"
    by (elim conjE exE)
  have grp: "o_group o1 = pid \<longleftrightarrow> p \<in> D" if "(p, o1) \<in> set tab" for p o1 using all that by blast
  have eq: "snd (killTree c tab) = filter (\<lambda>(p, o1). p \<notin> D) tab"
  proof (cases "list_ex (\<lambda>(p, o1). o_group o1 = pid) tab")
    case True
    moreover have "filter (\<lambda>(p, o1). o_group o1 \<noteq> pid) tab = filter (\<lambda>(p, o1). p \<notin> D) tab"
      using grp by (intro filter_cong) auto
    ultimately show ?thesis using p(1) by (simp add: killTree_def kill_group_def)
  next
    case False
    then have none: "p \<notin> D" if "(p, o1) \<in> set tab" for p o1 using grp that by (auto simp: list_ex_iff)
    then have "\<not> list_ex (\<lambda>(p, o1). p = pid) tab" using p(2) by (auto simp: list_ex_iff)
    moreover have "filter (\<lambda>(p, o1). p \<notin> D) tab = tab" using none by (intro filter_True) auto
    ultimately show ?thesis using False p(1) by (simp add: killTree_def kill_group_def kill_process_def)
  qed
  from con show ?thesis unfolding eq by force
qed

text \<open>A script that started a helper and was killed with it; the console's shell is not touched.\<close>

lemma killTree_stops_tree_witness:
  "\<exists>c. ptree 1 c [(7, \<lparr>o_parent = 5, o_group = 5\<rparr>), (5, \<lparr>o_parent = 1, o_group = 5\<rparr>), (1, \<lparr>o_parent = 0, o_group = 1\<rparr>)] {7, 5} \<and>
     snd (killTree c [(7, \<lparr>o_parent = 5, o_group = 5\<rparr>), (5, \<lparr>o_parent = 1, o_group = 5\<rparr>), (1, \<lparr>o_parent = 0, o_group = 1\<rparr>)]) =
       [(1, \<lparr>o_parent = 0, o_group = 1\<rparr>)]"
proof -
  define c :: cmd where "c = \<lparr>Setpgid = True, Process = Some 5\<rparr>"
  have "ptree 1 c [(5, \<lparr>o_parent = 1, o_group = 5\<rparr>), (1, \<lparr>o_parent = 0, o_group = 1\<rparr>)] {5}"
    by (rule ptree.started[of 1 "\<lparr>o_parent = 0, o_group = 1\<rparr>" "[(1, \<lparr>o_parent = 0, o_group = 1\<rparr>)]" 5 "\<lparr>Setpgid = False, Process = None\<rparr>"])
      (simp_all add: start_cmd_def configureProcessGroup_def c_def)
  from ptree.fork[OF this, of 5 "\<lparr>o_parent = 1, o_group = 5\<rparr>" 7]
  have t: "ptree 1 c [(7, \<lparr>o_parent = 5, o_group = 5\<rparr>), (5, \<lparr>o_parent = 1, o_group = 5\<rparr>), (1, \<lparr>o_parent = 0, o_group = 1\<rparr>)] {7, 5}"
    by (simp add: c_def)
  from killTree_stops_tree[OF t] t show ?thesis by auto
qed

end
