(* ===== verification/Console_Main.thy ===== *)
theory Console_Main
  imports Console_Stream Console_Process
begin

text \<open>
  \<open>cmd/console/main.go\<close>: the \<open>-hash\<close> flag, the start and the shutdown. The console is a process with
  goroutines: those of the runner and of the event streams, and for each command one that waits
  for it and one, of \<open>os/exec\<close>, that kills its tree when its context is done. When \<open>main\<close> returns,
  the goroutines are gone; the processes they started are not. \<open>srv.Shutdown\<close> returns when every
  connection is idle or its time is up; it does not cancel the contexts of the requests being
  served. Embedding the page and wiring the handlers are not modelled.
\<close>

section \<open>Start\<close>

text \<open>\<open>printHash\<close>: what it prints, or its error; \<open>bcrypt.GenerateFromPassword\<close> is an argument.\<close>

definition printHash :: "(bytes \<Rightarrow> bytes res) \<Rightarrow> string \<Rightarrow> string res" where
  "printHash generate pw =
     (if length pw < 12
      then Inl (OtherErr ''set CONSOLE_PASSWORD to at least 12 characters, then run `go run ./cmd/console -hash`'')
      else (case generate pw of
              Inl e \<Rightarrow> Inl (Wrapf ''hash password: '' e '''')
            | Inr hash \<Rightarrow> Inr (''CONSOLE_PASSWORD_HASH='' @ hash @ [nl])))"

datatype outcome = ExitStatus nat string | Serves cconfig

definition console_main :: "string list \<Rightarrow> string res \<Rightarrow> cconfig res \<Rightarrow> outcome" where
  "console_main args hashed loaded =
     (if length args > 1 \<and> args ! 1 = ''-hash''
      then (case hashed of Inl e \<Rightarrow> ExitStatus 1 (err_text e @ [nl]) | Inr out \<Rightarrow> ExitStatus 0 out)
      else (case loaded of
              Inl e \<Rightarrow> ExitStatus 1 (''invalid configuration: '' @ err_text e @ [nl])
            | Inr cfg \<Rightarrow> Serves cfg))"

section \<open>Shutdown\<close>

datatype main_phase = Serving | Signalled | ShuttingDown | Returned

record cmain =
  cwatch :: watch
  mphase :: main_phase
  os :: ptable
  cmds :: "(job \<times> cmd) list"

abbreviation jobs_of :: "cmain \<Rightarrow> job list" where "jobs_of s \<equiv> supervised (core (cwatch s))"
abbreviation runner_of :: "cmain \<Rightarrow> runner" where "runner_of s \<equiv> rn (core (cwatch s))"

definition with_runner :: "runner \<Rightarrow> cmain \<Rightarrow> cmain" where
  "with_runner r s = s\<lparr>cwatch := (cwatch s)\<lparr>core := (core (cwatch s))\<lparr>rn := r\<rparr>\<rparr>\<rparr>"

inductive main_step :: "nat \<Rightarrow> cconfig \<Rightarrow> (line \<Rightarrow> string res) \<Rightarrow> cmain \<Rightarrow> cmain \<Rightarrow> bool" for console cfg json where
  serve: "mphase s \<noteq> Returned \<Longrightarrow> stream_step cfg json (cwatch s) w \<Longrightarrow> fst ` set (cmds s) \<subseteq> set (supervised (core w)) \<Longrightarrow>
    main_step console cfg json s (s\<lparr>cwatch := w\<rparr>)"
| spawn: "mphase s \<noteq> Returned \<Longrightarrow> j \<in> set (jobs_of s) \<Longrightarrow> j \<notin> fst ` set (cmds s) \<Longrightarrow> ctxs (runner_of s) ! snd j = NotDone \<Longrightarrow>
    (console, me) \<in> set (os s) \<Longrightarrow> pid \<notin> fst ` set (os s) \<Longrightarrow> pid \<notin> o_group ` snd ` set (os s) \<Longrightarrow>
    start_cmd console me pid (configureProcessGroup \<lparr>Setpgid = False, Process = None\<rparr>) (os s) = (c, tab) \<Longrightarrow>
    main_step console cfg json s (s\<lparr>os := tab, cmds := cmds s @ [(j, c)]\<rparr>)"
| cancelled: "mphase s \<noteq> Returned \<Longrightarrow> (j, c) \<in> set (cmds s) \<Longrightarrow> ctxs (runner_of s) ! snd j \<noteq> NotDone \<Longrightarrow>
    killTree c (os s) = (e, tab) \<Longrightarrow> main_step console cfg json s (s\<lparr>os := tab\<rparr>)"
| waited: "mphase s \<noteq> Returned \<Longrightarrow> cmds s = xs @ (j, c) # ys \<Longrightarrow> Process c = Some pid \<Longrightarrow> pid \<notin> fst ` set (os s) \<Longrightarrow>
    main_step console cfg json s (s\<lparr>cmds := xs @ ys\<rparr>)"
| forked: "(p, o1) \<in> set (os s) \<Longrightarrow> q \<notin> fst ` set (os s) \<Longrightarrow> q \<notin> o_group ` snd ` set (os s) \<Longrightarrow>
    main_step console cfg json s (s\<lparr>os := (q, \<lparr>o_parent = p, o_group = o_group o1\<rparr>) # os s\<rparr>)"
| ended: "q \<noteq> console \<Longrightarrow> main_step console cfg json s (s\<lparr>os := filter (\<lambda>(p, o1). p \<noteq> q) (os s)\<rparr>)"
| signal: "mphase s = Serving \<Longrightarrow> main_step console cfg json s (s\<lparr>mphase := Signalled\<rparr>)"
| stop_run: "mphase s = Signalled \<Longrightarrow>
    main_step console cfg json s ((with_runner (snd (stop now (runner_of s))) s)\<lparr>mphase := ShuttingDown\<rparr>)"
| drained: "mphase s = ShuttingDown \<Longrightarrow> \<forall>c \<in> set (conns (cwatch s)). phase c = Gone \<Longrightarrow>
    main_step console cfg json s (s\<lparr>mphase := Returned, os := filter (\<lambda>(p, o1). p \<noteq> console) (os s)\<rparr>)"
| time_up: "mphase s = ShuttingDown \<Longrightarrow>
    main_step console cfg json s (s\<lparr>mphase := Returned, os := filter (\<lambda>(p, o1). p \<noteq> console) (os s)\<rparr>)"

definition init_main :: "nat \<Rightarrow> oproc \<Rightarrow> cmain" where
  "init_main console me =
     \<lparr>cwatch = \<lparr>core = init_sys, conns = []\<rparr>, mphase = Serving, os = [(console, me)], cmds = []\<rparr>"

inductive main_reachable :: "nat \<Rightarrow> cconfig \<Rightarrow> (line \<Rightarrow> string res) \<Rightarrow> cmain \<Rightarrow> bool" for console cfg json where
  init: "main_reachable console cfg json (init_main console me)"
| step: "main_reachable console cfg json s \<Longrightarrow> main_step console cfg json s t \<Longrightarrow> main_reachable console cfg json t"

lemmas main_stepped = main_reachable.step

section \<open>Properties\<close>

text \<open>What the handlers and the shutdown do to the runner leaves the discipline of one run in place.\<close>

lemma leave_frame [simp]:
  "rstate (leave c r) = rstate r" "cancel (leave c r) = cancel r" "ctxs (leave c r) = ctxs r"
  by (simp_all add: leave_def)

lemma stop_frame [simp]:
  "rstate (snd (stop now r)) = rstate r" "cancel (snd (stop now r)) = cancel r"
  "length (ctxs (snd (stop now r))) = length (ctxs r)"
  by (simp_all add: stop_def split: option.split)

lemma stream_run: "stream_step cfg json w w' \<Longrightarrow> run_ok (core w) \<Longrightarrow> run_ok (core w')"
proof (induction rule: stream_step.induct)
  case (run w s)
  then show ?case using action_run by auto
qed (auto simp: run_ok_def jobs_def split: if_splits)

lemma main_run: "main_step console cfg json s t \<Longrightarrow> run_ok (core (cwatch s)) \<Longrightarrow> run_ok (core (cwatch t))"
proof (induction rule: main_step.induct)
  case (serve s w)
  then show ?case using stream_run by auto
qed (auto simp: run_ok_def jobs_def with_runner_def split: if_splits)

text \<open>While the console runs, the commands it started are those of the one run it supervises.\<close>

definition cmds_ok :: "cmain \<Rightarrow> bool" where
  "cmds_ok s \<longleftrightarrow> distinct (map fst (cmds s)) \<and> fst ` set (cmds s) \<subseteq> set (jobs_of s)"

lemma main_reachable_ok: "main_reachable console cfg json s \<Longrightarrow> run_ok (core (cwatch s)) \<and> cmds_ok s"
proof (induction rule: main_reachable.induct)
  case (init me)
  show ?case by (simp add: init_main_def run_ok_def jobs_def init_sys_def newRunner_def cmds_ok_def)
next
  case (step s t)
  from step.hyps(2) step.IH have "cmds_ok t"
    by (induction rule: main_step.induct) (auto simp: cmds_ok_def with_runner_def)
  with step main_run show ?case by blast
qed

lemma one_command:
  assumes "main_reachable console cfg json s"
  shows "length (cmds s) \<le> 1"
proof -
  have ok: "run_ok (core (cwatch s))" "cmds_ok s" using main_reachable_ok[OF assms] by auto
  have "length (cmds s) = card (fst ` set (cmds s))"
    using ok(2) distinct_card[of "map fst (cmds s)"] by (simp add: cmds_ok_def)
  also have "\<dots> \<le> card (set (jobs_of s))" using ok(2) by (intro card_mono) (auto simp: cmds_ok_def)
  also have "\<dots> \<le> length (jobs_of s)" by (rule card_length)
  also have "\<dots> \<le> 1" using ok(1) by (auto simp: run_ok_def jobs_def append_eq_Cons_conv split: if_splits)
  finally show ?thesis .
qed


text \<open>
  C37. The shutdown does not wait for the run it stops. There is a reachable state in which \<open>main\<close> has
  told the run to stop and has returned, while the process of its command is alive and the console's is not: the context
  is cancelled, and the goroutine that was to kill the tree went with the console.
\<close>

theorem shutdown_can_orphan:
  fixes a :: action
  assumes "pid \<noteq> console"
  shows "\<exists>s j c. main_reachable console cfg json s \<and> mphase s = Returned \<and> cmds s = [(j, c)] \<and>
     fst j = argv a p cfg \<and> ctxs (runner_of s) ! snd j = Canceled \<and> Process c = Some pid \<and> fst ` set (os s) = {pid}"
proof -
  let ?R = "main_reachable console cfg json" and ?av = "argv a p cfg"
  let ?me = "\<lparr>o_parent = 0, o_group = console\<rparr>" and ?kid = "\<lparr>o_parent = console, o_group = pid\<rparr>"
  let ?sys = "\<lambda>r st su. \<lparr>core = \<lparr>rn = r, starting = st, supervised = su, finishing = []\<rparr>, conns = []\<rparr>"
  define r1 where "r1 = snd (start_locked a p cfg 0 newRunner)"
  define r2 where "r2 = announce ?av 0 (resetRing r1)"
  define c where "c = \<lparr>Setpgid = True, Process = Some pid\<rparr>"
  have l: "start_locked a p cfg 0 newRunner = (None, r1)" and b: "ctxs r1 = [NotDone]" "cancel r1 = Some 0" "Running (rstate r1)"
    by (simp_all add: r1_def start_locked_def newRunner_def)
  have "?R \<lparr>cwatch = ?sys r1 [((?av, 0), False)] [], mphase = Serving, os = [(console, ?me)], cmds = []\<rparr>"
    using main_stepped[OF main_reachable.init[of _ _ _ ?me] main_step.serve[OF _ stream_step.run[OF action_step.start[of a p _ 0]]]] l
    by (simp add: init_main_def init_sys_def newRunner_def)
  from main_stepped[OF this main_step.serve[OF _ stream_step.run[OF action_step.reset[of _ "[]" _ "[]"]]]]
  have "?R \<lparr>cwatch = ?sys (resetRing r1) [((?av, 0), True)] [], mphase = Serving, os = [(console, ?me)], cmds = []\<rparr>" by simp
  from main_stepped[OF this main_step.serve[OF _ stream_step.run[OF action_step.launch[of _ "[]" _ "[]" _ 0]]]]
  have "?R \<lparr>cwatch = ?sys r2 [] [(?av, 0)], mphase = Serving, os = [(console, ?me)], cmds = []\<rparr>" by (simp add: r2_def)
  from main_stepped[OF this main_step.spawn[of _ "(?av, 0)" console ?me pid]] assms b(1)
  have "?R \<lparr>cwatch = ?sys r2 [] [(?av, 0)], mphase = Serving, os = [(pid, ?kid), (console, ?me)], cmds = [((?av, 0), c)]\<rparr>"
    by (simp add: r2_def start_cmd_def configureProcessGroup_def c_def)
  from main_stepped[OF this main_step.signal]
  have "?R \<lparr>cwatch = ?sys r2 [] [(?av, 0)], mphase = Signalled, os = [(pid, ?kid), (console, ?me)], cmds = [((?av, 0), c)]\<rparr>" by simp
  from main_stepped[OF this main_step.stop_run[of _ _ _ _ 0]]
  have "?R \<lparr>cwatch = ?sys (snd (stop 0 r2)) [] [(?av, 0)], mphase = ShuttingDown, os = [(pid, ?kid), (console, ?me)], cmds = [((?av, 0), c)]\<rparr>"
    by (simp add: with_runner_def)
  from main_stepped[OF this main_step.drained]
  have "?R \<lparr>cwatch = ?sys (snd (stop 0 r2)) [] [(?av, 0)], mphase = Returned, os = [(pid, ?kid)], cmds = [((?av, 0), c)]\<rparr>" using assms by simp
  moreover have "ctxs (snd (stop 0 r2)) ! 0 = Canceled"
    using b by (simp add: stop_def r2_def cancel_ctx_def)
  ultimately show ?thesis by (fastforce simp: c_def)
qed

lemma shutdown_can_orphan_witness:
  "\<exists>s c. main_reachable 1 sample_cconfig (\<lambda>l. Inr (Text l)) s \<and> mphase s = Returned \<and> Process (c :: cmd) = Some 7 \<and> 7 \<in> fst ` set (os s)"
  using shutdown_can_orphan[of 7 1 sample_cconfig "\<lambda>l. Inr (Text l)" "hd (actions sample_numfmt)" "\<lparr>numbers = Map.empty, choices = Map.empty\<rparr>"]
  by auto

text \<open>The hash that \<open>-hash\<close> prints is one that the console, given it, lets the password in with.\<close>

lemma hash_then_login:
  assumes "printHash generate pw = Inr (''CONSOLE_PASSWORD_HASH='' @ hash @ [nl])"
    and "\<And>h. generate pw = Inr h \<Longrightarrow> bcrypt h pw" and "PasswordHash cfg = hash" and "lockedFor fs (clientIP cfg r) t1 \<le> 0"
  shows "\<exists>ck. fst (login hmac bcrypt cfg r pw t1 t2 fs) = Inr ck"
proof -
  have "generate pw = Inr hash" using assms(1) by (auto simp: printHash_def split: if_splits sum.splits)
  with assms(2,3,4) show ?thesis by (simp add: login_def Let_def)
qed

end
