(* ===== verification/Console_Watch.thy ===== *)
theory Console_Watch
  imports Console_Stack
begin

text \<open>
  \<open>cmd/console/stack.go\<close>, \<open>run\<close>, \<open>store\<close> and \<open>snapshot\<close>: the goroutine that polls the containers, on a
  clock. The ticker is made when the first poll is over; its channel holds one tick, and a tick
  that finds it full is dropped. A poll reads the clock when it begins. The context of a poll
  ends after 10 seconds and kills the command; how long \<open>cmd.Run\<close> takes at most is the argument
  \<open>longest\<close>. Time does not pass while the goroutine has something to
  do. It returns when the console is stopped, which is not modelled here.
\<close>

record stackWatcher =
  clock :: time
  snap :: stackSnapshot
  polling :: "time option"
  ticker :: "time option"
  tick :: bool

definition zero_snapshot :: stackSnapshot where
  "zero_snapshot = \<lparr>Containers = [], Workers = 0, Up = False, SnapErr = '''', CheckedAt = 0\<rparr>"

text \<open>\<open>newStackWatcher\<close>, and \<open>run\<close> up to its first poll.\<close>

definition newStackWatcher :: "time \<Rightarrow> stackWatcher" where
  "newStackWatcher now = \<lparr>clock = now, snap = zero_snapshot, polling = Some now, ticker = None, tick = False\<rparr>"

definition store_snap :: "stackSnapshot \<Rightarrow> stackWatcher \<Rightarrow> stackWatcher" where
  "store_snap s w = w\<lparr>snap := s\<rparr>"

definition stack_snapshot :: "stackWatcher \<Rightarrow> stackSnapshot" where
  "stack_snapshot w = snap w"

inductive watcher_step :: "row_codec \<Rightarrow> duration \<Rightarrow> duration \<Rightarrow> stackWatcher \<Rightarrow> stackWatcher \<Rightarrow> bool" for J every longest where
  pass: "0 \<le> d \<Longrightarrow> (case polling w of Some t \<Rightarrow> clock w + d \<le> t + longest | None \<Rightarrow> \<not> tick w) \<Longrightarrow>
    (case ticker w of Some t \<Rightarrow> clock w + d \<le> t | None \<Rightarrow> True) \<Longrightarrow>
    watcher_step J every longest w (w\<lparr>clock := clock w + d\<rparr>)"
| ticks: "ticker w = Some (clock w) \<Longrightarrow>
    watcher_step J every longest w (w\<lparr>ticker := Some (clock w + every), tick := True\<rparr>)"
| begin_poll: "polling w = None \<Longrightarrow> tick w \<Longrightarrow>
    watcher_step J every longest w (w\<lparr>polling := Some (clock w), tick := False\<rparr>)"
| end_poll: "polling w = Some t \<Longrightarrow>
    watcher_step J every longest w
      ((store_snap (poll J result t) w)\<lparr>polling := None,
         ticker := (case ticker w of None \<Rightarrow> Some (clock w + every) | Some n \<Rightarrow> Some n)\<rparr>)"

inductive watching :: "row_codec \<Rightarrow> duration \<Rightarrow> duration \<Rightarrow> time \<Rightarrow> stackWatcher \<Rightarrow> bool" for J every longest start where
  init: "watching J every longest start (newStackWatcher start)"
| step: "watching J every longest start w \<Longrightarrow> watcher_step J every longest w v \<Longrightarrow> watching J every longest start v"

lemma poll_checked [simp]: "CheckedAt (poll J result now) = now"
  by (auto simp: poll_def Let_def split: sum.split prod.split)

text \<open>Before the first poll is over nothing is stored; after it, the next one begins within a period.\<close>

definition watch_inv :: "duration \<Rightarrow> duration \<Rightarrow> time \<Rightarrow> stackWatcher \<Rightarrow> bool" where
  "watch_inv every longest start w \<longleftrightarrow>
     (case ticker w of
        None \<Rightarrow> polling w = Some start \<and> \<not> tick w \<and> snap w = zero_snapshot \<and> clock w \<le> start + longest
      | Some n \<Rightarrow>
          clock w \<le> n \<and> n \<le> clock w + every \<and> CheckedAt (snap w) \<le> clock w \<and>
          (case polling w of
             Some t \<Rightarrow> t \<le> CheckedAt (snap w) + longest + every \<and> t \<le> clock w \<and> clock w \<le> t + longest
           | None \<Rightarrow> (if tick w then clock w else n) \<le> CheckedAt (snap w) + longest + every))
     \<and> (\<forall>t. polling w = Some t \<longrightarrow> t \<le> clock w)"

lemma watching_inv:
  assumes "0 \<le> every" and "0 \<le> longest"
  shows "watching J every longest start w \<Longrightarrow> watch_inv every longest start w"
proof (induction rule: watching.induct)
  case init
  show ?case using assms by (simp add: newStackWatcher_def watch_inv_def)
next
  case (step w v)
  from step.hyps(2) step.IH assms show ?case
    by (induction rule: watcher_step.induct) (auto simp: watch_inv_def store_snap_def split: option.splits if_splits)
qed



end
