(* ===== verification/Loadgen.thy ===== *)
theory Loadgen
  imports Go_Float "HOL-Library.Multiset"
begin

text \<open>
  \<open>cmd/loadgen/main.go\<close>: the load generator. The schedule of \<open>run\<close>, what \<open>send\<close> records of a
  request, \<open>summarise\<close> and \<open>percentiles\<close>. What the program does not decide is an argument: \<open>lenv\<close>
  gives, for each turn of the loop, the clock and whether the context is done at either
  \<open>select\<close>; an \<open>lg_reply\<close> is the end of a request. \<open>time.Duration(i) * interval\<close> is a product of 64-bit
  integers and wraps. A loop that does not end is \<^const>\<open>None\<close>. Flags, printing and JSON output are
  input and output; \<open>measureEndToEnd\<close> is two SQL queries whose answers are an argument.
\<close>

section \<open>The schedule\<close>

record lg_config =
  lg_tag :: string
  lg_rate :: f64
  lg_duration :: duration
  lg_concurrency :: int

text \<open>\<open>time.Duration(float64(time.Second) / cfg.rate)\<close> for a positive finite rate.\<close>

definition lg_interval :: "rat \<Rightarrow> duration" where
  "lg_interval rate = \<lfloor>round_f64 (1000000000 / rate)\<rfloor>"

definition dur_mul :: "nat \<Rightarrow> duration \<Rightarrow> duration" where
  "dur_mul i d = sint (of_nat i * of_int d :: i64)"

record lenv =
  l_now :: "nat \<Rightarrow> time"
  l_done_waiting :: "nat \<Rightarrow> bool"
  l_done_permit :: "nat \<Rightarrow> bool"

record sched =
  sent :: "(nat \<times> time) list"
  behind :: nat

partial_function (option) send_loop ::
  "lenv \<Rightarrow> duration \<Rightarrow> time \<Rightarrow> time \<Rightarrow> nat \<Rightarrow> sched \<Rightarrow> sched option" where
  "send_loop E interval start deadline i s =
     (let due = start + dur_mul i interval in
      if due > deadline then Some s
      else
        let wait = due - l_now E i in
        if wait > 0 \<and> l_done_waiting E i then Some s
        else
          let s = (if \<not> wait > 0 \<and> - wait > interval then s\<lparr>behind := behind s + 1\<rparr> else s) in
          if l_done_permit E i then Some s
          else send_loop E interval start deadline (i + 1) (s\<lparr>sent := sent s @ [(i, due)]\<rparr>))"

section \<open>What a request leaves behind\<close>

datatype lg_reply = BuildFailed | DoFailed | Responded nat time

record results =
  latencies :: "duration list"
  codes :: "nat \<Rightarrow> nat"
  accepted :: nat
  failed :: nat

definition no_results :: results where
  "no_results = \<lparr>latencies = [], codes = (\<lambda>_. 0), accepted = 0, failed = 0\<rparr>"

text \<open>The body of the request for a sequence number: customer and item.\<close>

definition send_body :: "string \<Rightarrow> nat \<Rightarrow> string \<times> string" where
  "send_body tag n = (tag @ ''-'' @ itoa (int n), ''SKU-'' @ itoa (int (n mod 1000)))"

definition send :: "time \<Rightarrow> lg_reply \<Rightarrow> results \<Rightarrow> results" where
  "send due rep r =
     (case rep of
        BuildFailed \<Rightarrow> r\<lparr>failed := failed r + 1\<rparr>
      | DoFailed \<Rightarrow> r\<lparr>failed := failed r + 1\<rparr>
      | Responded code now \<Rightarrow>
          (let r = r\<lparr>latencies := latencies r @ [now - due], codes := (codes r)(code := codes r code + 1)\<rparr>
           in if code = 202 then r\<lparr>accepted := accepted r + 1\<rparr> else r))"

section \<open>Percentiles\<close>

record latencyStats =
  Count :: nat
  Missing :: int
  P50 :: f64
  P95 :: f64
  P99 :: f64
  Max :: f64

text \<open>\<open>at\<close>: the constant \<open>q\<close> is the \<open>float64\<close> nearest to it, and so is the product with the count.\<close>

definition rank_of :: "rat \<Rightarrow> nat \<Rightarrow> nat" where
  "rank_of q n =
     (let i = \<lceil>round_f64 (round_f64 q * of_nat n)\<rceil> - 1;
          i = (if i < 0 then 0 else i)
      in if i \<ge> int n then n - 1 else nat i)"

definition percentiles :: "duration list \<Rightarrow> latencyStats" where
  "percentiles sorted1 =
     (if length sorted1 = 0 then \<lparr>Count = 0, Missing = 0, P50 = Fin 0, P95 = Fin 0, P99 = Fin 0, Max = Fin 0\<rparr>
      else let at_q = (\<lambda>q. Seconds (sorted1 ! rank_of q (length sorted1))) in
        \<lparr>Count = length sorted1, Missing = 0, P50 = at_q (50/100), P95 = at_q (95/100), P99 = at_q (99/100),
         Max = Seconds (sorted1 ! (length sorted1 - 1))\<rparr>)"

record report =
  Sent :: nat
  Accepted :: nat
  Failed :: nat
  SchedulerBehind :: nat
  Accept :: latencyStats
  Codes :: "nat \<Rightarrow> nat"

definition summarise :: "nat \<Rightarrow> results \<Rightarrow> report" where
  "summarise b r =
     \<lparr>Sent = length (latencies r) + failed r, Accepted = accepted r, Failed = failed r, SchedulerBehind = b,
      Accept = percentiles (sort (latencies r)), Codes = codes r\<rparr>"

section \<open>End to end\<close>

text \<open>
  \<open>measureEndToEnd\<close>: what turn \<open>i\<close> of the waiting loop meets is the clock, the answer of the counting
  query and whether the context is done before the half second is over; \<open>pool\<close> is the error of
  connecting, \<open>stats\<close> the answer of the last query.
\<close>

record denv =
  d_now :: "nat \<Rightarrow> time"
  d_count :: "nat \<Rightarrow> nat res"
  d_done :: "nat \<Rightarrow> err option"

partial_function (option) drain_loop :: "denv \<Rightarrow> time \<Rightarrow> nat \<Rightarrow> nat \<Rightarrow> err option option" where
  "drain_loop D deadline want i =
     (if \<not> d_now D i < deadline then Some None
      else case d_count D i of
             Inl e \<Rightarrow> Some (Some e)
           | Inr persisted \<Rightarrow>
               if persisted \<ge> want then Some None
               else case d_done D i of
                      Some e \<Rightarrow> Some (Some e)
                    | None \<Rightarrow> drain_loop D deadline want (i + 1))"

definition measureEndToEnd ::
  "err option \<Rightarrow> denv \<Rightarrow> time \<Rightarrow> nat \<Rightarrow> latencyStats res \<Rightarrow> latencyStats res option" where
  "measureEndToEnd pool D deadline want stats =
     (case pool of
        Some e \<Rightarrow> Some (Inl e)
      | None \<Rightarrow>
          (case drain_loop D deadline want 0 of
             None \<Rightarrow> None
           | Some (Some e) \<Rightarrow> Some (Inl e)
           | Some None \<Rightarrow>
               Some (case stats of Inl e \<Rightarrow> Inl e | Inr s \<Rightarrow> Inr (s\<lparr>Missing := int want - int (Count s)\<rparr>))))"

section \<open>The schedule does not depend on the system\<close>

lemma dur_mul_exact:
  assumes "0 \<le> d" and "int i * d < 2 ^ 63"
  shows "dur_mul i d = int i * d"
proof -
  have "of_nat i * of_int d = (of_int (int i * d) :: i64)" by simp
  then show ?thesis using assms by (simp only: dur_mul_def) (intro sint_of_int_i64, auto intro: order_trans[of _ 0])
qed

text \<open>The requests scheduled are the first \<open>n\<close>, each due at its multiple of the interval.\<close>

definition on_schedule :: "duration \<Rightarrow> time \<Rightarrow> nat \<Rightarrow> (nat \<times> time) list" where
  "on_schedule interval start n = map (\<lambda>i. (i, start + int i * interval)) [0..<n]"

lemma send_loop_schedule:
  assumes "0 < interval" and "0 \<le> dur" and "dur + interval < 2 ^ 63"
    and "sent s = on_schedule interval start i" and "int i \<le> dur div interval + 1"
  shows "\<exists>s' n. send_loop E interval start (start + dur) i s = Some s' \<and> sent s' = on_schedule interval start n \<and>
    i \<le> n \<and> int n \<le> dur div interval + 1 \<and> behind s' \<le> behind s + (n - i) + 1 \<and>
    ((\<forall>j. \<not> l_done_waiting E j \<and> \<not> l_done_permit E j) \<longrightarrow> int n = dur div interval + 1)"
  using assms(4,5)
proof (induction "nat (dur div interval + 1) - i" arbitrary: i s)
  case 0
  then have i: "int i = dur div interval + 1" using assms(1,2) by (simp add: pos_imp_zdiv_nonneg_iff)
  have "int i * interval = dur div interval * interval + interval" by (simp add: i algebra_simps)
  moreover have "dur div interval * interval + dur mod interval = dur" by simp
  moreover have "dur mod interval < interval" "0 \<le> dur mod interval" using assms(1) by simp_all
  ultimately have "dur < int i * interval" "int i * interval < 2 ^ 63" using assms(3) by linarith+
  then have "send_loop E interval start (start + dur) i s = Some s"
    using assms(1) by (subst send_loop.simps) (simp add: dur_mul_exact)
  then show ?case using 0 i by auto
next
  case (Suc k)
  then have le: "int i \<le> dur div interval" by linarith
  have "int i * interval \<le> dur div interval * interval" using le assms(1) by (simp add: mult_right_mono)
  moreover have "dur div interval * interval \<le> dur" using assms(1) div_mult_mod_eq[of dur interval] pos_mod_sign[of interval dur] by linarith
  ultimately have d: "int i * interval \<le> dur" by linarith
  then have m: "dur_mul i interval = int i * interval" using assms(1,3) by (intro dur_mul_exact) auto
  let ?due = "start + int i * interval"
  let ?wait = "?due - l_now E i"
  let ?s1 = "if \<not> ?wait > 0 \<and> - ?wait > interval then s\<lparr>behind := behind s + 1\<rparr> else s"
  let ?s2 = "?s1\<lparr>sent := sent ?s1 @ [(i, ?due)]\<rparr>"
  have s2: "sent ?s2 = on_schedule interval start (Suc i)" using Suc.prems(1) by (simp add: on_schedule_def)
  have eq: "send_loop E interval start (start + dur) i s =
      (if ?wait > 0 \<and> l_done_waiting E i then Some s else if l_done_permit E i then Some ?s1
       else send_loop E interval start (start + dur) (Suc i) ?s2)"
    using d by (subst send_loop.simps) (simp add: m Let_def)
  have b: "behind ?s1 \<le> behind s + 1" "sent ?s1 = sent s" by simp_all
  show ?case
  proof (cases "(?wait > 0 \<and> l_done_waiting E i) \<or> l_done_permit E i")
    case True
    then obtain s' where "send_loop E interval start (start + dur) i s = Some s'" "sent s' = sent s" "behind s' \<le> behind s + 1"
      using eq b by (cases "?wait > 0 \<and> l_done_waiting E i") (force, force)
    with True Suc.prems show ?thesis by (intro exI[of _ s'] exI[of _ i]) auto
  next
    case False
    have k: "k = nat (dur div interval + 1) - Suc i" "int (Suc i) \<le> dur div interval + 1" using Suc.hyps(2) le by auto
    obtain s' n where n: "send_loop E interval start (start + dur) (Suc i) ?s2 = Some s'" "sent s' = on_schedule interval start n"
      "Suc i \<le> n" "int n \<le> dur div interval + 1" "behind s' \<le> behind ?s2 + (n - Suc i) + 1"
      "(\<forall>j. \<not> l_done_waiting E j \<and> \<not> l_done_permit E j) \<longrightarrow> int n = dur div interval + 1"
      using Suc.hyps(1)[OF k(1) s2 k(2)] by blast
    have "behind ?s2 = behind ?s1" by simp
    then have "behind s' \<le> behind s + (n - i) + 1" using n(3,5) b(1) by linarith
    moreover have "send_loop E interval start (start + dur) i s = Some s'" using eq False n(1) by auto
    ultimately show ?thesis using n(2,4,6) Suc_leD[OF n(3)] by blast
  qed
qed





section \<open>The report\<close>

text \<open>What the requests leave behind, as functions of the list of replies.\<close>

definition answered :: "time \<times> lg_reply \<Rightarrow> (nat \<times> duration) option" where
  "answered x = (case snd x of Responded code now \<Rightarrow> Some (code, now - fst x) | _ \<Rightarrow> None)"

definition answers :: "(time \<times> lg_reply) list \<Rightarrow> (nat \<times> duration) list" where
  "answers xs = List.map_filter answered xs"

definition send_all :: "(time \<times> lg_reply) list \<Rightarrow> results" where
  "send_all xs = fold (\<lambda>(due, rep). send due rep) xs no_results"

lemma answers_simps [simp]:
  "answers [] = []"
  "answers (x # xs) = (case answered x of None \<Rightarrow> answers xs | Some a \<Rightarrow> a # answers xs)"
  unfolding answers_def List.map_filter_simps by (rule refl)+

lemma fold_send:
  "latencies (fold (\<lambda>(due, rep). send due rep) xs r) = latencies r @ map snd (answers xs) \<and>
   codes (fold (\<lambda>(due, rep). send due rep) xs r) c = codes r c + length (filter (\<lambda>a. fst a = c) (answers xs)) \<and>
   accepted (fold (\<lambda>(due, rep). send due rep) xs r) = accepted r + length (filter (\<lambda>a. fst a = 202) (answers xs)) \<and>
   failed (fold (\<lambda>(due, rep). send due rep) xs r) + length (answers xs) = failed r + length xs"
proof (induction xs arbitrary: r)
  case (Cons x xs)
  obtain due rep where x: "x = (due, rep)" by (cases x)
  have "latencies (send due rep r) = latencies r @ (case answered x of None \<Rightarrow> [] | Some a \<Rightarrow> [snd a])"
    "codes (send due rep r) c = codes r c + (case answered x of None \<Rightarrow> 0 | Some a \<Rightarrow> if fst a = c then 1 else 0)"
    "accepted (send due rep r) = accepted r + (case answered x of None \<Rightarrow> 0 | Some a \<Rightarrow> if fst a = 202 then 1 else 0)"
    "failed (send due rep r) = failed r + (case answered x of None \<Rightarrow> 1 | Some a \<Rightarrow> 0)"
    by (cases rep; simp add: send_def answered_def x Let_def)+
  with Cons[of "send due rep r"] show ?case by (cases "answered x") (simp_all add: x)
qed (simp add: answers_def List.map_filter_simps)

lemma send_all_eq:
  "latencies (send_all xs) = map snd (answers xs)"
  "codes (send_all xs) c = length (filter (\<lambda>a. fst a = c) (answers xs))"
  "accepted (send_all xs) = length (filter (\<lambda>a. fst a = 202) (answers xs))"
  "failed (send_all xs) + length (answers xs) = length xs"
  using fold_send[of xs no_results c] by (simp_all add: send_all_def no_results_def)

lemma sum_length_filter_fst: "(\<Sum>c \<in> fst ` set as. length (filter (\<lambda>a. fst a = c) as)) = length as"
proof -
  have "length as = size (mset (map fst as))" by simp
  also have "\<dots> = (\<Sum>c \<in> fst ` set as. count (mset (map fst as)) c)"
    by (simp add: size_multiset_overloaded_eq del: size_mset)
  also have "\<dots> = (\<Sum>c \<in> fst ` set as. length (filter (\<lambda>a. fst a = c) as))"
    unfolding count_mset count_list_eq_length_filter filter_map length_map o_def by (simp add: eq_commute)
  finally show ?thesis by simp
qed

lemma mset_answers: "mset (answers xs) = image_mset the (filter_mset (\<lambda>a. a \<noteq> None) (image_mset answered (mset xs)))"
  by (induction xs) (auto split: option.split)

text \<open>
  The report adds up, in whatever order the requests end. Every request sent is an answer or a
  failure; the accepted ones are those answered 202, and the counts per status add up to the
  answers; a latency counts from the moment the request was due. The report depends on the
  replies, not on the order in which the goroutines record them.
\<close>

theorem report_adds_up:
  assumes "mset xs = mset ys"
  shows "summarise b (send_all xs) = summarise b (send_all ys) \<and>
    Sent (summarise b (send_all xs)) = length xs \<and>
    Accepted (summarise b (send_all xs)) = Codes (summarise b (send_all xs)) 202 \<and>
    (\<Sum>c \<in> fst ` set (answers xs). Codes (summarise b (send_all xs)) c) + Failed (summarise b (send_all xs)) = length xs \<and>
    (\<forall>due code now. (due, Responded code now) \<in> set xs \<longrightarrow> now - due \<in> set (latencies (send_all xs)))"
proof -
  have m: "mset (answers xs) = mset (answers ys)" by (simp add: mset_answers assms)
  then have l: "length (answers xs) = length (answers ys)" by (rule mset_eq_length)
  have srt: "sort (map snd (answers xs)) = sort (map snd (answers ys))"
    using m by (metis mset_map sorted_list_of_multiset_mset)
  have f: "length (filter P (answers xs)) = length (filter P (answers ys))" for P
    using m by (metis mset_filter size_mset)
  have fl: "failed (send_all xs) = failed (send_all ys)"
    using send_all_eq(4)[of xs] send_all_eq(4)[of ys] l mset_eq_length[OF assms] by linarith
  have c: "codes (send_all xs) = codes (send_all ys)" by (rule ext) (simp add: send_all_eq f)
  have "summarise b (send_all xs) = summarise b (send_all ys)"
    using fl c f srt l by (simp add: summarise_def send_all_eq)
  moreover have "now - due \<in> set (latencies (send_all xs))" if "(due, Responded code now) \<in> set xs" for due code now
    using that by (force simp: send_all_eq answers_def List.map_filter_def answered_def)
  moreover have "(\<Sum>c \<in> fst ` set (answers xs). codes (send_all xs) c) = length (answers xs)"
    by (simp add: send_all_eq sum_length_filter_fst)
  ultimately show ?thesis using send_all_eq(4)[of xs]
    by (simp add: summarise_def send_all_eq)
qed

lemma report_adds_up_witness:
  "Accepted (summarise 0 (send_all [(1, Responded 202 9), (2, DoFailed), (3, Responded 503 4)])) = 1 \<and>
   summarise 0 (send_all [(3, Responded 503 4), (2, DoFailed), (1, Responded 202 9)]) =
   summarise 0 (send_all [(1, Responded 202 9), (2, DoFailed), (3, Responded 503 4)])"
  using report_adds_up[of "[(3, Responded 503 4), (2, DoFailed), (1, Responded 202 9)]"
      "[(1, Responded 202 9), (2, DoFailed), (3, Responded 503 4)]" 0]
  by (simp add: add_mset_commute summarise_def send_all_def send_def no_results_def)


section \<open>Percentiles are nearest ranks\<close>

text \<open>
  For a number \<open>a\<close> of hundredths whose \<open>float64\<close> is at most the true value and close to it, the two
  roundings do not change the ceiling: the product is a multiple of a hundredth, so it is either
  an integer, which rounding from below does not pass, or too far above one.
\<close>

lemma ceiling_exact:
  fixes q :: rat and a :: int and n :: nat
  assumes "q \<le> of_int a / 100" and "of_int a / 100 - 1 / 2 ^ 54 \<le> q" and "1 / 2 \<le> q" and "a \<le> 100"
    and "0 < n" and "n < 2 ^ 44"
  shows "\<lceil>round_f64 (q * of_nat n)\<rceil> = \<lceil>of_int a * of_nat n / (100 :: rat)\<rceil>"
proof -
  let ?x = "q * of_nat n" and ?t = "of_int a * of_nat n / (100 :: rat)"
  let ?k = "\<lceil>?t\<rceil>"
  have "(of_nat n :: rat) < of_nat (2 ^ 44)" using assms(6) by (simp only: of_nat_less_iff)
  then have n: "1 \<le> (of_nat n :: rat)" "(of_nat n :: rat) < 2 ^ 44"
    using assms(5) by (simp, simp only: of_nat_power of_nat_numeral)
  have xt: "?x \<le> ?t" using mult_right_mono[OF assms(1), of "of_nat n"] by simp
  have "(of_int a :: rat) * of_nat n \<le> 100 * of_nat n" by (rule mult_right_mono) (use assms(4) in simp_all)
  then have tn: "?t \<le> of_nat n" by simp
  have lo: "1 / 2 \<le> ?x" using mult_mono[OF assms(3) n(1)] assms(3) by simp
  have up: "?x < 2 ^ 45" using xt tn n(2) by simp
  have "round_f64 ?x \<le> of_int ?k"
    by (rule round_f64_le_int[OF lo up]) (use xt le_of_int_ceiling[of ?t] in linarith)
  moreover have "of_int (?k - 1) < round_f64 ?x"
  proof -
    have "of_int (?k - 1) < ?t" using ceiling_correct[of ?t] by (simp only: of_int_diff of_int_1)
    then have "(of_int (100 * (?k - 1)) :: rat) < of_int (a * int n)" by simp
    then have "100 * (?k - 1) + 1 \<le> a * int n" by (simp only: of_int_less_iff)
    then have "(of_int (100 * (?k - 1) + 1) :: rat) \<le> of_int (a * int n)" by (simp only: of_int_le_iff)
    then have gap: "of_int (?k - 1) + 1 / 100 \<le> ?t" by simp
    have "?t - of_nat n / 2 ^ 54 \<le> ?x"
      using mult_right_mono[OF assms(2), of "of_nat n"] by (simp add: left_diff_distrib)
    moreover have "?x - ?x / 2 ^ 53 \<le> round_f64 ?x" by (rule round_f64_ge[OF lo up])
    moreover have "?x / 2 ^ 53 \<le> of_nat n / 2 ^ 53" using xt tn by (intro divide_right_mono) auto
    moreover have "of_nat n / 2 ^ 54 + of_nat n / 2 ^ 53 < (1 / 100 :: rat)" using n(2) by simp
    ultimately show ?thesis using gap by linarith
  qed
  ultimately show ?thesis by (intro ceiling_unique) simp_all
qed

definition nearest_rank :: "int \<Rightarrow> nat \<Rightarrow> nat" where
  "nearest_rank a n = nat \<lceil>of_int a * of_nat n / (100 :: rat)\<rceil> - 1"

lemma nearest_rank_bounds:
  assumes "0 < a" and "a \<le> 100" and "0 < n"
  shows "nearest_rank a n < n" "of_int a * of_nat n / 100 \<le> (of_nat (Suc (nearest_rank a n)) :: rat)"
    "of_nat (nearest_rank a n) < of_int a * of_nat n / (100 :: rat)"
    "1 \<le> \<lceil>of_int a * of_nat n / (100 :: rat)\<rceil>" "\<lceil>of_int a * of_nat n / (100 :: rat)\<rceil> \<le> int n"
proof -
  let ?t = "of_int a * of_nat n / (100 :: rat)"
  have "0 < ?t" using assms(1,3) by simp
  then show k: "1 \<le> \<lceil>?t\<rceil>" by (simp add: less_ceiling_iff int_one_le_iff_zero_less)
  have "(of_int a :: rat) * of_nat n \<le> 100 * of_nat n" by (rule mult_right_mono) (use assms(2) in simp_all)
  then have "?t \<le> of_int (int n)" by simp
  then show n: "\<lceil>?t\<rceil> \<le> int n" by (simp add: ceiling_le_iff)
  have s: "int (Suc (nearest_rank a n)) = \<lceil>?t\<rceil>" using k by (simp add: nearest_rank_def)
  then show "nearest_rank a n < n" using n by linarith
  have "(of_nat (Suc (nearest_rank a n)) :: rat) = of_int \<lceil>?t\<rceil>" by (metis s of_int_of_nat_eq)
  moreover have "?t \<le> of_int \<lceil>?t\<rceil>" "of_int \<lceil>?t\<rceil> - 1 < ?t" using ceiling_correct[of ?t] by blast+
  ultimately show "?t \<le> of_nat (Suc (nearest_rank a n))" "of_nat (nearest_rank a n) < ?t" by simp_all
qed

lemma rank_of_nearest:
  assumes "a \<in> {50, 95, 99}" and "0 < n" and "n < 2 ^ 44"
  shows "rank_of (of_int a / 100) n = nearest_rank a n"
proof -
  have "round_f64 (of_int a / 100) \<le> of_int a / 100" "of_int a / 100 - 1 / 2 ^ 54 \<le> round_f64 (of_int a / 100)"
    "1 / 2 \<le> round_f64 (of_int a / 100)"
    using assms(1) by (auto, code_simp+)
  from ceiling_exact[OF this _ assms(2,3)] assms(1)
  have "\<lceil>round_f64 (round_f64 (of_int a / 100) * of_nat n)\<rceil> = \<lceil>of_int a * of_nat n / (100 :: rat)\<rceil>" by auto
  moreover have "1 \<le> \<lceil>of_int a * of_nat n / (100 :: rat)\<rceil>" "\<lceil>of_int a * of_nat n / (100 :: rat)\<rceil> \<le> int n"
    using nearest_rank_bounds(4,5)[of a n] assms by auto
  ultimately show ?thesis by (simp add: rank_of_def Let_def nearest_rank_def nat_diff_distrib)
qed


text \<open>An element of a sorted list at rank \<open>k\<close> has at least \<open>k + 1\<close> elements at or below it and at most \<open>k\<close> below.\<close>

lemma sorted_rank:
  fixes xs :: "'a :: linorder list"
  assumes "sorted xs" and "k < length xs"
  shows "Suc k \<le> length (filter (\<lambda>x. x \<le> xs ! k) xs)" "length (filter (\<lambda>x. x < xs ! k) xs) \<le> k"
proof -
  have split: "xs = take (Suc k) xs @ drop (Suc k) xs" by simp
  have "\<forall>x \<in> set (take (Suc k) xs). x \<le> xs ! k"
    using assms(2) sorted_nth_mono[OF assms(1), of _ k] by (auto simp: in_set_conv_nth less_Suc_eq_le)
  then have "length (filter (\<lambda>x. x \<le> xs ! k) (take (Suc k) xs)) = Suc k" using assms(2) by simp
  then show "Suc k \<le> length (filter (\<lambda>x. x \<le> xs ! k) xs)" by (metis split filter_append length_append le_add1)
  have "\<forall>x \<in> set (drop k xs). \<not> x < xs ! k"
    using sorted_nth_mono[OF assms(1), of k] by (auto simp: in_set_conv_nth not_less)
  then have "filter (\<lambda>x. x < xs ! k) (drop k xs) = []" by (simp add: filter_empty_conv)
  then have "length (filter (\<lambda>x. x < xs ! k) xs) = length (filter (\<lambda>x. x < xs ! k) (take k xs))"
    by (metis append.right_neutral append_take_drop_id filter_append)
  also have "\<dots> \<le> k" using length_filter_le[of _ "take k xs"] by (rule order_trans) simp
  finally show "length (filter (\<lambda>x. x < xs ! k) xs) \<le> k" .
qed

lemma nearest_rank_mono: "a \<le> b \<Longrightarrow> nearest_rank a n \<le> nearest_rank b n"
  unfolding nearest_rank_def
  by (intro diff_le_mono nat_mono ceiling_mono divide_right_mono mult_right_mono) simp_all

text \<open>
  C29. The percentiles are exact. For fewer than \<open>2 ^ 44\<close> latencies, the floating-point index of the code
  is the nearest rank: each of the three percentiles reported is a latency that was measured, at
  least that share of the latencies is no greater and less than that share is smaller; they do not
  decrease, and the maximum is the last.
\<close>

theorem percentiles_nearest_rank:
  assumes "sorted xs" and "xs \<noteq> []" and "length xs < 2 ^ 44"
  shows "\<exists>v50 v95 v99. Count (percentiles xs) = length xs \<and>
    P50 (percentiles xs) = Seconds v50 \<and> P95 (percentiles xs) = Seconds v95 \<and>
    P99 (percentiles xs) = Seconds v99 \<and> Max (percentiles xs) = Seconds (last xs) \<and>
    v50 \<le> v95 \<and> v95 \<le> v99 \<and> v99 \<le> last xs \<and> {v50, v95, v99} \<subseteq> set xs \<and>
    (\<forall>(a, v) \<in> {(50, v50), (95, v95), (99, v99)}.
       of_int a * of_nat (length xs) / (100 :: rat) \<le> of_nat (length (filter (\<lambda>x. x \<le> v) xs)) \<and>
       (of_nat (length (filter (\<lambda>x. x < v) xs)) :: rat) < of_int a * of_nat (length xs) / 100)"
proof -
  let ?n = "length xs"
  have n: "0 < ?n" using assms(2) by simp
  define v where "v a = xs ! nearest_rank a ?n" for a
  have p: "P50 (percentiles xs) = Seconds (v 50)" "P95 (percentiles xs) = Seconds (v 95)" "P99 (percentiles xs) = Seconds (v 99)"
    "Max (percentiles xs) = Seconds (last xs)" "Count (percentiles xs) = ?n"
    using rank_of_nearest[OF _ n assms(3), of 50] rank_of_nearest[OF _ n assms(3), of 95]
      rank_of_nearest[OF _ n assms(3), of 99] assms(2)
    by (simp_all add: percentiles_def Let_def v_def last_conv_nth)
  have r: "v a \<in> set xs \<and> of_int a * of_nat ?n / (100 :: rat) \<le> of_nat (length (filter (\<lambda>x. x \<le> v a) xs)) \<and>
      (of_nat (length (filter (\<lambda>x. x < v a) xs)) :: rat) < of_int a * of_nat ?n / 100 \<and> v a \<le> last xs"
    if "0 < a" "a \<le> 100" for a
  proof -
    note b = nearest_rank_bounds[OF that n]
    note s = sorted_rank[OF assms(1) b(1), folded v_def]
    have "(of_nat (Suc (nearest_rank a ?n)) :: rat) \<le> of_nat (length (filter (\<lambda>x. x \<le> v a) xs))"
      "(of_nat (length (filter (\<lambda>x. x < v a) xs)) :: rat) \<le> of_nat (nearest_rank a ?n)"
      using s by (simp_all only: of_nat_le_iff)
    moreover have "v a \<le> last xs"
      unfolding v_def last_conv_nth[OF assms(2)] using b(1) by (intro sorted_nth_mono[OF assms(1)]) auto
    moreover have "v a \<in> set xs" unfolding v_def using b(1) by simp
    ultimately show ?thesis using b(2,3) by linarith
  qed
  have "v a \<le> v b" if "a \<le> b" "0 < b" "b \<le> 100" for a b
    unfolding v_def using nearest_rank_bounds(1)[OF that(2,3) n]
    by (intro sorted_nth_mono[OF assms(1)] nearest_rank_mono[OF that(1)])
  then have "v 50 \<le> v 95" "v 95 \<le> v 99" by simp_all
  with p r[of 50] r[of 95] r[of 99] show ?thesis
    by (intro exI[of _ "v 50"] exI[of _ "v 95"] exI[of _ "v 99"]) simp
qed

lemma percentiles_nearest_rank_witness: "\<exists>v. P99 (percentiles [1, 5, 9]) = Seconds v \<and> v \<in> {1, 5, 9} \<and> v \<le> 9"
  using percentiles_nearest_rank[of "[1, 5, 9]"] by auto

text \<open>The waiting of \<open>measureEndToEnd\<close> is bounded by its deadline.\<close>

lemma drain_loop_returns:
  assumes "\<And>i. d_now D i + 1 \<le> d_now D (Suc i)"
  shows "\<exists>r. drain_loop D deadline want i = Some r"
proof (induction "nat (deadline - d_now D i)" arbitrary: i rule: less_induct)
  case less
  show ?case
  proof (cases "d_now D i < deadline")
    case True
    then have "nat (deadline - d_now D (Suc i)) < nat (deadline - d_now D i)" using assms[of i] by simp
    from less[OF this] show ?thesis
      by (subst drain_loop.simps) (auto split: sum.split option.split)
  qed (subst drain_loop.simps, simp)
qed

lemma measureEndToEnd_missing:
  assumes "measureEndToEnd pool D deadline want (Inr s) = Some (Inr s')"
  shows "pool = None \<and> Missing s' = int want - int (Count s) \<and> Count s' = Count s"
  using assms by (auto simp: measureEndToEnd_def split: option.splits)

end
