(* ===== verification/Loadgen_Run.thy ===== *)
theory Loadgen_Run
  imports Loadgen
begin

text \<open>
  \<open>cmd/loadgen/main.go\<close>, \<open>run\<close>: the permits that cap the requests in flight, the goroutines that send
  them, and what is done when they have all returned. A goroutine records its reply, then gives
  its permit back, then is done; \<open>returning\<close> counts those that have recorded their reply and not
  yet given the permit back. The schedule itself is \<open>send_loop\<close> in \<open>Loadgen\<close>.
\<close>

section \<open>Requests in flight\<close>

datatype lphase = Sending | Waiting | Finished

record lrun =
  permits :: nat
  seqno :: nat
  flying :: "(nat \<times> time) list"
  returning :: nat
  res :: results
  lphase :: lphase

text \<open>The channel holds as many permits as there may be requests; \<open>make\<close> panics for a negative size.\<close>

definition new_run :: "int \<Rightarrow> lrun option" where
  "new_run concurrency =
     (if concurrency < 0 then None
      else Some \<lparr>permits = nat concurrency, seqno = 0, flying = [], returning = 0, res = no_results, lphase = Sending\<rparr>)"

definition due_at :: "duration \<Rightarrow> time \<Rightarrow> nat \<Rightarrow> time" where
  "due_at interval start i = start + dur_mul i interval"

text \<open>\<open>launch\<close> takes a permit; giving one back waits while the channel is full.\<close>

inductive load_step :: "int \<Rightarrow> duration \<Rightarrow> time \<Rightarrow> time \<Rightarrow> lrun \<Rightarrow> lrun \<Rightarrow> bool" for conc interval start deadline where
  launch: "lphase s = Sending \<Longrightarrow> permits s = Suc k \<Longrightarrow> \<not> due_at interval start (seqno s) > deadline \<Longrightarrow>
    load_step conc interval start deadline s
      (s\<lparr>permits := k, seqno := Suc (seqno s), flying := flying s @ [(seqno s, due_at interval start (seqno s))]\<rparr>)"
| reply: "flying s = xs @ (i, due) # ys \<Longrightarrow>
    load_step conc interval start deadline s
      (s\<lparr>flying := xs @ ys, returning := Suc (returning s), res := send due rep (res s)\<rparr>)"
| give_back: "returning s = Suc k \<Longrightarrow> int (permits s) < conc \<Longrightarrow>
    load_step conc interval start deadline s (s\<lparr>returning := k, permits := Suc (permits s)\<rparr>)"
| last_sent: "lphase s = Sending \<Longrightarrow> load_step conc interval start deadline s (s\<lparr>lphase := Waiting\<rparr>)"
| all_done: "lphase s = Waiting \<Longrightarrow> flying s = [] \<Longrightarrow> returning s = 0 \<Longrightarrow>
    load_step conc interval start deadline s (s\<lparr>lphase := Finished\<rparr>)"

inductive load_reachable :: "int \<Rightarrow> duration \<Rightarrow> time \<Rightarrow> time \<Rightarrow> lrun \<Rightarrow> bool" for conc interval start deadline where
  init: "new_run conc = Some s \<Longrightarrow> load_reachable conc interval start deadline s"
| step: "load_reachable conc interval start deadline s \<Longrightarrow> load_step conc interval start deadline s t \<Longrightarrow>
    load_reachable conc interval start deadline t"

text \<open>After the last goroutine: the report, and the end-to-end figures if there is a database to ask.\<close>

definition finish_run ::
  "string \<Rightarrow> nat \<Rightarrow> (nat \<Rightarrow> latencyStats res option) \<Rightarrow> lrun \<Rightarrow> (report \<times> latencyStats option) option" where
  "finish_run dsn b e2e_of s =
     (let rep = summarise b (res s) in
      if dsn = '''' then Some (rep, None)
      else (case e2e_of (Accepted rep) of
              None \<Rightarrow> None
            | Some (Inl e) \<Rightarrow> Some (rep, None)
            | Some (Inr e2e) \<Rightarrow> Some (rep, Some e2e)))"

section \<open>Properties\<close>

text \<open>Permits are neither lost nor made, and every request launched is in flight or recorded.\<close>

definition load_inv :: "int \<Rightarrow> duration \<Rightarrow> time \<Rightarrow> lrun \<Rightarrow> bool" where
  "load_inv conc interval start s \<longleftrightarrow>
     int (permits s + length (flying s) + returning s) = conc \<and>
     (lphase s = Finished \<longrightarrow> flying s = [] \<and> returning s = 0) \<and>
     (\<exists>xs. res s = send_all xs \<and>
        mset (map fst xs) + mset (map snd (flying s)) = mset (map (due_at interval start) [0..<seqno s]))"

lemma send_all_snoc: "send_all (xs @ [(due, rep)]) = send due rep (send_all xs)"
  by (simp add: send_all_def)

lemma load_reachable_inv: "load_reachable conc interval start deadline s \<Longrightarrow> load_inv conc interval start s"
proof (induction rule: load_reachable.induct)
  case (init s)
  have "no_results = send_all []" by (simp add: send_all_def)
  with init show ?case by (auto simp: new_run_def load_inv_def split: if_splits)
next
  case (step s t)
  from step.IH obtain xs where xs: "res s = send_all xs"
    "mset (map fst xs) + mset (map snd (flying s)) = mset (map (due_at interval start) [0..<seqno s])"
    and c: "int (permits s + length (flying s) + returning s) = conc" "lphase s = Finished \<longrightarrow> flying s = [] \<and> returning s = 0"
    by (auto simp: load_inv_def)
  from step.hyps(2) show ?case
  proof (cases rule: load_step.cases)
    case (launch k)
    with xs c show ?thesis by (auto simp: load_inv_def)
  next
    case (reply ys i due zs rep)
    have "mset (map fst (xs @ [(due, rep)])) + mset (map snd (ys @ zs)) = mset (map (due_at interval start) [0..<seqno s])"
      using xs(2) reply(2) by simp
    with reply xs(1) c show ?thesis unfolding load_inv_def
      by (auto simp: send_all_snoc intro!: exI[of _ "xs @ [(due, rep)]"])
  qed (use xs c in \<open>auto simp: load_inv_def\<close>)
qed



end
