(* ===== verification/Loadgen_Report.thy ===== *)
theory Loadgen_Report
  imports Loadgen_Run
begin

text \<open>
  \<open>cmd/loadgen/main.go\<close>: \<open>main\<close> after the flags, and the printed report. What is printed is a list of
  lines. Formats of floating-point numbers are arguments: \<open>f1\<close> is \<open>%8.1f\<close>, \<open>ms\<close> the same of a thousand
  times its argument, \<open>pct\<close> the percentage of the target rate; so is \<open>fm\<close>, how a map is printed.
\<close>

record lheading =
  Tag :: string
  TargetRate :: f64
  AchievedRate :: f64
  WallClock :: f64

text \<open>The label of a run: the flag, or the second it started in.\<close>

definition run_tag :: "string \<Rightarrow> int \<Rightarrow> string" where
  "run_tag tag unix = (if tag = '''' then ''load-'' @ itoa unix else tag)"

definition printStats :: "(f64 \<Rightarrow> string) \<Rightarrow> latencyStats \<Rightarrow> string list" where
  "printStats ms s =
     [''  count          '' @ d8 (int (Count s)),
      ''  p50            '' @ ms (P50 s) @ '' ms'',
      ''  p95            '' @ ms (P95 s) @ '' ms'',
      ''  p99            '' @ ms (P99 s) @ '' ms'',
      ''  max            '' @ ms (Max s) @ '' ms'']"

definition print_e2e :: "(f64 \<Rightarrow> string) \<Rightarrow> latencyStats option \<Rightarrow> string list" where
  "print_e2e ms e2e =
     (case e2e of
        None \<Rightarrow> []
      | Some s \<Rightarrow>
          ['''', ''end-to-end latency (api accepted -> row committed)''] @ printStats ms s @
          (if Missing s > 0
           then [''  MISSING        '' @ d8 (Missing s) @ '' rows accepted but not persisted within the drain window''] else []))"

definition print_load ::
  "(f64 \<Rightarrow> string) \<Rightarrow> (f64 \<Rightarrow> string) \<Rightarrow> (f64 \<Rightarrow> f64 \<Rightarrow> string) \<Rightarrow> ((nat \<Rightarrow> nat) \<Rightarrow> string) \<Rightarrow> lheading \<Rightarrow>
   report \<times> latencyStats option \<Rightarrow> string list" where
  "print_load f1 ms pct fm H re =
     ['''', ''=== '' @ Tag H @ '' ==='',
      ''target rate      '' @ f1 (TargetRate H) @ ''/s'',
      ''achieved rate    '' @ f1 (AchievedRate H) @ ''/s   ('' @ pct (AchievedRate H) (TargetRate H) @ ''% of target)'',
      ''wall clock       '' @ f1 (WallClock H) @ ''s'',
      ''sent / accepted  '' @ d8 (int (Sent (fst re))) @ '' / '' @ itoa (int (Accepted (fst re)))] @
     (if Failed (fst re) > 0 then [''failed           '' @ d8 (int (Failed (fst re)))] else []) @
     (if SchedulerBehind (fst re) > 0
      then [''scheduler behind '' @ d8 (int (SchedulerBehind (fst re))) @
            ''   (generator could not keep up; treat results with suspicion)''] else []) @
     [''status codes     '' @ fm (Codes (fst re)), '''',
      ''accept latency (client -> 202, measured from scheduled send time)''] @
     printStats ms (Accept (fst re)) @ print_e2e ms (snd re)"

definition lg_writeJSON :: "(string \<Rightarrow> err option) \<Rightarrow> err option \<Rightarrow> string \<Rightarrow> err option" where
  "lg_writeJSON create encode path = (case create path of Some e \<Rightarrow> Some e | None \<Rightarrow> encode)"

text \<open>The exit status and what is on the standard output; \<open>run\<close> itself returns no error.\<close>

definition lg_main ::
  "(string \<Rightarrow> err option) \<Rightarrow> err option \<Rightarrow> string \<Rightarrow> string list \<Rightarrow> nat \<times> string list" where
  "lg_main create encode jsonOut printed =
     (if jsonOut \<noteq> '''' then
        (case lg_writeJSON create encode jsonOut of
           Some e \<Rightarrow> (1, printed)
         | None \<Rightarrow> (0, printed @ ['''', ''report written to '' @ jsonOut]))
      else (0, printed))"

section \<open>Properties\<close>

definition says_missing :: "string \<Rightarrow> bool" where
  "says_missing l \<longleftrightarrow> take 9 l = ''  MISSING''"

lemma missing_stats: "filter says_missing (printStats ms s) = []"
  by (simp add: printStats_def says_missing_def)

lemma missing_e2e: "filter says_missing (print_e2e ms e) = [] \<longleftrightarrow> \<not> (\<exists>s. e = Some s \<and> Missing s > 0)"
proof (cases e)
  case (Some s)
  have "filter says_missing ['''', ''end-to-end latency (api accepted -> row committed)''] = []"
    by (simp add: says_missing_def)
  moreover have "filter says_missing (if Missing s > 0 then [''  MISSING        '' @ x] else []) = [] \<longleftrightarrow> \<not> Missing s > 0" for x
    by (simp add: says_missing_def)
  ultimately show ?thesis unfolding print_e2e_def Some option.case filter_append append_is_Nil_conv missing_stats by simp
qed (simp add: print_e2e_def)

text \<open>
  The report tells of lost orders. If the generator waited for the pipeline, fewer rows were found
  than orders accepted, and the queries succeeded, then the report of the run says how many are
  missing; and it says so only then. The exit status does not: it is 1 only if the file cannot
  be written.
\<close>

lemma load_report_tells:
  assumes "dsn \<noteq> ''''" and "finish_run dsn b (\<lambda>want. measureEndToEnd pool D deadline want (Inr st)) s = Some (rep, e2e)"
  shows "(filter says_missing (print_load f1 ms pct fm H (rep, e2e)) \<noteq> [] \<longleftrightarrow> e2e \<noteq> None \<and> Count st < Accepted rep) \<and>
    (fst (lg_main create encode jsonOut (print_load f1 ms pct fm H (rep, e2e))) = 0 \<longleftrightarrow>
       jsonOut = '''' \<or> (create jsonOut = None \<and> encode = None))"
proof
  have e: "e2e = Some (st\<lparr>Missing := int (Accepted rep) - int (Count st)\<rparr>) \<or> e2e = None"
    using assms by (auto simp: finish_run_def measureEndToEnd_def Let_def split: option.splits sum.splits)
  have head: "filter says_missing ['''', ''=== '' @ Tag H @ '' ==='', ''target rate      '' @ f1 (TargetRate H) @ ''/s'',
      ''achieved rate    '' @ f1 (AchievedRate H) @ ''/s   ('' @ pct (AchievedRate H) (TargetRate H) @ ''% of target)'',
      ''wall clock       '' @ f1 (WallClock H) @ ''s'',
      ''sent / accepted  '' @ d8 (int (Sent (fst (rep, e2e)))) @ '' / '' @ itoa (int (Accepted (fst (rep, e2e))))] = []"
    by (simp add: says_missing_def)
  have optional: "filter says_missing (if c then [''failed           '' @ x] else []) = []"
    "filter says_missing (if c then [''scheduler behind '' @ x] else []) = []" for c x
    by (simp_all add: says_missing_def)
  have codes: "filter says_missing [''status codes     '' @ x, '''', ''accept latency (client -> 202, measured from scheduled send time)''] = []" for x
    by (simp add: says_missing_def)
  have "filter says_missing (print_load f1 ms pct fm H (rep, e2e)) \<noteq> [] \<longleftrightarrow> (\<exists>s. e2e = Some s \<and> Missing s > 0)"
    unfolding print_load_def filter_append head optional codes missing_stats append_is_Nil_conv
    using missing_e2e[of ms e2e] by simp
  with e show "filter says_missing (print_load f1 ms pct fm H (rep, e2e)) \<noteq> [] \<longleftrightarrow> e2e \<noteq> None \<and> Count st < Accepted rep"
    by auto
  show "fst (lg_main create encode jsonOut (print_load f1 ms pct fm H (rep, e2e))) = 0 \<longleftrightarrow>
      jsonOut = '''' \<or> (create jsonOut = None \<and> encode = None)"
    by (auto simp: lg_main_def lg_writeJSON_def split: option.split)
qed

end
