(* ===== verification/Metrics.thy ===== *)
theory Metrics
  imports Worker Config Console_Prom Api
begin

text \<open>
  \<open>internal/metrics/metrics.go\<close>: the collectors every service registers when it starts, with the
  places that feed them: \<open>recordOutcome\<close>, \<open>logRetry\<close>, \<open>deadLetter\<close>, \<open>resumePaused\<close> and \<open>pollLag\<close> of the
  worker, \<open>createOrder\<close> of the API and \<open>instrument\<close> of the query service. The Prometheus client is a
  parameter: \<open>register\<close> says whether a registry takes a collector, and \<open>promauto\<close> panics if it does
  not; \<open>WithLabelValues\<close> panics unless there is a value for each label. The help texts and the
  values observed by histograms are not modelled, nor is the listener of \<open>Serve\<close>.
\<close>

section \<open>Collectors\<close>

definition OutcomePersisted :: string where "OutcomePersisted = ''persisted''"
definition OutcomeDuplicate :: string where "OutcomeDuplicate = ''duplicate''"
definition OutcomeDeadLetter :: string where "OutcomeDeadLetter = ''dead_letter''"

datatype mkind = Counter | Gauge | Histogram "rat list"

record collector =
  m_name :: string
  m_kind :: mkind
  m_labels :: "string list"

definition mk_metric :: "string \<Rightarrow> mkind \<Rightarrow> string list \<Rightarrow> collector" where
  "mk_metric n k ls = \<lparr>m_name = n, m_kind = k, m_labels = ls\<rparr>"

definition collectors :: "collector list" where
  "collectors =
     [mk_metric ''orders_accepted_total'' Counter [],
      mk_metric ''orders_rejected_total'' Counter [''reason''],
      mk_metric ''orders_processed_total'' Counter [''status''],
      mk_metric ''order_processing_duration_seconds''
        (Histogram [1/1000, 25/10000, 5/1000, 1/100, 25/1000, 5/100, 1/10, 25/100, 5/10, 1, 25/10, 5, 10, 30]) [''status''],
      mk_metric ''order_end_to_end_latency_seconds''
        (Histogram [5/1000, 1/100, 25/1000, 5/100, 1/10, 25/100, 5/10, 1, 25/10, 5, 10, 30, 60]) [],
      mk_metric ''consumer_lag'' Gauge [''topic'', ''partition''],
      mk_metric ''consumer_partitions_owned'' Gauge [],
      mk_metric ''consumer_partitions_paused'' Gauge [],
      mk_metric ''retries_total'' Counter [],
      mk_metric ''dlq_total'' Counter [''reason''],
      mk_metric ''kafka_produce_duration_seconds''
        (Histogram [1/1000, 25/10000, 5/1000, 1/100, 25/1000, 5/100, 1/10, 25/100, 5/10, 1, 25/10, 5]) [],
      mk_metric ''grpc_server_handling_seconds''
        (Histogram [5/10000, 1/1000, 25/10000, 5/1000, 1/100, 25/1000, 5/100, 1/10, 25/100, 5/10, 1]) [''method'', ''code'']]"

text \<open>The package's variables, initialised in order.\<close>

fun init_metrics :: "(collector list \<Rightarrow> collector \<Rightarrow> bool) \<Rightarrow> collector list \<Rightarrow> collector list \<Rightarrow> collector list go" where
  "init_metrics register reg [] = Val reg"
| "init_metrics register reg (c # cs) =
     (if register reg c then init_metrics register (reg @ [c]) cs else Panic)"

text \<open>
  What the client documents it takes: a name and label names of the right form, no label that
  histograms use themselves, buckets in increasing order, and a name not registered before.
\<close>

definition name_char :: "bool \<Rightarrow> char \<Rightarrow> bool" where
  "name_char first c \<longleftrightarrow>
     (CHR ''a'' \<le> c \<and> c \<le> CHR ''z'') \<or> (CHR ''A'' \<le> c \<and> c \<le> CHR ''Z'') \<or> c = CHR ''_'' \<or>
     (\<not> first \<and> CHR ''0'' \<le> c \<and> c \<le> CHR ''9'')"

definition good_name :: "string \<Rightarrow> bool" where
  "good_name s \<longleftrightarrow> s \<noteq> [] \<and> name_char True (hd s) \<and> list_all (name_char False) (tl s)"

definition good_label :: "string \<Rightarrow> bool" where
  "good_label s \<longleftrightarrow> good_name s \<and> take 2 s \<noteq> ''__''"

definition good_collector :: "collector \<Rightarrow> bool" where
  "good_collector c \<longleftrightarrow>
     good_name (m_name c) \<and> list_all good_label (m_labels c) \<and> distinct (m_labels c) \<and>
     (case m_kind c of Histogram bs \<Rightarrow> ''le'' \<notin> set (m_labels c) \<and> sorted_wrt (<) bs | _ \<Rightarrow> True)"

section \<open>Where they are fed\<close>

datatype mop = Inc string "string list" | SetTo string "string list" int | Observe string "string list"

definition m_recordOutcome :: "bool \<Rightarrow> mop list" where
  "m_recordOutcome new =
     (if new
      then [Inc ''orders_processed_total'' [OutcomePersisted],
            Observe ''order_processing_duration_seconds'' [OutcomePersisted],
            Observe ''order_end_to_end_latency_seconds'' []]
      else [Inc ''orders_processed_total'' [OutcomeDuplicate],
            Observe ''order_processing_duration_seconds'' [OutcomeDuplicate]])"

definition m_logRetry :: "mop list" where
  "m_logRetry = [Inc ''retries_total'' []]"

definition m_deadLetter :: "string \<Rightarrow> mop list" where
  "m_deadLetter reason = [Inc ''dlq_total'' [reason], Inc ''orders_processed_total'' [OutcomeDeadLetter]]"

text \<open>One tick of \<open>resumePaused\<close>, with what the dead-letter queue answers to \<open>Ping\<close>.\<close>

definition m_resume :: "err option \<Rightarrow> pausedSet \<Rightarrow> mop list" where
  "m_resume ping s =
     SetTo ''consumer_partitions_paused'' [] (int (paused_count s)) #
     (if paused_count s = 0 then []
      else (case ping of
              Some e \<Rightarrow> []
            | None \<Rightarrow>
                (case paused_take s of (parts, s') \<Rightarrow>
                   if parts = [] then []
                   else [SetTo ''consumer_partitions_paused'' [] (int (paused_count s'))])))"

definition m_createOrder :: "'k api \<Rightarrow> string \<Rightarrow> bytes \<Rightarrow> 'k \<Rightarrow> mop list" where
  "m_createOrder A idempotencyKey body k =
     (case ValidateIdempotencyKey idempotencyKey of
        Some e \<Rightarrow> [Inc ''orders_rejected_total'' [''validation'']]
      | None \<Rightarrow>
         (case a_decode A maxBodyBytes body of
            Inl e \<Rightarrow> [Inc ''orders_rejected_total'' [''malformed_body'']]
          | Inr req \<Rightarrow>
             (case Validate req of
                Some e \<Rightarrow> [Inc ''orders_rejected_total'' [''validation'']]
              | None \<Rightarrow>
                 (case a_uuid A k of (u1, k1) \<Rightarrow>
                 (case a_uuid A k1 of (u2, k2) \<Rightarrow>
                 (case a_now A k2 of (t, k3) \<Rightarrow>
                    let evt = NewEvent (a_sha1 A) u1 u2 t req idempotencyKey
                    in Observe ''kafka_produce_duration_seconds'' [] #
                       (case fst (a_publish A (OrderID evt) evt k3) of
                          Inl e \<Rightarrow> [Inc ''orders_rejected_total'' [''produce_failed'']]
                        | Inr pos \<Rightarrow> [Inc ''orders_accepted_total'' []])))))))"

definition m_instrument :: "string \<Rightarrow> string \<Rightarrow> mop list" where
  "m_instrument fullMethod code = [Observe ''grpc_server_handling_seconds'' [fullMethod, code]]"

text \<open>One tick of \<open>pollLag\<close>: the number of partitions owned, and what \<open>admin.Lag\<close> answered for the groups.\<close>

type_synonym lags = "(string \<times> (string \<times> (int \<times> int) list) list) list"

definition lag_tick :: "nat \<Rightarrow> string \<Rightarrow> lags res \<Rightarrow> mop list" where
  "lag_tick owned gid answer =
     SetTo ''consumer_partitions_owned'' [] (int owned) #
     (case answer of
        Inl e \<Rightarrow> []
      | Inr groups \<Rightarrow>
          (case map_of groups gid of
             None \<Rightarrow> []
           | Some described \<Rightarrow>
               concat (map (\<lambda>(topic, parts). map (\<lambda>(p, l). SetTo ''consumer_lag'' [topic, itoa p] l) parts) described)))"

text \<open>A feed that does not panic: the collector exists, is of that kind, and has that many labels.\<close>

definition op_ok :: "collector list \<Rightarrow> mop \<Rightarrow> bool" where
  "op_ok reg m =
     (case m of
        Inc n vs \<Rightarrow> list_ex (\<lambda>c. m_name c = n \<and> m_kind c = Counter \<and> length (m_labels c) = length vs) reg
      | SetTo n vs _ \<Rightarrow> list_ex (\<lambda>c. m_name c = n \<and> m_kind c = Gauge \<and> length (m_labels c) = length vs) reg
      | Observe n vs \<Rightarrow> list_ex (\<lambda>c. m_name c = n \<and> (\<exists>bs. m_kind c = Histogram bs) \<and> length (m_labels c) = length vs) reg)"

lemma init_metrics_good:
  assumes "\<And>reg c. good_collector c \<Longrightarrow> m_name c \<notin> m_name ` set reg \<Longrightarrow> register reg c"
  shows "list_all good_collector cs \<Longrightarrow> distinct (map m_name (reg @ cs)) \<Longrightarrow> init_metrics register reg cs = Val (reg @ cs)"
proof (induction cs arbitrary: reg)
  case (Cons c cs)
  have "register reg c" using Cons.prems by (intro assms) auto
  moreover have "init_metrics register (reg @ [c]) cs = Val ((reg @ [c]) @ cs)" using Cons.prems by (intro Cons.IH) auto
  ultimately show ?case by simp
qed simp

lemma collectors_good: "list_all good_collector collectors"
  by code_simp

lemma collectors_distinct: "distinct (map m_name collectors)"
  by code_simp

text \<open>Each place that feeds a collector, with any label values.\<close>

lemma op_ok_collectors [simp]:
  "op_ok collectors (Inc ''orders_accepted_total'' [])" "op_ok collectors (Inc ''orders_rejected_total'' [v])"
  "op_ok collectors (Inc ''orders_processed_total'' [v])" "op_ok collectors (Inc ''retries_total'' [])"
  "op_ok collectors (Inc ''dlq_total'' [v])"
  "op_ok collectors (Observe ''order_processing_duration_seconds'' [v])"
  "op_ok collectors (Observe ''order_end_to_end_latency_seconds'' [])"
  "op_ok collectors (Observe ''kafka_produce_duration_seconds'' [])"
  "op_ok collectors (Observe ''grpc_server_handling_seconds'' [v, w])"
  "op_ok collectors (SetTo ''consumer_lag'' [v, w] x)" "op_ok collectors (SetTo ''consumer_partitions_owned'' [] x)"
  "op_ok collectors (SetTo ''consumer_partitions_paused'' [] x)"
  by (simp_all add: op_ok_def collectors_def mk_metric_def)

lemmas feeds = m_recordOutcome_def m_logRetry_def m_deadLetter_def m_resume_def m_instrument_def lag_tick_def

lemma createOrder_measured:
  "(\<forall>m \<in> set (m_createOrder A key body k). op_ok collectors m) \<and>
   length (filter (\<lambda>m. m \<noteq> Observe ''kafka_produce_duration_seconds'' []) (m_createOrder A key body k)) = 1 \<and>
   (Inc ''orders_accepted_total'' [] \<in> set (m_createOrder A key body k) \<longleftrightarrow> Status (fst (createOrder A key body k)) = 202)"
proof -
  obtain u1 k1 where 1: "a_uuid A k = (u1, k1)" by fastforce
  obtain u2 k2 where 2: "a_uuid A k1 = (u2, k2)" by fastforce
  obtain t k3 where 3: "a_now A k2 = (t, k3)" by fastforce
  show ?thesis
    by (auto simp: m_createOrder_def createOrder_def writeError_def writeJSON_def Let_def 1 2 3 case_prod_unfold
        split: option.split sum.split)
qed

text \<open>
  C18. Measuring never brings a service down, and the counters of the API are those of its answers. If
  the client takes what it documents, every collector is registered when a service starts,
  without a panic; and wherever the code feeds one, for any reason, topic, partition, method or
  code, it is one of that kind with as many labels as values are given. Each request to create an
  order is counted once, as accepted exactly if it is answered with 202.
\<close>

theorem metrics_never_panic:
  assumes "\<And>reg c. good_collector c \<Longrightarrow> m_name c \<notin> m_name ` set reg \<Longrightarrow> register reg c"
  shows "init_metrics register [] collectors = Val collectors \<and>
    (\<forall>m \<in> set (m_recordOutcome new @ m_logRetry @ m_deadLetter reason @ m_resume ping ps @ m_createOrder A key body k @
                m_instrument meth code @ lag_tick owned gid answer). op_ok collectors m) \<and>
    length (filter (\<lambda>m. m \<noteq> Observe ''kafka_produce_duration_seconds'' []) (m_createOrder A key body k)) = 1 \<and>
    (Inc ''orders_accepted_total'' [] \<in> set (m_createOrder A key body k) \<longleftrightarrow> Status (fst (createOrder A key body k)) = 202)"
proof -
  have "init_metrics register [] collectors = Val ([] @ collectors)"
    by (rule init_metrics_good[OF assms]) (simp_all add: collectors_good collectors_distinct)
  moreover have "\<forall>m \<in> set (m_recordOutcome new @ m_logRetry @ m_deadLetter reason @ m_instrument meth code). op_ok collectors m"
    by (simp add: feeds)
  moreover have "\<forall>m \<in> set (m_resume ping ps). op_ok collectors m"
    by (auto simp: feeds split: option.splits prod.splits if_splits)
  moreover have "\<forall>m \<in> set (lag_tick owned gid answer). op_ok collectors m"
    by (auto simp: feeds split: sum.splits option.splits)
  ultimately show ?thesis using createOrder_measured[of A key body k] unfolding set_append ball_Un append_Nil by blast
qed

lemma metrics_never_panic_witness:
  "init_metrics (\<lambda>reg c. good_collector c \<and> m_name c \<notin> m_name ` set reg) [] collectors = Val collectors \<and>
   Inc ''orders_accepted_total'' [] \<in> set (m_createOrder sample_front ''k1'' ''{}'' 3)"
proof -
  have "Status (fst (createOrder sample_front ''k1'' ''{}'' 3)) = 202" by code_simp
  then show ?thesis
    using metrics_never_panic[of "\<lambda>reg c. good_collector c \<and> m_name c \<notin> m_name ` set reg" True "''''" None "[]" sample_front "''k1''" "''{}''" 3]
    by blast
qed

text \<open>What the gauges show after a tick that was answered.\<close>

fun apply_op :: "mop \<Rightarrow> (string \<times> string list \<Rightarrow> int) \<Rightarrow> (string \<times> string list \<Rightarrow> int)" where
  "apply_op (Inc n vs) g = g((n, vs) := g (n, vs) + 1)"
| "apply_op (SetTo n vs v) g = g((n, vs) := v)"
| "apply_op (Observe n vs) g = g((n @ ''_count'', vs) := g (n @ ''_count'', vs) + 1)"


section \<open>What the console reads of them\<close>

fun words_of :: "string \<Rightarrow> string \<Rightarrow> string list" where
  "words_of acc [] = (if acc = [] then [] else [acc])"
| "words_of acc (c # cs) =
     (if name_char False c then words_of (acc @ [c]) cs
      else (if acc = [] then [] else [acc]) @ words_of [] cs)"

definition promql :: "string list" where
  "promql = [''sum'', ''by'', ''le'', ''rate'', ''histogram_quantile'', ''0'', ''99'', ''30s'', ''1m'']"

definition sample_name :: "collector \<Rightarrow> string" where
  "sample_name c = (case m_kind c of Histogram _ \<Rightarrow> m_name c @ ''_bucket'' | _ \<Rightarrow> m_name c)"

definition reads :: "collector \<Rightarrow> string \<Rightarrow> bool" where
  "reads c q \<longleftrightarrow> sample_name c \<in> set (words_of [] q) \<and>
     set (words_of [] q) \<subseteq> set (sample_name c # m_labels c @ [OutcomePersisted, OutcomeDuplicate, OutcomeDeadLetter] @ promql)"

definition lag_query :: "string \<Rightarrow> string" where
  "lag_query gid = ''sum(kafka_consumergroup_lag{consumergroup='' @ [CHR 0x22] @ gid @ [CHR 0x22] @ ''})''"

lemma queries_read:
  "list_all (\<lambda>q. q = lag_query ''order-processors'' \<or> list_ex (\<lambda>c. reads c q) collectors) (map t_query tiles @ map snd sparks)"
  by code_simp

lemma lag_query_inj: "lag_query a = lag_query b \<longleftrightarrow> a = b"
  by (simp add: lag_query_def)

lemma lag_tiles: "lag_query gid \<in> set (map t_query tiles) \<longleftrightarrow> gid = ''order-processors''"
proof -
  have "filter (\<lambda>q. take 10 q = take 10 (lag_query gid)) (map t_query tiles) = [lag_query ''order-processors'']"
    by (simp add: tiles_def mk_tile_def lag_query_def)
  then have "lag_query gid \<in> set (map t_query tiles) \<longleftrightarrow> lag_query gid \<in> set [lag_query ''order-processors'']"
    unfolding set_filter[symmetric] by (simp only: \<open>filter _ _ = _\<close>[symmetric] set_filter) blast
  then show ?thesis by (simp add: lag_query_inj)
qed

text \<open>
  C19. The console shows what the services measure. Every tile and every chart but the lag reads one
  collector that the services register, by its sample name, with no label but its own and no
  status but one the worker gives. The lag is that of the consumer group of the workers as long
  as the group is not configured, and only then.
\<close>

theorem console_reads_exported:
  "(\<forall>q \<in> set (map t_query tiles @ map snd sparks).
      q = lag_query ''order-processors'' \<or> (\<exists>c \<in> set collectors. reads c q)) \<and>
   (Load quote ge = Inr cfg \<longrightarrow>
      (ge ''KAFKA_GROUP_ID'' = None \<longrightarrow> lag_query (KafkaGroupID cfg) \<in> set (map t_query tiles)) \<and>
      (lag_query (KafkaGroupID cfg) \<in> set (map t_query tiles) \<longleftrightarrow> KafkaGroupID cfg = ''order-processors''))"
proof -
  have "KafkaGroupID cfg = ''order-processors''" if "Load quote ge = Inr cfg" "ge ''KAFKA_GROUP_ID'' = None"
    using Load_group[OF that(1)] that(2) by (simp add: env_var_def)
  moreover have "\<forall>q \<in> set (map t_query tiles @ map snd sparks).
      q = lag_query ''order-processors'' \<or> (\<exists>c \<in> set collectors. reads c q)"
    using queries_read unfolding list_all_iff list_ex_iff .
  ultimately show ?thesis unfolding lag_tiles by blast
qed


lemma console_reads_exported_witness:
  "\<exists>cfg. Load (\<lambda>s. s) (\<lambda>_. None) = Inr cfg \<and> lag_query (KafkaGroupID cfg) \<in> set (map t_query tiles)"
proof -
  have "(case Load (\<lambda>s. s) (\<lambda>_. None) of Inl _ \<Rightarrow> False | Inr _ \<Rightarrow> True)" by code_simp
  then obtain cfg where "Load (\<lambda>s. s) (\<lambda>_. None) = Inr cfg" by (auto split: sum.splits)
  with console_reads_exported[of "\<lambda>s. s" "\<lambda>_. None" cfg] show ?thesis by blast
qed


text \<open>
  After a tick that was answered, the lag gauge of every partition described is its lag: which of
  them the worker owns, and what the gauge showed before, does not matter.
\<close>

lemma fold_SetTo_other: "k \<notin> fst ` set xs \<Longrightarrow> fold apply_op (map (\<lambda>((n, vs), v). SetTo n vs v) xs) g k = g k"
  by (induction xs arbitrary: g) auto

lemma fold_SetTo: "(k, v) \<in> set xs \<Longrightarrow> distinct (map fst xs) \<Longrightarrow> fold apply_op (map (\<lambda>((n, vs), v). SetTo n vs v) xs) g k = v"
proof (induction xs arbitrary: g)
  case (Cons x xs)
  obtain n vs u where x: "x = ((n, vs), u)" by (metis prod.exhaust)
  show ?case
  proof (cases "(k, v) = x")
    case True
    with Cons.prems(2) have "k \<notin> fst ` set xs" "k = (n, vs)" "u = v" by (auto simp: x)
    then show ?thesis using fold_SetTo_other[of k xs "g((n, vs) := u)"] by (simp add: x)
  next
    case False
    with Cons show ?thesis by (auto simp: x)
  qed
qed simp

definition lag_samples :: "(string \<times> (int \<times> int) list) list \<Rightarrow> ((string \<times> string list) \<times> int) list" where
  "lag_samples described =
     concat (map (\<lambda>(topic, parts). map (\<lambda>(p, l). ((''consumer_lag'', [topic, itoa p]), l)) parts) described)"

lemma lag_samples_keys: "k \<in> fst ` set (lag_samples d) \<Longrightarrow> \<exists>t p. k = (''consumer_lag'', [t, itoa p]) \<and> t \<in> fst ` set d"
  by (force simp: lag_samples_def)

lemma lag_samples_distinct:
  "distinct (map fst d) \<Longrightarrow> \<forall>(t, ps) \<in> set d. distinct (map fst ps) \<Longrightarrow> distinct (map fst (lag_samples d))"
proof (induction d)
  case Nil
  then show ?case by (simp add: lag_samples_def)
next
  case (Cons x d)
  obtain t ps where x: "x = (t, ps)" by fastforce
  let ?h = "map (\<lambda>(p, l). ((''consumer_lag'', [t, itoa p]), l)) ps"
  have eq: "lag_samples (x # d) = ?h @ lag_samples d" by (simp add: lag_samples_def x)
  have "map fst ?h = map (\<lambda>p. (''consumer_lag'', [t, itoa p])) (map fst ps)" by (simp add: case_prod_beta)
  moreover have "distinct (map (\<lambda>p. (''consumer_lag'', [t, itoa p])) (map fst ps))"
    using Cons.prems(2) x by (auto simp: distinct_map inj_on_def itoa_inj)
  moreover have "fst ` set ?h \<inter> fst ` set (lag_samples d) = {}"
    using Cons.prems(1) by (auto simp: x dest!: lag_samples_keys[OF image_eqI[OF refl]]) (metis fst_conv image_eqI)
  moreover have "distinct (map fst (lag_samples d))" using Cons by simp
  ultimately show ?case unfolding eq map_append distinct_append set_map by (simp only: simp_thms)
qed

theorem lag_gauge_current:
  assumes "map_of groups gid = Some described" and "distinct (map fst described)"
    and "\<forall>(t, ps) \<in> set described. distinct (map fst ps)" and "(t, ps) \<in> set described" and "(p, l) \<in> set ps"
  shows "fold apply_op (lag_tick owned gid (Inr groups)) g (''consumer_lag'', [t, itoa p]) = l"
proof -
  have "lag_tick owned gid (Inr groups) =
      SetTo ''consumer_partitions_owned'' [] (int owned) # map (\<lambda>((n, vs), v). SetTo n vs v) (lag_samples described)"
    using assms(1) by (simp add: lag_tick_def lag_samples_def map_concat o_def prod.case_distrib[of "map _"] case_prod_unfold)
  moreover have "((''consumer_lag'', [t, itoa p]), l) \<in> set (lag_samples described)"
    using assms(4,5) by (force simp: lag_samples_def)
  ultimately show ?thesis using fold_SetTo[OF _ lag_samples_distinct[OF assms(2,3)]] by simp
qed

end
