(* ===== verification/Spec2Isabelle.thy ===== *)
theory Spec2Isabelle
  imports Service_Stop Replay_Report Api Healthcheck Console_Main Console_Watch Loadgen_Report Metrics
begin

text \<open>
  A verification development of the order pipeline: an HTTP API that accepts orders and publishes
  them to Kafka, a worker that consumes the topic and writes the orders to PostgreSQL, a gRPC
  service that reads them, a tool that replays dead letters, and an operator console.

  \<^bold>\<open>The parts and how they meet.\<close> \<open>cmd/api\<close> validates a request, derives its identity from the
  client's idempotency key and publishes one event; it answers 202 only for an acknowledged
  record. \<open>cmd/worker\<close> processes the records of each partition in order: insert, retry what may
  pass, park in the dead-letter topic what will not, and commit only past records that are in
  the database or parked. Redelivery is expected, so the insert is idempotent. \<open>cmd/query\<close> reads
  the table by key and by page. \<open>cmd/replay\<close> walks the dead-letter topic and produces the
  recoverable records back. \<open>cmd/console\<close> lets one operator log in, watch the stack and run a fixed
  set of commands. \<open>cmd/loadgen\<close> drives the API at a rate and reports what came back.

  \<^bold>\<open>Theories\<close>, each named with the files under \<open>src/\<close> that it models.

  \<^item> \<open>Go_Prelude\<close>: Go's strings, integers as text and error values. \<open>Go_Float\<close>: \<open>float64\<close> as far as it is
    compared and rounded. \<open>Base64\<close>: the raw URL encoding and its round trip.
  \<^item> \<open>Order_Domain\<close> (\<open>internal/order\<close>): \<open>Validate\<close>, \<open>NewEvent\<close>, \<open>ValidateIdempotencyKey\<close>. \<open>Retry\<close>
    (\<open>internal/retry\<close>): \<open>Delay\<close> and the loop of \<open>Do\<close>.
  \<^item> \<open>Store_Errors\<close>, \<open>Store\<close>, \<open>Store_Query\<close> (\<open>internal/store\<close>): error classes, the table and its two
    writes, point reads and keyset pages.
  \<^item> \<open>Broker\<close> (\<open>internal/broker\<close>): publishing, dead letters, the assignment of a group member.
  \<^item> \<open>Worker\<close>, \<open>Pipeline\<close>, \<open>Consumer_Loop\<close>, \<open>Worker_Main\<close> (\<open>cmd/worker\<close>): the processing of records, chunks
    and partitions against interfaces; the same on the store and the queue; the poll loop with
    pausing, resuming, restarts and rebalances as a step relation; the process from the signal
    to its exit.
  \<^item> \<open>Replay\<close>, \<open>Replay_Run\<close>, \<open>Replay_Report\<close> (\<open>cmd/replay\<close>): decisions, the walk, the poll loop and
    verification; the same on a dead-letter topic; the report and the exit status.
  \<^item> \<open>Query_Server\<close> (\<open>cmd/query\<close>), \<open>Api\<close> (\<open>cmd/api\<close>), \<open>Config\<close> (\<open>internal/config\<close>), \<open>Healthcheck\<close>
    (\<open>internal/healthcheck\<close>).
  \<^item> \<open>Service_Main\<close>, \<open>Service_Stop\<close> (\<open>cmd/api\<close>, \<open>cmd/query\<close>, \<open>cmd/worker\<close>, \<open>cmd/smoke\<close> and the constructors of
    \<open>internal/store\<close> and \<open>internal/broker\<close>): what \<open>main\<close> opens before a service runs and with which
    options; the smoke check; how the servers stop. \<open>Metrics\<close> (\<open>internal/metrics\<close>): the collectors,
    every place that feeds them, and what the console queries of them.
  \<^item> \<open>Console_Config\<close>, \<open>Console_Auth\<close>, \<open>Console_Action\<close>, \<open>Console_Runner\<close>, \<open>Console_Process\<close>,
    \<open>Console_Stack\<close>, \<open>Console_Watch\<close>, \<open>Console_Prom\<close>, \<open>Console_Server\<close>, \<open>Console_Stream\<close>, \<open>Console_Main\<close>
    (\<open>cmd/console\<close>): configuration; the login throttle and sessions; the allowlist and its
    validation; running one action at a time, its output and the interleaving of its
    goroutines; the processes of a command and how they are killed; the containers, and the
    timer that asks for them; the metrics; the HTTP handlers with their guards; the event
    stream; the process of the console from its flag to its shutdown.
  \<^item> \<open>Loadgen\<close>, \<open>Loadgen_Run\<close>, \<open>Loadgen_Report\<close> (\<open>cmd/loadgen\<close>): the schedule of requests, the recording
    of replies and the summary; the permits and the goroutines that send; the printed report.
  \<^item> This theory: properties across services.

  \<^bold>\<open>Interfaces.\<close> The locales \<open>retry_client\<close> and \<open>retry_clock\<close> (what a caller of \<open>Do\<close> supplies),
  \<open>worker_deps\<close> (what the store and the queue promise the worker), \<open>replay_deps\<close> (what the client
  promises the replay tool), \<open>partition_set\<close> and \<open>revocable_set\<close> (sets of partitions) hold the
  lemmas of the code that relies on them; they are interpreted on the model's own store, queue,
  client, assignment and paused set in \<open>Pipeline\<close>, \<open>Replay_Run\<close>, \<open>Worker\<close> and \<open>Broker\<close>.

  \<^bold>\<open>What is shown.\<close>

  \<^item> No committed record is lost: in every reachable state of a group member each record before a
    committed offset is in the table or parked, provided a resumed partition is fetched from its
    committed offset; and a run that loses a record if it is not. A worker that shuts down
    cleanly leaves nothing it was given for the next member, paused partitions apart.
  \<^item> From one end to the other: an accepted order is readable once its record is processed, and a
    client that retries with the same key has one order.
  \<^item> The writes are idempotent, the batch insert equals inserting one by one, pages neither skip
    nor repeat a row while rows arrive, cursors and tokens are read back as written.
  \<^item> A replay run commits only past what it settled, ends, and a record that always fails goes
    round as often as the guard allows; its exit status says what its report says.
  \<^item> Every retry loop, poll pass and replay run returns: the clock moves, so a budget runs out.
  \<^item> The console runs one allowlisted command at a time, for a live session only; its throttle is
    bounded and its locks hold; its output feed is bounded and in order, and a tab that opens
    in the middle of a run misses no line between the backlog and the stream; what it shows of
    the metrics does not depend on which query is faster, and every answer can be encoded.
    Stopping a run kills everything it started and nothing else; the shutdown of the console
    can leave a command alive. What the page shows of the containers is at most 23 seconds old.
  \<^item> The load generator sends on its schedule however slow the system is, never has more requests
    in flight than it may, its counts add up and its percentiles are exact.
  \<^item> A service runs exactly if its configuration is valid and what it opens opens; a server told to
    stop answers what it accepted or runs out its grace. No collector can panic, the API counts
    each request once, and the console queries what the services register.
  \<^item> Where the code does not do what its comments say, a property shows it.

  \<^bold>\<open>Parameters.\<close> Code outside the repository is an argument: the Kafka client, PostgreSQL's input
  functions (\<open>pg\<close>) and network (\<open>env\<close>), JSON, SHA-1, HMAC, bcrypt, number formats, the clock. What a
  property relies on is a hypothesis of its own: \<open>codec_ok\<close> (JSON of a cursor round-trips),
  \<open>reads_ok\<close> (a healthy read), \<open>seek\<close> (where a resumed partition is fetched from). There is no fuel
  in the loops: a loop that may not return is an option-valued partial function, and that it
  returns is proved. The only bound is the 64 steps of \<open>scale_f64\<close>, more than the binary
  exponents of a duration.

  \<^bold>\<open>Not modelled.\<close> What only talks to the terminal or the log: flags, log lines and the
  heartbeat of the worker. What the standard library or a
  generated file does by itself: the HTTP and gRPC listeners and the route tables handed to
  them, the connection pool of the load generator, the page of the console and its embedding,
  generated protobuf code. The help texts of the metrics and the values their histograms
  observe.
\<close>

section \<open>The API on a topic\<close>

text \<open>
  The front of \<open>cmd/api\<close> with the producer of \<open>internal/broker\<close>, on a topic that is the list of
  the records it holds; the broker acknowledges or refuses a produce request by its number. JSON
  (\<open>mar\<close>, \<open>dec\<close>), the UUID source (\<open>fresh\<close>) and SHA-1 (\<open>h\<close>) are parameters.
\<close>

record topic =
  t_calls :: nat
  t_log :: "krec list"

definition topic_produce :: "(nat \<Rightarrow> (nat \<times> nat) res) \<Rightarrow> krec \<Rightarrow> topic \<Rightarrow> (nat \<times> nat) res \<times> topic" where
  "topic_produce ack rec w =
     (case ack (t_calls w) of
        Inl e \<Rightarrow> (Inl e, w\<lparr>t_calls := Suc (t_calls w)\<rparr>)
      | Inr slot \<Rightarrow> (Inr slot, \<lparr>t_calls = Suc (t_calls w), t_log = t_log w @ [rec\<lparr>Offset := length (t_log w)\<rparr>]\<rparr>))"

definition live_api ::
  "(nat \<Rightarrow> (nat \<times> nat) res) \<Rightarrow> (int \<Rightarrow> bytes \<Rightarrow> create_request res) \<Rightarrow> (event \<Rightarrow> bytes) \<Rightarrow> (nat \<Rightarrow> string) \<Rightarrow>
   (string \<Rightarrow> string \<Rightarrow> string) \<Rightarrow> string \<Rightarrow> topic api" where
  "live_api ack dec mar fresh h name =
     \<lparr>a_decode = dec, a_sha1 = h,
      a_uuid = (\<lambda>w. (fresh (t_calls w), w\<lparr>t_calls := Suc (t_calls w)\<rparr>)),
      a_now = (\<lambda>w. (int (t_calls w), w\<lparr>t_calls := Suc (t_calls w)\<rparr>)),
      a_publish = Publish (\<lambda>e. Inr (mar e)) (topic_produce ack) name,
      a_ping = (\<lambda>w. (None, w))\<rparr>"

text \<open>An accepted request has put exactly one record on the topic: its event, keyed by its order.\<close>

lemma accepted_published:
  assumes "createOrder (live_api ack dec mar fresh h name) key body w = (resp, w')" and "Status resp = 202"
  obtains req n t rec where "dec maxBodyBytes body = Inr req" "Validate req = None"
    "t_log w' = t_log w @ [rec]" "Value rec = mar (NewEvent h (fresh n) (fresh (Suc n)) t req key)"
    "Body resp = JObj [(''order_id'', JStr (OrderID (NewEvent h (fresh n) (fresh (Suc n)) t req key))), (''status'', JStr ''accepted'')]"
proof -
  from assms obtain req where d: "dec maxBodyBytes body = Inr req" and v: "Validate req = None"
    "ValidateIdempotencyKey key = None"
    by (auto simp: createOrder_def live_api_def writeError_def writeJSON_def split: option.splits sum.splits)
  let ?n = "t_calls w"
  let ?e = "NewEvent h (fresh ?n) (fresh (Suc ?n)) (int (Suc (Suc ?n))) req key"
  from assms d v obtain slot where "ack (Suc (Suc (Suc ?n))) = Inr slot"
    by (auto simp: createOrder_def live_api_def Let_def writeError_def writeJSON_def Publish_def PublishRecord_def
        topic_produce_def split: sum.splits if_splits)
  with assms d v show thesis
    by (intro that[where req = req and rec = "last (t_log w')" and n = ?n and t = "int (Suc (Suc ?n))"])
      (auto simp: createOrder_def live_api_def Let_def writeJSON_def Publish_def PublishRecord_def topic_produce_def
        split: if_splits)
qed

section \<open>Properties\<close>


text \<open>
  A sample front: the body is the customer's name for two fixed items, the identifiers come from
  the key, and an event travels as its instant in unary.
\<close>

definition sample_sent :: "time \<Rightarrow> event" where
  "sample_sent t = NewEvent (\<lambda>_ n. n) ''u'' ''u'' t (sample_request\<lparr>ReqCustomerID := ''cust-7''\<rparr>) ''k1''"

definition sample_mar :: "event \<Rightarrow> bytes" where
  "sample_mar e = (if OccurredAt e < 0 then CHR ''-'' else CHR ''+'') # replicate (nat \<bar>OccurredAt e\<bar>) CHR ''1''"

definition sample_api :: "topic api" where
  "sample_api = live_api (\<lambda>_. Inr (0, 0)) (\<lambda>_ b. Inr (sample_request\<lparr>ReqCustomerID := b\<rparr>))
     sample_mar (\<lambda>n. ''u'') (\<lambda>_ n. n) ''orders''"

definition sample_read_deps :: deps where
  "sample_read_deps = sample_deps\<lparr>d_unmarshal := (\<lambda>v. Inr (sample_sent
     (if hd v = CHR ''-'' then - int (length (tl v)) else int (length (tl v)))))\<rparr>"

lemma sample_sent_read:
  "d_unmarshal sample_read_deps (sample_mar (sample_sent t)) = Inr (sample_sent t)"
  "\<exists>T'. InsertOrder (d_pg sample_read_deps) Answered tm (sample_sent t) [] = (Inr True, T')"
  by (auto simp: sample_read_deps_def sample_mar_def sample_sent_def NewEvent_body sample_deps_def
      InsertOrder_answered typed_row_def insert_row_def sample_pg_def NewEvent_keyed_ids derive_def)


text \<open>
  C6. A client's retry is one order. Two POSTs with the same idempotency key, both answered with
  202, put two records on the topic, which name the same order in both answers; once a worker
  has stored the event of one of them, handling the other changes no row, is counted as a
  duplicate and lets the partition move on.
\<close>

theorem client_retry_is_one_order:
  assumes "key \<noteq> ''''"
    and "createOrder (live_api ack dec mar fresh h name) key body1 w = (resp1, w1)" and "Status resp1 = 202"
    and "createOrder (live_api ack dec mar fresh h name) key body2 w1 = (resp2, w2)" and "Status resp2 = 202"
    and "\<forall>b \<in> {body1, body2}. \<forall>q n t. dec maxBodyBytes b = Inr q \<longrightarrow>
           (let e = NewEvent h (fresh n) (fresh (Suc n)) t q key
            in d_unmarshal dp (mar e) = Inr e \<and> (\<forall>tm. \<exists>r. typed_row (d_pg dp) tm e = Inr r))"
    and "\<forall>n. db_reply env n = Answered"
  shows "Body resp1 = Body resp2 \<and>
    (\<exists>r1 r2. t_log w2 = t_log w @ [r1, r2] \<and>
       (\<forall>evt s. d_unmarshal dp (Value r1) = Inr evt \<and> stored (d_pg dp) evt (tbl (world s)) \<longrightarrow>
          (\<exists>s'. handle (live_worker env dp pol batch) r2 s = Some (True, s') \<and>
             tbl (world s') = tbl (world s) \<and> dead (world s') = dead (world s) \<and>
             cnt s' = (cnt s)\<lparr>duplicates := duplicates (cnt s) + 1\<rparr>)))"
proof -
  from accepted_published[OF assms(2,3)] obtain q1 n1 t1 r1 where
    d1: "dec maxBodyBytes body1 = Inr q1" and a: "t_log w1 = t_log w @ [r1]""Value r1 = mar (NewEvent h (fresh n1) (fresh (Suc n1)) t1 q1 key)"
      "Body resp1 = JObj [(''order_id'', JStr (OrderID (NewEvent h (fresh n1) (fresh (Suc n1)) t1 q1 key))), (''status'', JStr ''accepted'')]"
    by metis
  from accepted_published[OF assms(4,5)] obtain q2 n2 t2 r2 where
    d2: "dec maxBodyBytes body2 = Inr q2" and b: "t_log w2 = t_log w1 @ [r2]" "Value r2 = mar (NewEvent h (fresh n2) (fresh (Suc n2)) t2 q2 key)"
      "Body resp2 = JObj [(''order_id'', JStr (OrderID (NewEvent h (fresh n2) (fresh (Suc n2)) t2 q2 key))), (''status'', JStr ''accepted'')]"
    by metis
  let ?e1 = "NewEvent h (fresh n1) (fresh (Suc n1)) t1 q1 key" and ?e2 = "NewEvent h (fresh n2) (fresh (Suc n2)) t2 q2 key"
  note ids = NewEvent_keyed_ids[OF assms(1), of h]
  have un: "d_unmarshal dp (Value r1) = Inr ?e1" "d_unmarshal dp (Value r2) = Inr ?e2"
    and row: "\<forall>tm. \<exists>r. typed_row (d_pg dp) tm ?e2 = Inr r"
    using assms(6) d1 d2 a(2) b(2) by (simp_all add: Let_def)
  have "\<exists>s'. handle (live_worker env dp pol batch) r2 s = Some (True, s') \<and>
      tbl (world s') = tbl (world s) \<and> dead (world s') = dead (world s) \<and>
      cnt s' = (cnt s)\<lparr>duplicates := duplicates (cnt s) + 1\<rparr>"
    if "d_unmarshal dp (Value r1) = Inr evt" "stored (d_pg dp) evt (tbl (world s))" for evt s
  proof -
    have "stored (d_pg dp) ?e2 (tbl (world s))" using that un(1) ids by (auto simp: stored_def)
    from handle_stored[OF un(2) this row assms(7)] show ?thesis .
  qed
  moreover have "Body resp1 = Body resp2" using a(3) b(3) ids by simp
  ultimately show ?thesis using a(1) b(1) by auto
qed

lemma client_retry_is_one_order_witness:
  "\<exists>r1 r2 w2. t_log (w2 :: topic) = [r1, r2] \<and>
     (\<forall>evt s. d_unmarshal sample_read_deps (Value r1) = Inr evt \<and> stored (d_pg sample_read_deps) evt (tbl (world s)) \<longrightarrow>
        (\<exists>s'. handle (live_worker (sample_env []) sample_read_deps sample_policy 1) r2 s = Some (True, s')))"
proof -
  let ?w = "\<lparr>t_calls = 0, t_log = []\<rparr>"
  obtain resp1 w1 where p1: "createOrder sample_api ''k1'' ''cust-7'' ?w = (resp1, w1)" by fastforce
  obtain resp2 w2 where p2: "createOrder sample_api ''k1'' ''cust-7'' w1 = (resp2, w2)" by fastforce
  have "(case createOrder sample_api ''k1'' ''cust-7'' ?w of (resp1, w1) \<Rightarrow>
      Status resp1 = 202 \<and> Status (fst (createOrder sample_api ''k1'' ''cust-7'' w1)) = 202)" by code_simp
  then have st: "Status resp1 = 202" "Status resp2 = 202" using p1 p2 by simp_all
  let ?req = "sample_request\<lparr>ReqCustomerID := ''cust-7''\<rparr>"
  have row: "\<exists>r. typed_row (d_pg sample_read_deps) tm (sample_sent t) = Inr r" for t tm
    using sample_sent_read(2)[of tm t] by (elim exE InsertOrder_Inr) blast
  have e: "\<forall>b \<in> {''cust-7'', ''cust-7''}. \<forall>q n t. (\<lambda>_ b. Inr (sample_request\<lparr>ReqCustomerID := b\<rparr>)) maxBodyBytes b = Inr q \<longrightarrow>
      (let e = NewEvent (\<lambda>_ n. n) ((\<lambda>n. ''u'') n) ((\<lambda>n. ''u'') (Suc n)) t q ''k1''
       in d_unmarshal sample_read_deps (sample_mar e) = Inr e \<and> (\<forall>tm. \<exists>r. typed_row (d_pg sample_read_deps) tm e = Inr r))"
    using sample_sent_read(1) row by (auto simp: sample_sent_def)
  have "\<forall>n. db_reply (sample_env []) n = Answered" by (simp add: sample_env_def)
  from client_retry_is_one_order[OF _ p1[unfolded sample_api_def] st(1) p2[unfolded sample_api_def] st(2) e this,
      of sample_policy 1]
  obtain r1 r2 where "t_log w2 = [r1, r2]"
    "\<forall>evt s. d_unmarshal sample_read_deps (Value r1) = Inr evt \<and> stored (d_pg sample_read_deps) evt (tbl (world s)) \<longrightarrow>
       (\<exists>s'. handle (live_worker (sample_env []) sample_read_deps sample_policy 1) r2 s = Some (True, s'))"
    by (metis (lifting) append_Nil list.distinct(1) topic.select_convs(2))
  then show ?thesis by blast
qed



end
